(* ===== verification/Prelude.thy ===== *)
theory Prelude
  imports Main "HOL-Library.Word" "HOL-Library.List_Lexorder" "HOL-Library.Product_Lexorder"
    "HOL-Library.Char_ord" "HOL-Library.Multiset" "HOL-Library.Sublist"
begin

text \<open>
  What the components share. Machine types: a \<open>usize\<close> that counts or indexes is a
  \<open>nat\<close> (lengths of vectors held in memory stay far below \<open>2 ^ 64\<close>), a
  \<open>u32\<close> or \<open>u64\<close> whose width matters is a word, and \<open>usize::MAX\<close> and the
  saturating additions are written out. \<open>std::cmp::Reverse\<close> is a datatype with the
  reversed order; Rust's stable \<open>sort_by_key\<close> is the library's \<open>sort_key\<close>.
  The rest is generic: lemmas on sorting, filtering and finding in lists, on finite maps, and
  the collections that the component theories fill.
\<close>

section \<open>Collections\<close>

named_theorems retain_simps \<open>equations of operations that only drop list elements\<close>
named_theorems frame_simps \<open>fields an operation leaves unchanged\<close>
named_theorems step_invs \<open>one operation keeps an invariant\<close>

section \<open>Machine integers\<close>

type_synonym usize = nat
type_synonym u32 = "32 word"
type_synonym u64 = "64 word"

definition usize_max :: usize where
  "usize_max = 2 ^ 64 - 1"

definition saturating_add :: "usize \<Rightarrow> usize \<Rightarrow> usize" where
  "saturating_add a b = min usize_max (a + b)"

lemma saturating_add_ge [intro]: "a \<le> usize_max \<Longrightarrow> a \<le> saturating_add a b"
  by (simp add: saturating_add_def)

lemma saturating_add_le [simp, intro]: "saturating_add a b \<le> usize_max"
  by (simp add: saturating_add_def)

section \<open>Reversed order\<close>

datatype 'a reverse = Reverse (unreverse: 'a)

instantiation reverse :: (linorder) linorder
begin

definition less_eq_reverse :: "'a reverse \<Rightarrow> 'a reverse \<Rightarrow> bool" where
  "less_eq_reverse a b \<longleftrightarrow> unreverse b \<le> unreverse a"

definition less_reverse :: "'a reverse \<Rightarrow> 'a reverse \<Rightarrow> bool" where
  "less_reverse a b \<longleftrightarrow> unreverse b < unreverse a"

instance
  by standard (auto simp: less_eq_reverse_def less_reverse_def reverse.expand)

end

lemma Reverse_le [simp]: "Reverse a \<le> Reverse b \<longleftrightarrow> b \<le> a"
  by (simp add: less_eq_reverse_def)

lemma Reverse_less [simp]: "Reverse a < Reverse b \<longleftrightarrow> b < a"
  by (simp add: less_reverse_def)

section \<open>Sorting\<close>

lemma filter_sort_key: "filter P (sort_key f xs) = sort_key f (filter P xs)"
proof (induction xs)
  case Nil
  then show ?case by simp
next
  case (Cons x xs)
  have "sorted (map f (sort_key f xs))" by simp
  then have "filter P (insort_key f x (sort_key f xs)) =
      (if P x then insort_key f x (filter P (sort_key f xs)) else filter P (sort_key f xs))"
    by (simp add: filter_insort filter_insort_triv)
  with Cons show ?case by simp
qed

lemma sort_key_nth_le:
  assumes "i < j" and "j < length xs"
  shows "f (sort_key f xs ! i) \<le> f (sort_key f xs ! j)"
proof -
  have "sorted (map f (sort_key f xs))" by simp
  then have "map f (sort_key f xs) ! i \<le> map f (sort_key f xs) ! j"
    using assms by (intro sorted_nth_mono) simp_all
  then show ?thesis using assms by simp
qed

lemma insort_key_order_cong:
  assumes "\<forall>a \<in> insert x (set ys). \<forall>b \<in> insert x (set ys). f a \<le> f b \<longleftrightarrow> g a \<le> g b"
  shows "insort_key f x ys = insort_key g x ys"
  using assms by (induction ys) auto

text \<open>Sorting only looks at how the keys compare on the list at hand.\<close>

lemma sort_key_order_cong:
  assumes "\<forall>a \<in> set xs. \<forall>b \<in> set xs. f a \<le> f b \<longleftrightarrow> g a \<le> g b"
  shows "sort_key f xs = sort_key g xs"
  using assms
proof (induction xs)
  case Nil
  then show ?case by simp
next
  case (Cons x xs)
  then have "sort_key f xs = sort_key g xs" by simp
  moreover have "insort_key f x (sort_key g xs) = insort_key g x (sort_key g xs)"
    using Cons.prems by (intro insort_key_order_cong) simp
  ultimately show ?case by simp
qed

section \<open>Decimal text\<close>

text \<open>\<open>Display\<close> of an unsigned integer.\<close>

fun nat_text :: "nat \<Rightarrow> string" where
  "nat_text n =
     (if n < 10 then [char_of (48 + n)] else nat_text (n div 10) @ [char_of (48 + n mod 10)])"

declare nat_text.simps [simp del]

section \<open>Lists and options\<close>

lemma subseq_take_self [simp]: "subseq (take n xs) xs"
  by (metis append_take_drop_id subseq_order.refl subseq_rev_drop_many)

lemma find_Some_iff_ex: "(\<exists>x. find P xs = Some x) \<longleftrightarrow> (\<exists>x \<in> set xs. P x)"
  by (induction xs) auto

lemma find_SomeD: "find P xs = Some x \<Longrightarrow> x \<in> set xs \<and> P x"
  by (induction xs) (auto split: if_splits)

text \<open>\<open>Iterator::find_map\<close>.\<close>

fun find_map :: "('a \<Rightarrow> 'b option) \<Rightarrow> 'a list \<Rightarrow> 'b option" where
  "find_map f [] = None"
| "find_map f (x # xs) = (case f x of Some y \<Rightarrow> Some y | None \<Rightarrow> find_map f xs)"

lemma find_map_SomeD: "find_map f xs = Some y \<Longrightarrow> \<exists>x \<in> set xs. f x = Some y"
  by (induction xs) (auto split: option.splits)

lemma find_map_None_iff: "find_map f xs = None \<longleftrightarrow> (\<forall>x \<in> set xs. f x = None)"
  by (induction xs) (auto split: option.splits)

text \<open>Pushing values under their keys, \<open>map.entry(k).or_default().push(v)\<close>.\<close>

definition push_entry :: "'k \<Rightarrow> 'v \<Rightarrow> ('k \<rightharpoonup> 'v list) \<Rightarrow> ('k \<rightharpoonup> 'v list)" where
  "push_entry k v m = m(k \<mapsto> (case m k of None \<Rightarrow> [] | Some vs \<Rightarrow> vs) @ [v])"

definition group_entries :: "('k \<times> 'v) list \<Rightarrow> ('k \<rightharpoonup> 'v list)" where
  "group_entries kvs = fold (\<lambda>(k, v). push_entry k v) kvs Map.empty"

lemma fold_push_entry:
  "fold (\<lambda>(k, v). push_entry k v) kvs m k =
     (if k \<in> fst ` set kvs then Some ((case m k of None \<Rightarrow> [] | Some vs \<Rightarrow> vs) @ map snd (filter (\<lambda>kv. fst kv = k) kvs))
      else m k)"
proof (induction kvs arbitrary: m)
  case (Cons kv kvs)
  then show ?case
    by (cases kv) (auto simp: push_entry_def filter_empty_conv image_iff split: option.splits)
qed simp

lemma group_entries_apply:
  "group_entries kvs k = (if k \<in> fst ` set kvs then Some (map snd (filter (\<lambda>kv. fst kv = k) kvs)) else None)"
  by (simp add: group_entries_def fold_push_entry)

lemma group_entries_SomeD:
  "group_entries kvs k = Some vs \<Longrightarrow> v \<in> set vs \<longleftrightarrow> (k, v) \<in> set kvs"
  by (force simp: group_entries_apply split: if_splits)

text \<open>A finite map stays injective when a fresh value is stored.\<close>

lemma inj_on_map_fresh:
  assumes "inj_on m (dom m)" and "v \<notin> ran m" and "m c = None"
  shows "inj_on (m(c \<mapsto> v)) (insert c (dom m))"
proof (rule inj_onI)
  fix x y
  assume "x \<in> insert c (dom m)" and "y \<in> insert c (dom m)" and "(m(c \<mapsto> v)) x = (m(c \<mapsto> v)) y"
  then show "x = y"
    using assms by (cases "x = c"; cases "y = c") (auto simp: inj_on_def dest: ranI split: if_splits)
qed

end
