(* ===== verification/Paths.thy ===== *)
theory Paths
  imports Prelude
begin

text \<open>
  File paths as \<open>std::path\<close> sees them: a \<open>PathBuf\<close> is the list of its components,
  compared component by component (so \<open>a/b\<close> sorts before \<open>a-b\<close>), and
  \<open>starts_with\<close>, \<open>parent\<close> and \<open>ancestors\<close> work on whole components. The
  order of components is that of the enum \<open>Component\<close>.
\<close>

datatype component = RootDir | CurDir | ParentDir | Normal string

type_synonym path = "component list"

fun component_key :: "component \<Rightarrow> nat \<times> string" where
  "component_key RootDir = (0, [])"
| "component_key CurDir = (1, [])"
| "component_key ParentDir = (2, [])"
| "component_key (Normal s) = (3, s)"

lemma component_key_inject [simp]: "component_key a = component_key b \<longleftrightarrow> a = b"
  by (cases a; cases b) auto

instantiation component :: linorder
begin

definition less_eq_component :: "component \<Rightarrow> component \<Rightarrow> bool" where
  "less_eq_component a b \<longleftrightarrow> component_key a \<le> component_key b"

definition less_component :: "component \<Rightarrow> component \<Rightarrow> bool" where
  "less_component a b \<longleftrightarrow> component_key a < component_key b"

instance
  by standard (auto simp: less_eq_component_def less_component_def
      simp del: less_eq_prod_simp less_prod_simp dest: antisym)

end

text \<open>\<open>Path::starts_with\<close> and \<open>Path::strip_prefix\<close>.\<close>

definition path_starts_with :: "path \<Rightarrow> path \<Rightarrow> bool" where
  "path_starts_with p base \<longleftrightarrow> take (length base) p = base"

definition path_strip_prefix :: "path \<Rightarrow> path \<Rightarrow> path option" where
  "path_strip_prefix p base =
     (if path_starts_with p base then Some (drop (length base) p) else None)"

lemma path_starts_with_prefix: "path_starts_with p base \<longleftrightarrow> prefix base p"
  by (auto simp: path_starts_with_def prefix_def)
     (metis append_take_drop_id)

text \<open>\<open>Path::parent\<close>: none for the empty path and for the root.\<close>

definition path_parent :: "path \<Rightarrow> path option" where
  "path_parent p = (if p = [] \<or> p = [RootDir] then None else Some (butlast p))"

text \<open>\<open>Path::ancestors\<close>: the path itself, then each parent.\<close>

function path_ancestors :: "path \<Rightarrow> path list" where
  "path_ancestors p =
     p # (case path_parent p of None \<Rightarrow> [] | Some q \<Rightarrow> path_ancestors q)"
  by pat_completeness auto
termination
  by (relation "measure length") (auto simp: path_parent_def split: if_splits)

declare path_ancestors.simps [simp del]

lemma path_parent_shorter: "path_parent p = Some q \<Longrightarrow> length q < length p"
  by (auto simp: path_parent_def split: if_splits)

text \<open>\<open>Path::join\<close>: an absolute path replaces the base.\<close>

fun path_join :: "path \<Rightarrow> path \<Rightarrow> path" where
  "path_join base (RootDir # p) = RootDir # p"
| "path_join base p = base @ p"

text \<open>\<open>Path::display\<close>.\<close>

fun component_text :: "component \<Rightarrow> string" where
  "component_text RootDir = []"
| "component_text CurDir = ''.''"
| "component_text ParentDir = ''..''"
| "component_text (Normal s) = s"

fun join_with :: "string \<Rightarrow> string list \<Rightarrow> string" where
  "join_with sep [] = []"
| "join_with sep [s] = s"
| "join_with sep (s # t # ss) = s @ sep @ join_with sep (t # ss)"

definition path_display :: "path \<Rightarrow> string" where
  "path_display p =
     (if p = [RootDir] then ''/'' else join_with ''/'' (map component_text p))"

end
