(* ===== verification/Report.thy ===== *)
theory Report
  imports Paths
begin

text \<open>
  The report data model (\<open>src/report.rs\<close>, \<open>src/report/\<close>): one record per kind
  of finding, the run metadata, the report itself and the operations on it: the action and
  severity orders, occurrence pruning, the totals, the per-finding spans and the one-line
  summary. Field names carry the initials of their struct. The fields the report only carries
  for a reader (glossary, filtered pillars) are left out.
\<close>

section \<open>Action levels, severities, confidences\<close>

datatype severity = Critical | SevWarning | SevInfo

datatype action_level = MustFix | Warning | Advisory | Info

datatype confidence = High | Medium | Low

text \<open>The derived \<open>Ord\<close> of a field-less enum is its declaration order.\<close>

fun severity_rank :: "severity \<Rightarrow> nat" where
  "severity_rank Critical = 0"
| "severity_rank SevWarning = 1"
| "severity_rank SevInfo = 2"

fun action_rank :: "action_level \<Rightarrow> nat" where
  "action_rank MustFix = 0"
| "action_rank Warning = 1"
| "action_rank Advisory = 2"
| "action_rank Info = 3"

fun confidence_rank :: "confidence \<Rightarrow> nat" where
  "confidence_rank High = 0"
| "confidence_rank Medium = 1"
| "confidence_rank Low = 2"

lemma severity_rank_inject [simp]: "severity_rank a = severity_rank b \<longleftrightarrow> a = b"
  by (cases a; cases b) auto

lemma action_rank_inject [simp]: "action_rank a = action_rank b \<longleftrightarrow> a = b"
  by (cases a; cases b) auto

lemma confidence_rank_inject [simp]: "confidence_rank a = confidence_rank b \<longleftrightarrow> a = b"
  by (cases a; cases b) auto

instantiation severity :: linorder
begin

definition less_eq_severity :: "severity \<Rightarrow> severity \<Rightarrow> bool" where
  "less_eq_severity a b \<longleftrightarrow> severity_rank a \<le> severity_rank b"

definition less_severity :: "severity \<Rightarrow> severity \<Rightarrow> bool" where
  "less_severity a b \<longleftrightarrow> severity_rank a < severity_rank b"

instance
  by standard (auto simp: less_eq_severity_def less_severity_def dest: antisym)

end

instantiation action_level :: linorder
begin

definition less_eq_action_level :: "action_level \<Rightarrow> action_level \<Rightarrow> bool" where
  "less_eq_action_level a b \<longleftrightarrow> action_rank a \<le> action_rank b"

definition less_action_level :: "action_level \<Rightarrow> action_level \<Rightarrow> bool" where
  "less_action_level a b \<longleftrightarrow> action_rank a < action_rank b"

instance
  by standard (auto simp: less_eq_action_level_def less_action_level_def dest: antisym)

end

instantiation confidence :: linorder
begin

definition less_eq_confidence :: "confidence \<Rightarrow> confidence \<Rightarrow> bool" where
  "less_eq_confidence a b \<longleftrightarrow> confidence_rank a \<le> confidence_rank b"

definition less_confidence :: "confidence \<Rightarrow> confidence \<Rightarrow> bool" where
  "less_confidence a b \<longleftrightarrow> confidence_rank a < confidence_rank b"

instance
  by standard (auto simp: less_eq_confidence_def less_confidence_def dest: antisym)

end

fun from_severity :: "severity \<Rightarrow> action_level" where
  "from_severity Critical = MustFix"
| "from_severity SevWarning = Warning"
| "from_severity SevInfo = Advisory"

fun action_as_str :: "action_level \<Rightarrow> string" where
  "action_as_str MustFix = ''must_fix''"
| "action_as_str Warning = ''warning''"
| "action_as_str Advisory = ''advisory''"
| "action_as_str Info = ''info''"

text \<open>A more severe smell never gets a weaker default action.\<close>

lemma from_severity_mono: "a \<le> b \<Longrightarrow> from_severity a \<le> from_severity b"
  by (cases a; cases b) (auto simp: less_eq_severity_def less_eq_action_level_def)

section \<open>Pillars\<close>

datatype pillar = Cycles | DeadCode | Boundaries | Duplication | Smells

definition pillar_all :: "pillar list" where
  "pillar_all = [Cycles, DeadCode, Boundaries, Duplication, Smells]"

fun pillar_as_str :: "pillar \<Rightarrow> string" where
  "pillar_as_str Cycles = ''cycles''"
| "pillar_as_str DeadCode = ''dead_code''"
| "pillar_as_str Boundaries = ''boundaries''"
| "pillar_as_str Duplication = ''duplication''"
| "pillar_as_str Smells = ''smells''"

definition pillar_from_name :: "string \<Rightarrow> pillar option" where
  "pillar_from_name value = find (\<lambda>p. pillar_as_str p = value) pillar_all"

lemma pillar_from_name_as_str [simp]: "pillar_from_name (pillar_as_str p) = Some p"
  by (cases p) (simp_all add: pillar_from_name_def pillar_all_def)

lemma pillar_as_str_inject [simp]: "pillar_as_str a = pillar_as_str b \<longleftrightarrow> a = b"
  by (metis option.inject pillar_from_name_as_str)

section \<open>Symbol kinds and smell kinds\<close>

datatype symbol_kind =
  KFunction | KClass | KVariable | KMethod | KImport | KProperty | KModule

fun symbol_kind_as_str :: "symbol_kind \<Rightarrow> string" where
  "symbol_kind_as_str KFunction = ''function''"
| "symbol_kind_as_str KClass = ''class''"
| "symbol_kind_as_str KVariable = ''variable''"
| "symbol_kind_as_str KMethod = ''method''"
| "symbol_kind_as_str KImport = ''import''"
| "symbol_kind_as_str KProperty = ''property''"
| "symbol_kind_as_str KModule = ''module''"

lemma symbol_kind_as_str_inject [simp]:
  "symbol_kind_as_str a = symbol_kind_as_str b \<longleftrightarrow> a = b"
  by (cases a; cases b) auto

datatype smell_kind =
    BooleanBlindness | DataClump | DeepNesting
  | DefensiveFallback | DependencyReimplementation | DivergentAbstraction
  | DivergentChange | FeatureEnvy | FixtureEchoAssertion
  | GodModule | HeavyNestedFunction | HighCognitiveComplexity
  | HighComplexity | ImplicitSchema | InappropriateIntimacy
  | LargeClass | LiteralMembership | LongFunction
  | LongParameterList | LooseTyping | MagicStringDefault
  | MagicNumbers | MessageChain | MockedSubject
  | MutatedParameter | NamePromiseMismatch | NarratingCode
  | NestedLoop | NestedTernary | NPlusOneCall
  | ReassignedParameter | RedundantValidation | RedundantWrapperChain
  | RefusedBequest | RepeatedIteration | ShotgunSurgeryHazard
  | SiblingHelperRedefinition | SplitVariable | StubShipped
  | SortInLoop | SwallowedErrorSentinel | TooManyReturns
  | TuplePacking | TypeEscapeCast | UnnecessaryNestedIf
  | WeakTestOracle

definition smell_kinds :: "smell_kind list" where
  "smell_kinds =
     [BooleanBlindness, DataClump, DeepNesting,
      DefensiveFallback, DependencyReimplementation, DivergentAbstraction,
      DivergentChange, FeatureEnvy, FixtureEchoAssertion,
      GodModule, HeavyNestedFunction, HighCognitiveComplexity,
      HighComplexity, ImplicitSchema, InappropriateIntimacy,
      LargeClass, LiteralMembership, LongFunction,
      LongParameterList, LooseTyping, MagicStringDefault,
      MagicNumbers, MessageChain, MockedSubject,
      MutatedParameter, NamePromiseMismatch, NarratingCode,
      NestedLoop, NestedTernary, NPlusOneCall,
      ReassignedParameter, RedundantValidation, RedundantWrapperChain,
      RefusedBequest, RepeatedIteration, ShotgunSurgeryHazard,
      SiblingHelperRedefinition, SplitVariable, StubShipped,
      SortInLoop, SwallowedErrorSentinel, TooManyReturns,
      TuplePacking, TypeEscapeCast, UnnecessaryNestedIf,
      WeakTestOracle]"

fun smell_as_str :: "smell_kind \<Rightarrow> string" where
  "smell_as_str BooleanBlindness = ''boolean_blindness''"
| "smell_as_str DataClump = ''data_clump''"
| "smell_as_str DeepNesting = ''deep_nesting''"
| "smell_as_str DefensiveFallback = ''defensive_fallback''"
| "smell_as_str DependencyReimplementation = ''dependency_reimplementation''"
| "smell_as_str DivergentAbstraction = ''divergent_abstraction''"
| "smell_as_str DivergentChange = ''divergent_change''"
| "smell_as_str FeatureEnvy = ''feature_envy''"
| "smell_as_str FixtureEchoAssertion = ''fixture_echo_assertion''"
| "smell_as_str GodModule = ''god_module''"
| "smell_as_str HeavyNestedFunction = ''heavy_nested_function''"
| "smell_as_str HighCognitiveComplexity = ''high_cognitive_complexity''"
| "smell_as_str HighComplexity = ''high_complexity''"
| "smell_as_str ImplicitSchema = ''implicit_schema''"
| "smell_as_str InappropriateIntimacy = ''inappropriate_intimacy''"
| "smell_as_str LargeClass = ''large_class''"
| "smell_as_str LiteralMembership = ''literal_membership''"
| "smell_as_str LongFunction = ''long_function''"
| "smell_as_str LongParameterList = ''long_parameter_list''"
| "smell_as_str LooseTyping = ''loose_typing''"
| "smell_as_str MagicStringDefault = ''magic_string_default''"
| "smell_as_str MagicNumbers = ''magic_numbers''"
| "smell_as_str MessageChain = ''message_chain''"
| "smell_as_str MockedSubject = ''mocked_subject''"
| "smell_as_str MutatedParameter = ''mutated_parameter''"
| "smell_as_str NamePromiseMismatch = ''name_promise_mismatch''"
| "smell_as_str NarratingCode = ''narrating_code''"
| "smell_as_str NestedLoop = ''nested_loop''"
| "smell_as_str NestedTernary = ''nested_ternary''"
| "smell_as_str NPlusOneCall = ''n_plus_one_call''"
| "smell_as_str ReassignedParameter = ''reassigned_parameter''"
| "smell_as_str RedundantValidation = ''redundant_validation''"
| "smell_as_str RedundantWrapperChain = ''redundant_wrapper_chain''"
| "smell_as_str RefusedBequest = ''refused_bequest''"
| "smell_as_str RepeatedIteration = ''repeated_iteration''"
| "smell_as_str ShotgunSurgeryHazard = ''shotgun_surgery_hazard''"
| "smell_as_str SiblingHelperRedefinition = ''sibling_helper_redefinition''"
| "smell_as_str SplitVariable = ''split_variable''"
| "smell_as_str StubShipped = ''stub_shipped''"
| "smell_as_str SortInLoop = ''sort_in_loop''"
| "smell_as_str SwallowedErrorSentinel = ''swallowed_error_sentinel''"
| "smell_as_str TooManyReturns = ''too_many_returns''"
| "smell_as_str TuplePacking = ''tuple_packing''"
| "smell_as_str TypeEscapeCast = ''type_escape_cast''"
| "smell_as_str UnnecessaryNestedIf = ''unnecessary_nested_if''"
| "smell_as_str WeakTestOracle = ''weak_test_oracle''"

lemma set_smell_kinds [simp]: "set smell_kinds = UNIV"
proof -
  have "k \<in> set smell_kinds" for k
    by (cases k) (simp_all add: smell_kinds_def)
  then show ?thesis by blast
qed

lemma smell_names_distinct: "distinct (map smell_as_str smell_kinds)"
  by code_simp

text \<open>The names are unambiguous, so counting and sorting by name is counting and sorting by kind.\<close>

lemma smell_as_str_inject [simp]: "smell_as_str a = smell_as_str b \<longleftrightarrow> a = b"
  using smell_names_distinct by (auto simp: distinct_map dest: injD)

section \<open>Findings\<close>

record cycle_edge =
  ce_from_module :: string
  ce_to_module :: string
  ce_file :: path
  ce_line :: usize

record cycle_finding =
  cy_action :: action_level
  cy_modules :: "string list"
  cy_hint :: "string option"
  cy_edges :: "cycle_edge list"

record dead_code_finding =
  dc_action :: action_level
  dc_module :: string
  dc_symbol :: string
  dc_kind :: symbol_kind
  dc_confidence :: confidence
  dc_file :: path
  dc_line :: usize
  dc_reason :: string

record boundary_violation =
  bv_action :: action_level
  bv_from_module :: string
  bv_to_module :: string
  bv_file :: path
  bv_line :: usize
  bv_rule :: string

record clone_occurrence =
  oc_file :: path
  oc_start_row :: usize
  oc_end_row :: usize

datatype semantic_verdict = EditedCopy | SameIntentDifferentCode

datatype clone_detector = Structural | NearMiss | Semantic semantic_verdict | ClassShape

record absorbed_clone =
  ab_detector :: clone_detector
  ab_token_length :: usize
  ab_copies :: usize

record clone_class =
  cl_action :: action_level
  cl_token_length :: usize
  cl_occurrences :: "clone_occurrence list"
  cl_hint :: "string option"
  cl_detector :: clone_detector
  cl_absorbed :: "absorbed_clone list"

record smell_finding =
  sm_action :: action_level
  sm_kind :: smell_kind
  sm_message :: string
  sm_file :: path
  sm_line :: usize
  sm_end_line :: usize
  sm_lines :: "usize list"
  sm_symbol :: string
  sm_severity :: severity
  sm_metric :: u32
  sm_threshold :: u32
  sm_reason :: string

text \<open>The derived order of \<open>CloneDetector\<close>: by constructor, then by verdict.\<close>

fun detector_rank :: "clone_detector \<Rightarrow> nat \<times> nat" where
  "detector_rank Structural = (0, 0)"
| "detector_rank NearMiss = (1, 0)"
| "detector_rank (Semantic EditedCopy) = (2, 0)"
| "detector_rank (Semantic SameIntentDifferentCode) = (2, 1)"
| "detector_rank ClassShape = (3, 0)"

lemma detector_rank_inject [simp]: "detector_rank a = detector_rank b \<longleftrightarrow> a = b"
  by (cases a rule: detector_rank.cases; cases b rule: detector_rank.cases) auto

instantiation clone_detector :: linorder
begin

definition less_eq_clone_detector :: "clone_detector \<Rightarrow> clone_detector \<Rightarrow> bool" where
  "less_eq_clone_detector a b \<longleftrightarrow> detector_rank a \<le> detector_rank b"

definition less_clone_detector :: "clone_detector \<Rightarrow> clone_detector \<Rightarrow> bool" where
  "less_clone_detector a b \<longleftrightarrow> detector_rank a < detector_rank b"

instance
  by standard (auto simp: less_eq_clone_detector_def less_clone_detector_def
      simp del: less_eq_prod_simp less_prod_simp dest: antisym)

end

text \<open>
  \<open>CloneClass::keep_occurrences\<close>: the class with the accepted occurrences, and whether it is
  still a clone.
\<close>

definition keep_occurrences :: "(clone_occurrence \<Rightarrow> bool) \<Rightarrow> clone_class \<Rightarrow> clone_class \<times> bool" where
  "keep_occurrences keep c =
     (let occs = filter keep (cl_occurrences c)
      in (c\<lparr>cl_occurrences := occs\<rparr>, 2 \<le> length occs))"

text \<open>\<open>SmellFinding::spans\<close>: one span per offending line, else the finding's own range.\<close>

definition smell_spans :: "smell_finding \<Rightarrow> (usize \<times> usize) list" where
  "smell_spans f =
     (if sm_lines f = [] then [(sm_line f, max (sm_end_line f) (sm_line f))] else [])
     @ map (\<lambda>l. (l, l)) (sm_lines f)"

lemma smell_spans_nonempty: "smell_spans f \<noteq> []"
  by (simp add: smell_spans_def)

lemma smell_spans_ordered: "(a, b) \<in> set (smell_spans f) \<Longrightarrow> a \<le> b"
  by (auto simp: smell_spans_def split: if_splits)

text \<open>\<open>DeadCodeFinding::advice\<close>.\<close>

definition dead_code_advice :: "dead_code_finding \<Rightarrow> string" where
  "dead_code_advice f =
     (if dc_kind f = KModule then
        (if dc_reason f = ''test_only''
         then ''only tests import this module: delete it with its tests, or list it under dead_code.test_support''
         else ''nothing imports this module: delete it, or add it to dead_code.entry_globs if a tool runs it'')
      else if dc_reason f = ''test_only''
        then ''only tests use it: delete it with its tests, or stop exporting it''
        else ''nothing uses it: delete it, or add it to dead_code.entrypoint_names if it is called dynamically'')"

section \<open>Run metadata and the report\<close>

datatype report_mode = Full | Diff

datatype scan_stage = SConfig | SDiscover | SDiff | SParse | SGraph | SAnalyze

record scan_issue =
  si_stage :: scan_stage
  si_file :: "path option"
  si_message :: string

record skip_counts =
  sk_config_exclude :: usize
  sk_tests :: usize
  sk_generated :: usize

definition no_skips :: skip_counts where
  "no_skips = \<lparr>sk_config_exclude = 0, sk_tests = 0, sk_generated = 0\<rparr>"

definition skip_counts_is_empty :: "skip_counts \<Rightarrow> bool" where
  "skip_counts_is_empty c \<longleftrightarrow> c = no_skips"

record report_meta =
  rm_mode :: report_mode
  rm_boundaries_configured :: bool
  rm_internal_edges :: usize
  rm_external_edges :: usize
  rm_files_skipped :: usize
  rm_analyzed_files :: usize
  rm_source_lines :: usize
  rm_cycles_total :: usize
  rm_dead_code_total :: usize
  rm_duplication_total :: usize
  rm_boundaries_total :: usize
  rm_smells_total :: usize
  rm_duplication_skipped :: skip_counts
  rm_smells_skipped :: skip_counts
  rm_smell_totals :: "string \<rightharpoonup> usize"
  rm_unmatched_boundary_rules :: "string list"
  rm_issues :: "scan_issue list"

record analysis_report =
  meta :: report_meta
  cycles :: "cycle_finding list"
  dead_code :: "dead_code_finding list"
  boundaries :: "boundary_violation list"
  duplication :: "clone_class list"
  smells :: "smell_finding list"

definition actions :: "analysis_report \<Rightarrow> action_level list" where
  "actions r =
     map cy_action (cycles r) @ map dc_action (dead_code r) @ map bv_action (boundaries r)
     @ map cl_action (duplication r) @ map sm_action (smells r)"

definition finding_count :: "analysis_report \<Rightarrow> usize" where
  "finding_count r = length (actions r)"

definition count_at_action :: "analysis_report \<Rightarrow> action_level \<Rightarrow> usize" where
  "count_at_action r a = length (filter (\<lambda>c. c = a) (actions r))"

text \<open>\<open>*map.entry(key).or_default() += 1\<close>, and a loop of it.\<close>

definition bump :: "('k \<rightharpoonup> usize) \<Rightarrow> 'k \<Rightarrow> ('k \<rightharpoonup> usize)" where
  "bump m k = m(k \<mapsto> (case m k of None \<Rightarrow> 1 | Some c \<Rightarrow> Suc c))"

definition tally :: "'k list \<Rightarrow> ('k \<rightharpoonup> usize)" where
  "tally ks = fold (\<lambda>k m. bump m k) ks Map.empty"

definition refresh_totals :: "analysis_report \<Rightarrow> analysis_report" where
  "refresh_totals r =
     r\<lparr>meta := (meta r)\<lparr>
        rm_cycles_total := length (cycles r),
        rm_dead_code_total := length (dead_code r),
        rm_boundaries_total := length (boundaries r),
        rm_duplication_total := length (duplication r),
        rm_smells_total := length (smells r),
        rm_smell_totals := tally (map (smell_as_str \<circ> sm_kind) (smells r))\<rparr>\<rparr>"


text \<open>\<open>AnalysisReport::default()\<close>.\<close>

definition default_meta :: report_meta where
  "default_meta = \<lparr>rm_mode = Full, rm_boundaries_configured = False, rm_internal_edges = 0,
     rm_external_edges = 0, rm_files_skipped = 0, rm_analyzed_files = 0, rm_source_lines = 0,
     rm_cycles_total = 0, rm_dead_code_total = 0, rm_duplication_total = 0, rm_boundaries_total = 0,
     rm_smells_total = 0, rm_duplication_skipped = no_skips, rm_smells_skipped = no_skips,
     rm_smell_totals = Map.empty, rm_unmatched_boundary_rules = [], rm_issues = []\<rparr>"

definition default_report :: analysis_report where
  "default_report = \<lparr>meta = default_meta, cycles = [], dead_code = [], boundaries = [],
     duplication = [], smells = []\<rparr>"

text \<open>Sample findings.\<close>

definition sample_smell :: "smell_kind \<Rightarrow> u32 \<Rightarrow> smell_finding" where
  "sample_smell k m = \<lparr>sm_action = Advisory, sm_kind = k, sm_message = [], sm_file = [], sm_line = 1,
     sm_end_line = 1, sm_lines = [], sm_symbol = [], sm_severity = SevInfo, sm_metric = m,
     sm_threshold = 0, sm_reason = []\<rparr>"

definition sample_occurrence :: "string \<Rightarrow> usize \<Rightarrow> usize \<Rightarrow> clone_occurrence" where
  "sample_occurrence f s e = \<lparr>oc_file = [Normal f], oc_start_row = s, oc_end_row = e\<rparr>"

definition sample_clone :: "clone_occurrence list \<Rightarrow> usize \<Rightarrow> clone_class" where
  "sample_clone occ n = \<lparr>cl_action = Advisory, cl_token_length = n, cl_occurrences = occ,
     cl_hint = None, cl_detector = Structural, cl_absorbed = []\<rparr>"

lemma fold_bump: "fold (\<lambda>k m. bump m k) ks m k =
   (if k \<in> set ks then Some ((case m k of None \<Rightarrow> 0 | Some c \<Rightarrow> c) + count_list ks k) else m k)"
  by (induction ks arbitrary: m) (auto simp: bump_def split: option.splits)

lemma tally_apply: "tally ks k = (if k \<in> set ks then Some (count_list ks k) else None)"
  by (simp add: tally_def fold_bump)


end
