(* ===== verification/Limits.thy ===== *)
theory Limits
  imports Report
begin

text \<open>
  Narrowing a report: \<open>src/report/limit.rs\<close> (the top-N caps of the CLI flag \<open>--max\<close> and
  of the MCP argument \<open>limit\<close>) and \<open>AnalysisReport::top_n_summary\<close>. The interface
  \<open>report_pruner\<close> states what every narrowing operation of the program promises: no pillar
  gains a finding and no kept finding changes its action.
\<close>

section \<open>The contract of a narrowing operation\<close>

locale report_pruner =
  fixes prune :: "analysis_report \<Rightarrow> analysis_report"
  assumes prune_cycles: "mset (map cy_action (cycles (prune r))) \<subseteq># mset (map cy_action (cycles r))"
    and prune_dead_code:
      "mset (map dc_action (dead_code (prune r))) \<subseteq># mset (map dc_action (dead_code r))"
    and prune_boundaries:
      "mset (map bv_action (boundaries (prune r))) \<subseteq># mset (map bv_action (boundaries r))"
    and prune_duplication:
      "mset (map cl_action (duplication (prune r))) \<subseteq># mset (map cl_action (duplication r))"
    and prune_smells: "mset (map sm_action (smells (prune r))) \<subseteq># mset (map sm_action (smells r))"
begin

lemma actions_subset: "mset (actions (prune r)) \<subseteq># mset (actions r)"
  unfolding actions_def mset_append
  by (intro subset_mset.add_mono prune_cycles prune_dead_code prune_boundaries
      prune_duplication prune_smells)

lemma finding_count_le: "finding_count (prune r) \<le> finding_count r"
  using size_mset_mono [OF actions_subset] by (simp add: finding_count_def)

lemma count_at_action_le: "count_at_action (prune r) a \<le> count_at_action r a"
  using size_mset_mono [OF multiset_filter_mono [OF actions_subset, of "\<lambda>c. c = a"]]
  by (simp add: count_at_action_def flip: mset_filter)

lemma no_new_action: "a \<in> set (actions (prune r)) \<Longrightarrow> a \<in> set (actions r)"
  using mset_subset_eqD [OF actions_subset] by fastforce

end

lemma mset_map_filter_subset: "mset (map f (filter P xs)) \<subseteq># mset (map f xs)"
  by (induction xs) (auto intro: subset_mset.order_trans)

lemma mset_map_subseq: "subseq xs ys \<Longrightarrow> mset (map f xs) \<subseteq># mset (map f ys)"
  by (induction rule: list_emb.induct) (auto intro: subset_mset.order_trans)

lemma mset_map_take_subset: "mset (map f (take n xs)) \<subseteq># mset (map f xs)"
  by (rule mset_map_subseq) simp

section \<open>Caps\<close>

datatype smell_cap = CapTotal usize | CapPerKind usize

record limit_policy =
  lp_pillar_max :: usize
  lp_smells :: smell_cap

definition flat_policy :: "usize \<Rightarrow> limit_policy" where
  "flat_policy m = \<lparr>lp_pillar_max = m, lp_smells = CapTotal m\<rparr>"

text \<open>The \<open>retain\<close> of \<open>limit_smells_by_kind\<close>, which counts the kinds it has seen.\<close>

fun retain_per_kind :: "usize \<Rightarrow> (string \<rightharpoonup> usize) \<Rightarrow> smell_finding list \<Rightarrow> smell_finding list" where
  "retain_per_kind m seen [] = []"
| "retain_per_kind m seen (f # fs) =
     (let count = (case seen (smell_as_str (sm_kind f)) of None \<Rightarrow> 0 | Some c \<Rightarrow> c);
          rest = retain_per_kind m (seen(smell_as_str (sm_kind f) \<mapsto> Suc count)) fs
      in if count < m then f # rest else rest)"

definition limit_smells_by_kind :: "smell_finding list \<Rightarrow> usize \<Rightarrow> smell_finding list" where
  "limit_smells_by_kind ss m =
     sort_key (\<lambda>f. (smell_as_str (sm_kind f), sm_action f, Reverse (sm_metric f)))
       (retain_per_kind m Map.empty ss)"

definition report_limit :: "analysis_report \<Rightarrow> limit_policy \<Rightarrow> analysis_report" where
  "report_limit r p =
     (let r1 = (if lp_pillar_max p > 0 then
                  r\<lparr>cycles := take (lp_pillar_max p) (cycles r),
                    dead_code := take (lp_pillar_max p) (dead_code r),
                    boundaries := take (lp_pillar_max p) (boundaries r),
                    duplication := take (lp_pillar_max p) (duplication r)\<rparr>
                else r)
      in case lp_smells p of
           CapTotal m \<Rightarrow> if m = 0 then r1 else r1\<lparr>smells := take m (smells r1)\<rparr>
         | CapPerKind m \<Rightarrow>
             if m = 0 then r1 else r1\<lparr>smells := limit_smells_by_kind (smells r1) m\<rparr>)"

text \<open>\<open>noze::limit\<close>: the flat cap, where zero means no cap at all.\<close>

definition noze_limit :: "analysis_report \<Rightarrow> usize \<Rightarrow> analysis_report" where
  "noze_limit r m = (if m = 0 then r else report_limit r (flat_policy m))"

lemma retain_per_kind_filter:
  "filter (\<lambda>f. sm_kind f = k) (retain_per_kind m seen fs) =
     take (m - (case seen (smell_as_str k) of None \<Rightarrow> 0 | Some c \<Rightarrow> c))
       (filter (\<lambda>f. sm_kind f = k) fs)"
proof (induction fs arbitrary: seen)
  case Nil
  then show ?case by simp
next
  case (Cons f fs)
  show ?case
    by (cases "sm_kind f = k") (auto simp: Cons.IH Let_def take_Cons' split: option.splits)
qed

lemma retain_per_kind_subseq: "subseq (retain_per_kind m seen fs) fs"
  by (induction fs arbitrary: seen) (auto simp: Let_def)

lemma limit_smells_by_kind_filter:
  "filter (\<lambda>f. sm_kind f = k) (limit_smells_by_kind ss m) =
     sort_key (\<lambda>f. (sm_action f, Reverse (sm_metric f))) (take m (filter (\<lambda>f. sm_kind f = k) ss))"
proof -
  let ?top = "take m (filter (\<lambda>f. sm_kind f = k) ss)"
  have "filter (\<lambda>f. sm_kind f = k) (limit_smells_by_kind ss m) =
      sort_key (\<lambda>f. (smell_as_str (sm_kind f), sm_action f, Reverse (sm_metric f))) ?top"
    by (simp add: limit_smells_by_kind_def filter_sort_key retain_per_kind_filter)
  also have "\<dots> = sort_key (\<lambda>f. (sm_action f, Reverse (sm_metric f))) ?top"
  proof (rule sort_key_order_cong, intro ballI)
    fix a b
    assume "a \<in> set ?top" and "b \<in> set ?top"
    then have "sm_kind a = k" and "sm_kind b = k" by (auto dest!: in_set_takeD)
    then show "(smell_as_str (sm_kind a), sm_action a, Reverse (sm_metric a))
        \<le> (smell_as_str (sm_kind b), sm_action b, Reverse (sm_metric b)) \<longleftrightarrow>
      (sm_action a, Reverse (sm_metric a)) \<le> (sm_action b, Reverse (sm_metric b))"
      by simp
  qed
  finally show ?thesis .
qed

interpretation limit: report_pruner "\<lambda>r. report_limit r p"
proof
  fix r
  have per_kind: "mset (map sm_action (limit_smells_by_kind ss m)) \<subseteq># mset (map sm_action ss)" for ss m
    using mset_map_subseq [OF retain_per_kind_subseq, of sm_action m Map.empty ss]
    by (simp add: limit_smells_by_kind_def flip: image_mset_is_empty_iff)
  show "mset (map cy_action (cycles (report_limit r p))) \<subseteq># mset (map cy_action (cycles r))"
    and "mset (map dc_action (dead_code (report_limit r p))) \<subseteq># mset (map dc_action (dead_code r))"
    and "mset (map bv_action (boundaries (report_limit r p))) \<subseteq># mset (map bv_action (boundaries r))"
    and "mset (map cl_action (duplication (report_limit r p))) \<subseteq># mset (map cl_action (duplication r))"
    and "mset (map sm_action (smells (report_limit r p))) \<subseteq># mset (map sm_action (smells r))"
    using per_kind
    by (auto simp: report_limit_def Let_def mset_map_take_subset simp del: mset_map
        split: smell_cap.splits)
qed

section \<open>One-line summary\<close>

definition location_text :: "path \<Rightarrow> usize \<Rightarrow> string" where
  "location_text file l = path_display file @ '':'' @ nat_text l"

definition summary_items :: "analysis_report \<Rightarrow> (action_level \<times> string) list" where
  "summary_items r =
     map (\<lambda>f. (dc_action f,
         ''dead_code/'' @ symbol_kind_as_str (dc_kind f) @ '' '' @ dc_module f @ ''::'' @ dc_symbol f
         @ '' '' @ location_text (dc_file f) (dc_line f))) (dead_code r)
     @ map (\<lambda>f. (cy_action f, ''cycle '' @ join_with '' -> '' (cy_modules f))) (cycles r)
     @ map (\<lambda>f. (bv_action f,
         ''boundary '' @ bv_from_module f @ '' -> '' @ bv_to_module f @ '' ''
         @ location_text (bv_file f) (bv_line f))) (boundaries r)
     @ map (\<lambda>f. (cl_action f,
         ''duplication '' @ nat_text (cl_token_length f) @ '' token(s) at ''
         @ join_with '', '' (map (\<lambda>oc. location_text (oc_file oc) (oc_start_row oc)) (cl_occurrences f))))
         (duplication r)
     @ map (\<lambda>f. (sm_action f,
         ''smell/'' @ smell_as_str (sm_kind f) @ '' '' @ sm_symbol f @ '' ''
         @ location_text (sm_file f) (sm_line f))) (smells r)"

definition top_n_items :: "analysis_report \<Rightarrow> usize \<Rightarrow> (action_level \<times> string) list" where
  "top_n_items r m = take m (sort_key fst (summary_items r))"

definition top_n_summary :: "analysis_report \<Rightarrow> usize \<Rightarrow> string" where
  "top_n_summary r m = join_with ''; '' (map snd (top_n_items r m))"

lemma summary_items_actions: "mset (map fst (summary_items r)) = mset (actions r)"
  by (simp add: summary_items_def actions_def comp_def)

lemma summary_items_length: "length (summary_items r) = finding_count r"
  by (simp add: summary_items_def finding_count_def actions_def)

section \<open>Properties\<close>

text \<open>C9: Under a per-kind cap the smells of each kind are exactly the first \<open>m\<close> of that kind in
  ranked order, listed by action and descending metric, and the kinds come in name order.\<close>

theorem limit_per_kind_top:
  assumes "0 < m"
  shows "filter (\<lambda>f. sm_kind f = k) (smells (report_limit r \<lparr>lp_pillar_max = c, lp_smells = CapPerKind m\<rparr>)) =
      sort_key (\<lambda>f. (sm_action f, Reverse (sm_metric f))) (take m (filter (\<lambda>f. sm_kind f = k) (smells r)))
    \<and> sorted (map (smell_as_str \<circ> sm_kind)
        (smells (report_limit r \<lparr>lp_pillar_max = c, lp_smells = CapPerKind m\<rparr>)))"
proof -
  have "smells (report_limit r \<lparr>lp_pillar_max = c, lp_smells = CapPerKind m\<rparr>) =
      limit_smells_by_kind (smells r) m"
    using assms by (simp add: report_limit_def Let_def)
  moreover have "sorted (map (smell_as_str \<circ> sm_kind) (limit_smells_by_kind ss m))" for ss
    using sorted_sort_key [of "\<lambda>f. (smell_as_str (sm_kind f), sm_action f, Reverse (sm_metric f))"
        "retain_per_kind m Map.empty ss"]
    by (auto simp: limit_smells_by_kind_def sorted_map elim!: sorted_wrt_mono_rel [rotated])
  ultimately show ?thesis by (simp add: limit_smells_by_kind_filter)
qed

definition limited_sample :: analysis_report where
  "limited_sample = default_report\<lparr>smells :=
     [sample_smell LongFunction 9, sample_smell LongFunction 8, sample_smell DeepNesting 7]\<rparr>"

theorem limit_per_kind_top_witness:
  "filter (\<lambda>f. sm_kind f = LongFunction)
     (smells (report_limit limited_sample \<lparr>lp_pillar_max = 0, lp_smells = CapPerKind 1\<rparr>)) =
   [sample_smell LongFunction 9]"
  using limit_per_kind_top [of 1 LongFunction limited_sample 0]
  by (simp add: limited_sample_def sample_smell_def)

text \<open>C10: The summary lists every finding once when it has room, and whatever it leaves out is no
  more urgent than anything it shows.\<close>

theorem top_n_summary_urgent_first:
  "length (top_n_items r m) = min m (finding_count r)
    \<and> mset (map fst (top_n_items r (finding_count r))) = mset (actions r)
    \<and> list_all (\<lambda>shown. list_all (\<lambda>hidden. fst shown \<le> fst hidden)
         (drop m (sort_key fst (summary_items r)))) (top_n_items r m)"
proof -
  have "mset (map fst (top_n_items r (finding_count r))) = mset (actions r)"
    by (simp add: top_n_items_def flip: summary_items_length summary_items_actions)
  moreover have "fst a \<le> fst b"
    if "a \<in> set (take m (sort_key fst (summary_items r)))"
      and "b \<in> set (drop m (sort_key fst (summary_items r)))" for a b
  proof -
    have "sorted (map fst (take m (sort_key fst (summary_items r)))
        @ map fst (drop m (sort_key fst (summary_items r))))"
      by (simp flip: map_append)
    with that show ?thesis by (auto simp: sorted_append simp del: take_map drop_map)
  qed
  ultimately show ?thesis
    by (auto simp: top_n_items_def list_all_iff min.commute simp flip: summary_items_length)
qed

end
