(* ===== verification/Spine.thy ===== *)
theory Spine
  imports Report
begin

text \<open>
  The language-neutral projection every analyzer reads: \<open>src/spine/ir\<close> (what a walker of one
  file produces) and \<open>ParsedFile\<close> of \<open>src/spine/parser/mod.rs\<close>. A \<open>HashMap\<close> is a
  finite map, a \<open>HashSet\<close> a set. \<open>Rare\<close> is the boxed collection that stays unallocated
  while it is empty; it is read through \<open>rare_deref\<close>, so the fields that hold one carry the
  collection itself. A walker's facts that no modelled pillar reads are left out of the records.
\<close>

section \<open>Languages and tokens\<close>

datatype language = Python | JavaScript | TypeScript | Rust

definition language_all :: "language list" where
  "language_all = [Python, JavaScript, TypeScript, Rust]"

fun language_key :: "language \<Rightarrow> string" where
  "language_key Python = ''python''"
| "language_key JavaScript = ''javascript''"
| "language_key TypeScript = ''typescript''"
| "language_key Rust = ''rust''"

lemma language_key_inject [simp]: "language_key a = language_key b \<longleftrightarrow> a = b"
  by (cases a; cases b) auto

fun language_rank :: "language \<Rightarrow> nat" where
  "language_rank Python = 0"
| "language_rank JavaScript = 1"
| "language_rank TypeScript = 2"
| "language_rank Rust = 3"

lemma language_rank_inject [simp]: "language_rank a = language_rank b \<longleftrightarrow> a = b"
  by (cases a; cases b) auto

instantiation language :: linorder
begin

definition less_eq_language :: "language \<Rightarrow> language \<Rightarrow> bool" where
  "less_eq_language a b \<longleftrightarrow> language_rank a \<le> language_rank b"

definition less_language :: "language \<Rightarrow> language \<Rightarrow> bool" where
  "less_language a b \<longleftrightarrow> language_rank a < language_rank b"

instance
  by standard (auto simp: less_eq_language_def less_language_def dest: antisym)

end

datatype structural_token = FunctionDef | ClassDef | IfStatement | ForStatement | WhileStatement
  | TryStatement | WithStatement | Assign | BinaryOp | Call | Return | GenericIdentifier
  | GenericLiteral

record token_span =
  sp_file_id :: u32
  sp_start_row :: u32
  sp_end_row :: u32
  sp_start_byte :: u32
  sp_end_byte :: u32

section \<open>Rarely filled collections\<close>

text \<open>\<open>Rare<T>\<close> over a collection type that is seen as a list.\<close>

datatype 'a rare = Rare "'a list option"

definition rare_default :: "'a rare" where
  "rare_default = Rare None"

fun rare_deref :: "'a rare \<Rightarrow> 'a list" where
  "rare_deref (Rare None) = []"
| "rare_deref (Rare (Some items)) = items"

text \<open>\<open>deref_mut\<close> allocates on the first write; \<open>f\<close> is what the caller does with the
  reference.\<close>

definition rare_update :: "('a list \<Rightarrow> 'a list) \<Rightarrow> 'a rare \<Rightarrow> 'a rare" where
  "rare_update f r = Rare (Some (f (rare_deref r)))"

fun rare_compact :: "'a rare \<Rightarrow> 'a rare" where
  "rare_compact (Rare (Some items)) = (if items \<noteq> [] then Rare (Some items) else Rare None)"
| "rare_compact (Rare None) = Rare None"

lemma rare_deref_default [simp]: "rare_deref rare_default = []"
  by (simp add: rare_default_def)

lemma rare_deref_update [simp]: "rare_deref (rare_update f r) = f (rare_deref r)"
  by (simp add: rare_update_def)

lemma rare_deref_compact [simp]: "rare_deref (rare_compact r) = rare_deref r"
  by (cases r rule: rare_compact.cases) auto

section \<open>Name-keyed counters\<close>

definition ir_bump :: "(string \<rightharpoonup> usize) \<Rightarrow> string \<Rightarrow> (string \<rightharpoonup> usize)" where
  "ir_bump m key = (case m key of Some c \<Rightarrow> m(key \<mapsto> c + 1) | None \<Rightarrow> m(key \<mapsto> 1))"

definition record_attr ::
  "(string \<rightharpoonup> string set) \<Rightarrow> string \<Rightarrow> string \<Rightarrow> (string \<rightharpoonup> string set)" where
  "record_attr m base attr = (case m base of
       Some attrs \<Rightarrow> (if attr \<notin> attrs then m(base \<mapsto> insert attr attrs) else m)
     | None \<Rightarrow> m(base \<mapsto> {attr}))"

section \<open>Imports\<close>

datatype import_phase = Runtime | TypeOnly

record import_context =
  im_source_module :: string
  im_target_module :: string
  im_imported_symbols :: "string list"
  im_bindings :: "string list"
  im_binding_phases :: "import_phase list"
  im_line :: usize
  im_column :: usize
  im_phase :: import_phase
  im_is_inline :: bool
  im_is_module_decl :: bool
  im_is_reexport :: bool
  im_enclosing_scope :: "string option"

section \<open>Functions and classes\<close>

datatype visibility = Unknown | Private | Exported
datatype callback_position = Standalone | Argument

text \<open>The fields of \<open>FunctionUnit\<close> that the modelled pillars read.\<close>

record function_unit =
  fu_name :: string
  fu_start_line :: usize
  fu_end_line :: usize
  fu_param_names :: "string list"
  fu_max_nesting :: usize
  fu_return_count :: usize
  fu_guard_returns :: usize
  fu_branch_count :: usize
  fu_cognitive :: usize
  fu_comment_lines :: usize
  fu_is_method :: bool
  fu_is_nested :: bool
  fu_parent :: string
  fu_callback_position :: callback_position
  fu_visibility :: visibility
  fu_parent_is_test_callback :: bool
  fu_captures_parent :: bool
  fu_is_constructor :: bool
  fu_self_writes :: usize
  fu_is_accessor :: bool

record class_property =
  cp_name :: string
  cp_type_name :: string
  cp_initializer_type :: "string option"
  cp_line :: usize

record class_unit =
  cu_name :: string
  cu_start_line :: usize
  cu_end_line :: usize
  cu_bases :: "string list"
  cu_implements :: "string list"
  cu_is_abstract :: bool
  cu_methods :: "string list"
  cu_method_attr_use :: "string \<rightharpoonup> string set"
  cu_method_calls :: "string \<rightharpoonup> string set"
  cu_overrides_to_stub :: "string list"
  cu_properties :: "class_property list"

text \<open>Annotation-driven type information, keyed by functions and names.\<close>

record function_key =
  fk_name :: string
  fk_start_line :: usize

record type_hints =
  th_param_types :: "function_key \<rightharpoonup> (string \<rightharpoonup> string)"
  th_var_types :: "string \<rightharpoonup> string"
  th_attr_types :: "string \<rightharpoonup> string"
  th_return_types :: "function_key \<rightharpoonup> string"

section \<open>Files\<close>

record syntax_facts =
  sy_tokens :: "structural_token list"
  sy_spans :: "token_span list"
  sy_lexemes :: "u64 list"

record symbol_facts =
  sf_imports :: "import_context list"
  sf_declared :: "string list"
  sf_declared_kinds :: "string \<rightharpoonup> symbol_kind"
  sf_declared_lines :: "string \<rightharpoonup> usize"
  sf_methods :: "(string \<times> usize) list"
  sf_dunder_all :: "string list option"
  sf_decorators :: "string \<rightharpoonup> string list"
  sf_default_export :: "string option"

record usage_facts =
  us_name_counts :: "string \<rightharpoonup> usize"
  us_attribute_accesses :: "string \<rightharpoonup> string set"
  us_attribute_path_accesses :: "string \<rightharpoonup> string set"
  us_call_result_attribute_accesses :: "string \<rightharpoonup> string set"
  us_string_literals :: "string set"
  us_chained_attribute_names :: "string set"

record walked =
  wk_syntax :: syntax_facts
  wk_symbols :: symbol_facts
  wk_usage :: usage_facts
  wk_functions :: "function_unit list"
  wk_classes :: "class_unit list"
  wk_type_hints :: type_hints

record parsed_file =
  pf_path :: path
  pf_language :: language
  pf_lines :: u32
  pf_walked :: walked
  pf_is_generated :: bool
  pf_runs_as_program :: bool

abbreviation pf_lexemes :: "parsed_file \<Rightarrow> u64 list" where
  "pf_lexemes f \<equiv> sy_lexemes (wk_syntax (pf_walked f))"

abbreviation pf_spans :: "parsed_file \<Rightarrow> token_span list" where
  "pf_spans f \<equiv> sy_spans (wk_syntax (pf_walked f))"

abbreviation pf_tokens :: "parsed_file \<Rightarrow> structural_token list" where
  "pf_tokens f \<equiv> sy_tokens (wk_syntax (pf_walked f))"

text \<open>\<open>top_level_functions\<close> of \<open>src/noze/duplication/mod.rs\<close>.\<close>

definition top_level_functions :: "parsed_file \<Rightarrow> function_unit list" where
  "top_level_functions f = filter (\<lambda>func. \<not> fu_is_nested func) (wk_functions (pf_walked f))"

section \<open>Empty values\<close>

definition empty_syntax :: syntax_facts where
  "empty_syntax = \<lparr>sy_tokens = [], sy_spans = [], sy_lexemes = []\<rparr>"

definition empty_walked :: walked where
  "empty_walked = \<lparr>wk_syntax = empty_syntax,
     wk_symbols = \<lparr>sf_imports = [], sf_declared = [], sf_declared_kinds = Map.empty,
       sf_declared_lines = Map.empty, sf_methods = [], sf_dunder_all = None,
       sf_decorators = Map.empty, sf_default_export = None\<rparr>,
     wk_usage = \<lparr>us_name_counts = Map.empty, us_attribute_accesses = Map.empty,
       us_attribute_path_accesses = Map.empty, us_call_result_attribute_accesses = Map.empty,
       us_string_literals = {}, us_chained_attribute_names = {}\<rparr>,
     wk_functions = [], wk_classes = [],
     wk_type_hints = \<lparr>th_param_types = Map.empty, th_var_types = Map.empty, th_attr_types = Map.empty,
       th_return_types = Map.empty\<rparr>\<rparr>"

end
