(* ===== verification/Search.thy ===== *)
theory Search
  imports Prelude
begin

text \<open>
  Graph search shared by the import-graph components. \<open>search_space\<close> is the interface a client
  offers: a successor function with a finite range and finitely many roots. The library proves
  once what a worklist has to maintain to compute the reachable nodes (depth first) or the
  shortest distances (breadth first); the clients show that their loops maintain it.
\<close>

section \<open>One breadth-first expansion\<close>

text \<open>The inner loop of a breadth-first search: unseen successors get the next distance and join
  the queue in order.\<close>

fun bfs_expand :: "nat \<Rightarrow> 'n list \<Rightarrow> ('n \<rightharpoonup> nat) \<times> 'n list \<Rightarrow> ('n \<rightharpoonup> nat) \<times> 'n list" where
  "bfs_expand k [] st = st"
| "bfs_expand k (n # ns) (d, q) =
     bfs_expand k ns (if d n \<noteq> None then (d, q) else (d(n \<mapsto> k), q @ [n]))"

lemma bfs_expand_result:
  "bfs_expand k ns (d, q) = (d', q') \<Longrightarrow>
     (\<forall>n. d' n = (if d n = None \<and> n \<in> set ns then Some k else d n))
     \<and> (\<exists>new. q' = q @ new \<and> set new = {n \<in> set ns. d n = None} \<and> distinct new)"
proof (induction ns arbitrary: d q)
  case (Cons n ns)
  show ?case
  proof (cases "d n")
    case None
    have rec: "bfs_expand k ns (d(n \<mapsto> k), q @ [n]) = (d', q')" using Cons.prems None by simp
    from Cons.IH [OF rec] obtain new where new:
      "\<forall>m. d' m = (if (d(n \<mapsto> k)) m = None \<and> m \<in> set ns then Some k else (d(n \<mapsto> k)) m)"
      "q' = (q @ [n]) @ new" "set new = {m \<in> set ns. (d(n \<mapsto> k)) m = None}" "distinct new"
      by blast
    show ?thesis
    proof (intro conjI exI [of _ "n # new"])
      show "\<forall>m. d' m = (if d m = None \<and> m \<in> set (n # ns) then Some k else d m)"
        using new(1) None by auto
      show "q' = q @ n # new" using new(2) by simp
      show "set (n # new) = {m \<in> set (n # ns). d m = None}" using new(3) None by (auto split: if_splits)
      show "distinct (n # new)" using new(3,4) by simp
    qed
  next
    case (Some j)
    then show ?thesis using Cons.IH [of d q] Cons.prems by auto
  qed
qed auto

lemma bfs_expand_new:
  assumes "bfs_expand k ns (d, q) = (d', q')"
  obtains new where "\<And>n. d' n = (if d n = None \<and> n \<in> set ns then Some k else d n)"
    and "q' = q @ new" and "set new = {n \<in> set ns. d n = None}" and "distinct new"
  using bfs_expand_result [OF assms] by blast

lemma sorted_map_last: "sorted (map f q) \<Longrightarrow> n \<in> set q \<Longrightarrow> f n \<le> f (last q)"
  by (induction q) (auto split: if_splits)

text \<open>The least number of steps of \<open>E\<close> from a node of \<open>R\<close>.\<close>

definition least_distance :: "('n \<times> 'n) set \<Rightarrow> 'n set \<Rightarrow> 'n \<Rightarrow> nat \<Rightarrow> bool" where
  "least_distance E R n k \<longleftrightarrow> (\<exists>r \<in> R. (r, n) \<in> E ^^ k) \<and> (\<forall>j < k. \<forall>r \<in> R. (r, n) \<notin> E ^^ j)"

lemma least_distance_unique: "least_distance E R n k \<Longrightarrow> least_distance E R n j \<Longrightarrow> j = k"
  unfolding least_distance_def by (meson linorder_neqE_nat)

section \<open>Search spaces\<close>

locale search_space =
  fixes succ :: "'n \<Rightarrow> 'n set" and roots :: "'n set"
  assumes finite_range: "finite (\<Union>n. succ n)" and finite_roots: "finite roots"
begin

definition edge :: "('n \<times> 'n) set" where
  "edge = {(n, m). m \<in> succ n}"

definition reached :: "'n set" where
  "reached = edge\<^sup>* `` roots"

definition at_distance :: "nat \<Rightarrow> 'n \<Rightarrow> bool" where
  "at_distance k n \<longleftrightarrow> (\<exists>r \<in> roots. (r, n) \<in> edge ^^ k)"

definition shortest :: "nat \<Rightarrow> 'n \<Rightarrow> bool" where
  "shortest k n \<longleftrightarrow> at_distance k n \<and> (\<forall>j. at_distance j n \<longrightarrow> k \<le> j)"

lemma shortest_least: "shortest k n \<longleftrightarrow> least_distance edge roots n k"
  unfolding shortest_def at_distance_def least_distance_def by (meson linorder_not_less)

lemma finite_reached: "finite reached"
proof -
  have "reached \<subseteq> roots \<union> (\<Union>n. succ n)"
    unfolding reached_def by (auto simp: edge_def elim: rtranclE)
  then show ?thesis using finite_range finite_roots by (auto intro: finite_subset)
qed

lemma at_distance_0 [simp]: "at_distance 0 n \<longleftrightarrow> n \<in> roots"
  by (auto simp: at_distance_def)

lemma at_distance_Suc: "at_distance (Suc k) m \<longleftrightarrow> (\<exists>n. at_distance k n \<and> m \<in> succ n)"
  by (auto simp: at_distance_def edge_def)

lemma reached_iff: "n \<in> reached \<longleftrightarrow> (\<exists>k. at_distance k n)"
  by (auto simp: reached_def at_distance_def rtrancl_is_UN_relpow)

lemma reached_roots: "roots \<subseteq> reached"
  by (auto simp: reached_def)

lemma reached_step: "n \<in> reached \<Longrightarrow> m \<in> succ n \<Longrightarrow> m \<in> reached"
  unfolding reached_iff using at_distance_Suc by blast

text \<open>Depth first, or any order: a set between the roots and the reachable nodes that is closed
  under successors is the set of reachable nodes.\<close>

lemma closed_is_reached:
  assumes "roots \<subseteq> S" and "S \<subseteq> reached" and "\<forall>n \<in> S. succ n \<subseteq> S"
  shows "S = reached"
proof -
  have "n \<in> S" if "at_distance k n" for k n
    using that assms(1,3)
  proof (induction k arbitrary: n)
    case (Suc k)
    then show ?case unfolding at_distance_Suc by blast
  qed auto
  then show ?thesis using assms(2) reached_iff by blast
qed

text \<open>Breadth first: the queue is ordered by distance, holds at most two layers, and every
  visited node that left it has its successors visited in time.\<close>

definition layered :: "('n \<rightharpoonup> nat) \<Rightarrow> 'n list \<Rightarrow> bool" where
  "layered d q \<longleftrightarrow> sorted (map (the \<circ> d) q) \<and> set q \<subseteq> dom d
     \<and> (q \<noteq> [] \<longrightarrow> the (d (last q)) \<le> Suc (the (d (hd q))))
     \<and> (\<forall>n k. d n = Some k \<and> q \<noteq> [] \<and> n \<notin> set q \<longrightarrow> k \<le> the (d (hd q)))"

definition bfs_inv :: "('n \<rightharpoonup> nat) \<Rightarrow> 'n list \<Rightarrow> bool" where
  "bfs_inv d q \<longleftrightarrow> (\<forall>r \<in> roots. d r = Some 0) \<and> (\<forall>n k. d n = Some k \<longrightarrow> at_distance k n)
     \<and> (\<forall>n k. d n = Some k \<and> n \<notin> set q \<longrightarrow> (\<forall>m \<in> succ n. \<exists>j \<le> Suc k. d m = Some j))
     \<and> layered d q \<and> distinct q"

lemma bfs_invD:
  assumes "bfs_inv d q"
  shows "r \<in> roots \<Longrightarrow> d r = Some 0" and "d n = Some k \<Longrightarrow> at_distance k n"
    and "d n = Some k \<Longrightarrow> n \<notin> set q \<Longrightarrow> m \<in> succ n \<Longrightarrow> \<exists>j \<le> Suc k. d m = Some j"
    and "layered d q" and "distinct q"
  using assms by (auto simp: bfs_inv_def)

text \<open>What is closer than the front of the queue is already visited at its distance or below.\<close>

lemma bfs_closer:
  assumes inv: "bfs_inv d q" and "at_distance j m" and "q = [] \<or> j \<le> the (d (hd q))"
  shows "\<exists>i \<le> j. d m = Some i"
  using assms(2,3)
proof (induction j arbitrary: m)
  case 0
  then show ?case using bfs_invD(1) [OF inv] by simp
next
  case (Suc j)
  then obtain n where n: "at_distance j n" "m \<in> succ n" by (auto simp: at_distance_Suc)
  then obtain i where i: "i \<le> j" "d n = Some i" using Suc.IH [of n] Suc.prems(2) by auto
  have "n \<notin> set q"
  proof
    assume "n \<in> set q"
    then obtain x xs where q: "q = x # xs" by (cases q) auto
    have "sorted (map (the \<circ> d) q)" using bfs_invD(4) [OF inv] by (simp add: layered_def)
    then have "the (d x) \<le> the (d n)" using \<open>n \<in> set q\<close> by (auto simp: q)
    then show False using i Suc.prems(2) q by simp
  qed
  from bfs_invD(3) [OF inv i(2) this n(2)] show ?case using i(1) by (meson le_trans Suc_le_mono)
qed

lemma bfs_shortest:
  assumes inv: "bfs_inv d q" and "d n = Some k"
  shows "shortest k n"
proof -
  have "k \<le> j" if "at_distance j n" for j
  proof (rule ccontr)
    assume "\<not> k \<le> j"
    show False
    proof (cases "q = [] \<or> j \<le> the (d (hd q))")
      case True
      then show False using bfs_closer [OF inv that] assms(2) \<open>\<not> k \<le> j\<close> by auto
    next
      case False
      then obtain x xs where q: "q = x # xs" by (cases q) auto
      have lay: "layered d q" using bfs_invD(4) [OF inv] .
      have "k \<le> Suc (the (d (hd q)))"
      proof (cases "n \<in> set q")
        case True
        have "the (d n) \<le> the (d (last q))"
          using lay True sorted_map_last [of "the \<circ> d" q n] unfolding layered_def by simp
        then show ?thesis using lay assms(2) q unfolding layered_def by auto
      next
        case False
        then show ?thesis using lay assms(2) q unfolding layered_def by fastforce
      qed
      then show False using False \<open>\<not> k \<le> j\<close> by auto
    qed
  qed
  then show ?thesis using bfs_invD(2) [OF inv assms(2)] by (simp add: shortest_def)
qed

lemma bfs_init:
  assumes "distinct q" and "set q = roots"
  shows "bfs_inv (map_of (map (\<lambda>n. (n, 0)) q)) q"
proof -
  have m: "map_of (map (\<lambda>n. (n, 0::nat)) q) n = (if n \<in> set q then Some 0 else None)" for n
    by (induction q) auto
  have "map (the \<circ> map_of (map (\<lambda>n. (n, 0::nat)) q)) q = map (\<lambda>_. 0) q"
    by (rule map_cong) (simp_all add: m)
  moreover have "sorted (map (\<lambda>_. 0::nat) xs)" for xs :: "'n list" by (induction xs) auto
  ultimately have "sorted (map (the \<circ> map_of (map (\<lambda>n. (n, 0::nat)) q)) q)" by (simp only:)
  then show ?thesis
    using assms by (auto simp: bfs_inv_def layered_def m dom_def split: if_splits)
qed

lemma layered_bound:
  assumes "layered d q" and "q \<noteq> []" and "d n = Some j"
  shows "j \<le> Suc (the (d (hd q)))"
proof (cases "n \<in> set q")
  case True
  then have "the (d n) \<le> the (d (last q))"
    using assms(1) sorted_map_last [of "the \<circ> d" q n] unfolding layered_def by simp
  then show ?thesis using assms unfolding layered_def by auto
next
  case False
  then show ?thesis using assms unfolding layered_def by fastforce
qed

lemma bfs_grow:
  assumes inv: "bfs_inv d (n # q)" and k: "d n = Some k"
    and d': "\<And>m. d' m = (if d m = None \<and> m \<in> succ n then Some (Suc k) else d m)"
    and q': "q' = q @ new" and new: "set new = {m \<in> succ n. d m = None}" "distinct new"
  shows "bfs_inv d' q'"
proof -
  have lay: "layered d (n # q)" and dist: "distinct (n # q)" using bfs_invD(4,5) [OF inv] by auto
  have bound: "j \<le> Suc k" if "d m = Some j" for m j using layered_bound [OF lay _ that] k by simp
  have old: "\<And>m j. d m = Some j \<Longrightarrow> d' m = Some j" by (simp add: d')
  have q: "set q \<subseteq> dom d" "\<And>m. m \<in> set q \<Longrightarrow> k \<le> the (d m)" "sorted (map (the \<circ> d) q)"
    using lay k by (auto simp: layered_def)
  have new': "\<And>m. m \<in> set new \<Longrightarrow> d' m = Some (Suc k)" using new(1) by (auto simp: d')
  have vq: "k \<le> the (d' m) \<and> the (d' m) \<le> Suc k" if "m \<in> set q'" for m
    using that q(1,2) new' bound old by (fastforce simp: q')
  have mapq: "map (the \<circ> d') q = map (the \<circ> d) q" using q(1) by (auto simp: d')
  have sorted: "sorted (map (the \<circ> d') q')"
  proof -
    have "map (the \<circ> d') new = map (\<lambda>_. Suc k) new" using new' by simp
    moreover have "sorted (map (\<lambda>_. Suc k) xs)" for xs :: "'n list" by (induction xs) auto
    ultimately have sn: "sorted (map (the \<circ> d') new)" by (simp only:)
    have "\<forall>x \<in> set (map (the \<circ> d) q). \<forall>y \<in> set (map (the \<circ> d') new). x \<le> y"
      using q(1) bound new' by fastforce
    then show ?thesis unfolding q' map_append mapq sorted_append using q(3) sn by blast
  qed
  show ?thesis
    unfolding bfs_inv_def
  proof (intro conjI allI impI ballI)
    show "d' r = Some 0" if "r \<in> roots" for r using bfs_invD(1) [OF inv that] by (simp add: d')
    show "at_distance j m" if m: "d' m = Some j" for m j
    proof (cases "d m = None \<and> m \<in> succ n")
      case True
      then show ?thesis using m bfs_invD(2) [OF inv k] at_distance_Suc by (auto simp: d')
    next
      case False
      then have "d m = Some j" using m by (simp add: d' split: if_splits)
      then show ?thesis by (rule bfs_invD(2) [OF inv])
    qed
    show "\<exists>j \<le> Suc i. d' x = Some j" if "d' m = Some i \<and> m \<notin> set q'" "x \<in> succ m" for m i x
    proof (cases "m = n")
      case True
      then show ?thesis using that k bound [of x] by (cases "d x") (auto simp: d' split: if_splits)
    next
      case False
      have "d m = Some i" using that(1) new(1) by (auto simp: d' q' split: if_splits)
      then show ?thesis using bfs_invD(3) [OF inv, of m i x] False that old by (auto simp: q')
    qed
    show "distinct q'" using dist new q(1) by (auto simp: q')
    show "layered d' q'"
      unfolding layered_def
    proof (intro conjI allI impI)
      show "sorted (map (the \<circ> d') q')" by (rule sorted)
      show "set q' \<subseteq> dom d'" using q(1) old new' by (auto simp: q')
      show "the (d' (last q')) \<le> Suc (the (d' (hd q')))" if "q' \<noteq> []"
        using vq [of "last q'"] vq [of "hd q'"] that by auto
      show "j \<le> the (d' (hd q'))" if "d' m = Some j \<and> q' \<noteq> [] \<and> m \<notin> set q'" for m j
      proof -
        have "d m = Some j" using that new(1) by (auto simp: d' q' split: if_splits)
        moreover have "m = n \<or> m \<notin> set (n # q)" using that by (auto simp: q')
        ultimately have "j \<le> k" using lay k unfolding layered_def by auto
        then show ?thesis using vq [of "hd q'"] that by auto
      qed
    qed
  qed
qed

lemma bfs_step:
  assumes inv: "bfs_inv d (n # q)" and k: "d n = Some k" and ns: "set ns = succ n"
    and ex: "bfs_expand (Suc k) ns (d, q) = (d', q')"
  shows "bfs_inv d' q'"
proof -
  obtain new where "\<And>m. d' m = (if d m = None \<and> m \<in> succ n then Some (Suc k) else d m)"
      and "q' = q @ new" and "set new = {m \<in> succ n. d m = None}" "distinct new"
    using ex [THEN bfs_expand_new] unfolding ns by blast
  then show ?thesis by (rule bfs_grow [OF inv k])
qed

lemma bfs_done:
  assumes "bfs_inv d []"
  shows "d n = Some k \<longleftrightarrow> shortest k n"
proof
  show "shortest k n" if "d n = Some k" using bfs_shortest [OF assms that] .
  assume k: "shortest k n"
  then obtain i where "i \<le> k" "d n = Some i"
    using bfs_closer [OF assms, of k n] by (auto simp: shortest_def)
  moreover from this have "k \<le> i" using k bfs_invD(2) [OF assms] by (simp add: shortest_def)
  ultimately show "d n = Some k" by simp
qed

end

end
