(* ===== verification/Graph.thy ===== *)
theory Graph
  imports Spine Search
begin

text \<open>
  The import graph, \<open>src/spine/graph/mod.rs\<close>. A petgraph \<open>DiGraph\<close> is its node and edge
  arrays, whose indices are \<open>NodeIndex\<close> and \<open>EdgeIndex\<close>. The order in which
  \<open>edges_directed\<close> walks the edges of a node is petgraph's own: it is the parameter
  \<open>od\<close>, and \<open>petgraph_ok\<close> states its documentation, that the edges of the node in that
  direction are walked, each once.
\<close>

record module_node =
  mn_file_path :: path
  mn_module_name :: string
  mn_language :: language
  mn_source_index :: "usize option"
  mn_is_external :: bool

type_synonym node_index = nat
type_synonym edge_index = nat

record codebase_graph =
  cg_nodes :: "module_node list"
  cg_edges :: "(node_index \<times> node_index \<times> import_context) list"
  cg_name_to_index :: "string \<rightharpoonup> node_index"

definition empty_graph :: codebase_graph where
  "empty_graph = \<lparr>cg_nodes = [], cg_edges = [], cg_name_to_index = Map.empty\<rparr>"

datatype direction = Outgoing | Incoming

type_synonym edge_order = "direction \<Rightarrow> node_index \<Rightarrow> edge_index list"

text \<open>An \<open>EdgeReference\<close>: id, source, target, weight.\<close>

type_synonym edge_reference = "edge_index \<times> node_index \<times> node_index \<times> import_context"

definition edge_ref :: "codebase_graph \<Rightarrow> edge_index \<Rightarrow> edge_reference option" where
  "edge_ref g e = (if e < length (cg_edges g) then Some (e, cg_edges g ! e) else None)"

definition edges_directed :: "codebase_graph \<Rightarrow> edge_order \<Rightarrow> direction \<Rightarrow> node_index \<Rightarrow> edge_reference list" where
  "edges_directed g od dir n = List.map_filter (edge_ref g) (od dir n)"

definition edge_endpoints :: "codebase_graph \<Rightarrow> edge_index \<Rightarrow> (node_index \<times> node_index) option" where
  "edge_endpoints g e = map_option (\<lambda>(i, s, t, w). (s, t)) (edge_ref g e)"

fun endpoint_in :: "direction \<Rightarrow> node_index \<times> node_index \<times> import_context \<Rightarrow> node_index" where
  "endpoint_in Outgoing (s, t, w) = s"
| "endpoint_in Incoming (s, t, w) = t"

definition petgraph_ok :: "codebase_graph \<Rightarrow> edge_order \<Rightarrow> bool" where
  "petgraph_ok g od \<longleftrightarrow> (\<forall>dir n. distinct (od dir n)
     \<and> set (od dir n) = {e. e < length (cg_edges g) \<and> endpoint_in dir (cg_edges g ! e) = n})"

text \<open>Edges by ascending id, an order that petgraph could have.\<close>

definition ascending_order :: "codebase_graph \<Rightarrow> edge_order" where
  "ascending_order g dir n =
     filter (\<lambda>e. endpoint_in dir (cg_edges g ! e) = n) [0..<length (cg_edges g)]"

lemma ascending_order_ok [simp]: "petgraph_ok g (ascending_order g)"
  by (auto simp: petgraph_ok_def ascending_order_def)

lemma map_filter_mem: "y \<in> set (List.map_filter f xs) \<longleftrightarrow> (\<exists>x \<in> set xs. f x = Some y)"
  by (induction xs) (auto simp: List.map_filter_simps split: option.splits)

lemma edges_directed_sub:
  "(e, s, t, w) \<in> set (edges_directed g od dir n) \<Longrightarrow> e < length (cg_edges g) \<and> cg_edges g ! e = (s, t, w)"
  by (auto simp: edges_directed_def map_filter_mem edge_ref_def split: if_splits)

lemma edges_directed_mem:
  assumes "petgraph_ok g od"
  shows "(e, s, t, w) \<in> set (edges_directed g od dir n) \<longleftrightarrow>
    e < length (cg_edges g) \<and> cg_edges g ! e = (s, t, w) \<and> endpoint_in dir (s, t, w) = n"
  using assms by (auto simp: edges_directed_def map_filter_mem edge_ref_def petgraph_ok_def)

lemma edge_endpoints_iff:
  "edge_endpoints g e = Some (s, t) \<longleftrightarrow> e < length (cg_edges g) \<and> (\<exists>w. cg_edges g ! e = (s, t, w))"
  by (auto simp: edge_endpoints_def edge_ref_def split: prod.splits)

text \<open>All ends of edges, the finite range of every search.\<close>

definition edge_ends :: "codebase_graph \<Rightarrow> node_index set" where
  "edge_ends g = (\<lambda>(s, t, w). s) ` set (cg_edges g) \<union> (\<lambda>(s, t, w). t) ` set (cg_edges g)"

lemma edge_ends_finite [simp]: "finite (edge_ends g)"
  by (simp add: edge_ends_def)

lemma edges_directed_ends:
  assumes "(e, s, t, w) \<in> set (edges_directed g od dir n)"
  shows "s \<in> edge_ends g \<and> t \<in> edge_ends g"
proof -
  have "(s, t, w) \<in> set (cg_edges g)" using edges_directed_sub [OF assms] nth_mem by metis
  then show ?thesis unfolding edge_ends_def by (force simp: image_iff)
qed

text \<open>A well-formed graph: ends and names point at nodes.\<close>

definition graph_wf :: "codebase_graph \<Rightarrow> bool" where
  "graph_wf g \<longleftrightarrow> edge_ends g \<subseteq> {..<length (cg_nodes g)}
     \<and> (\<forall>name i. cg_name_to_index g name = Some i \<longrightarrow> i < length (cg_nodes g) \<and> mn_module_name (cg_nodes g ! i) = name)
     \<and> (\<forall>i < length (cg_nodes g). cg_name_to_index g (mn_module_name (cg_nodes g ! i)) = Some i)"

text \<open>The modules of the scan, as opposed to synthetic external ones, and the file of a node.\<close>

definition internal_nodes :: "codebase_graph \<Rightarrow> node_index set" where
  "internal_nodes g = {n. n < length (cg_nodes g) \<and> \<not> mn_is_external (cg_nodes g ! n)}"

definition node_path :: "codebase_graph \<Rightarrow> node_index \<Rightarrow> path" where
  "node_path g n = mn_file_path (cg_nodes g ! n)"

text \<open>Sample graphs for the witnesses: module names, and edges as pairs of nodes.\<close>

definition sample_import :: import_context where
  "sample_import = \<lparr>im_source_module = [], im_target_module = [], im_imported_symbols = [], im_bindings = [],
     im_binding_phases = [], im_line = 1, im_column = 0, im_phase = Runtime, im_is_inline = False,
     im_is_module_decl = False, im_is_reexport = False, im_enclosing_scope = None\<rparr>"

definition sample_node :: "string \<Rightarrow> module_node" where
  "sample_node name = \<lparr>mn_file_path = [Normal name], mn_module_name = name, mn_language = Python,
     mn_source_index = Some 0, mn_is_external = False\<rparr>"

definition sample_graph :: "string list \<Rightarrow> (nat \<times> nat) list \<Rightarrow> codebase_graph" where
  "sample_graph names es = \<lparr>cg_nodes = map sample_node names,
     cg_edges = map (\<lambda>(s, t). (s, t, sample_import)) es, cg_name_to_index = map_of (zip names [0..<length names])\<rparr>"

lemma sample_graph_nodes [simp]:
  "cg_nodes (sample_graph names es) = map sample_node names"
  by (simp add: sample_graph_def)

lemma sample_graph_wf:
  assumes "distinct names" and "list_all (\<lambda>(s, t). s < length names \<and> t < length names) es"
  shows "graph_wf (sample_graph names es)"
proof -
  have "map_of (zip names [0..<length names]) name = Some i \<longleftrightarrow> i < length names \<and> names ! i = name" for name i
    using assms(1) by (subst map_of_eq_Some_iff) (auto simp: in_set_zip map_fst_zip_take)
  then show ?thesis
    using assms(2) by (auto simp: graph_wf_def sample_graph_def sample_node_def edge_ends_def list_all_iff)
qed

end
