(* ===== verification/Impact.thy ===== *)
theory Impact
  imports Graph
begin

text \<open>
  Change impact, \<open>src/spine/impact/mod.rs\<close>: the breadth-first search that gives every file
  a change reaches along imports, or that reaches the change, with its import distance. Indexing
  \<open>visited\<close> by a queued node may panic in the source; here it gives \<open>None\<close>, and the search is
  shown to never take that branch. Node indices come from edges and are in bounds by petgraph's
  own invariant.
\<close>

datatype direction_of_impact = Dependencies | Dependents

record impact_options =
  io_include_type_only :: bool

record reachability =
  rb_files :: "path \<rightharpoonup> usize"
  rb_unmapped :: "path set"

record affected_files =
  af_dependencies :: reachability
  af_dependents :: reachability

section \<open>The search\<close>

definition internal_nodes_by_path :: "codebase_graph \<Rightarrow> path \<rightharpoonup> node_index" where
  "internal_nodes_by_path g = map_of (rev (List.map_filter
     (\<lambda>n. let module = cg_nodes g ! n in
        if mn_is_external module then None else Some (mn_file_path module, n))
     [0..<length (cg_nodes g)]))"

text \<open>The loop over \<open>changed\<close>: what is not in the graph, the visited nodes and the queue.\<close>

fun impact_seed :: "(path \<rightharpoonup> node_index) \<Rightarrow> path list \<Rightarrow> path set \<times> (node_index \<rightharpoonup> usize) \<times> node_index list
    \<Rightarrow> path set \<times> (node_index \<rightharpoonup> usize) \<times> node_index list" where
  "impact_seed nodes [] st = st"
| "impact_seed nodes (path # changed) (unmapped, visited, queue) =
     impact_seed nodes changed
       (case nodes path of
          None \<Rightarrow> (insert path unmapped, visited, queue)
        | Some node \<Rightarrow> (unmapped, visited(node \<mapsto> 0), if visited node = None then queue @ [node] else queue))"

fun edge_direction :: "direction_of_impact \<Rightarrow> direction" where
  "edge_direction Dependencies = Outgoing"
| "edge_direction Dependents = Incoming"

fun next_node :: "direction_of_impact \<Rightarrow> edge_reference \<Rightarrow> node_index" where
  "next_node Dependencies (e, s, t, w) = t"
| "next_node Dependents (e, s, t, w) = s"

text \<open>The two \<open>continue\<close>s of the inner loop.\<close>

definition skipped_phase :: "impact_options \<Rightarrow> edge_reference \<Rightarrow> bool" where
  "skipped_phase options edge = (case edge of (e, s, t, w) \<Rightarrow> \<not> io_include_type_only options \<and> im_phase w = TypeOnly)"

fun impact_expand :: "codebase_graph \<Rightarrow> impact_options \<Rightarrow> direction_of_impact \<Rightarrow> usize \<Rightarrow> edge_reference list
    \<Rightarrow> (node_index \<rightharpoonup> usize) \<times> node_index list \<Rightarrow> (node_index \<rightharpoonup> usize) \<times> node_index list" where
  "impact_expand g options dir distance [] st = st"
| "impact_expand g options dir distance (edge # edges) (visited, queue) =
     impact_expand g options dir distance edges
       (if skipped_phase options edge then (visited, queue)
        else let next = next_node dir edge in
          if mn_is_external (cg_nodes g ! next) \<or> visited next \<noteq> None then (visited, queue)
          else (visited(next \<mapsto> distance + 1), queue @ [next]))"

text \<open>The targets the inner loop follows; the loop itself is one expansion over them.\<close>

definition impact_targets :: "codebase_graph \<Rightarrow> impact_options \<Rightarrow> direction_of_impact \<Rightarrow> edge_reference list \<Rightarrow> node_index list" where
  "impact_targets g options dir edges =
     filter (\<lambda>n. \<not> mn_is_external (cg_nodes g ! n)) (map (next_node dir) (filter (\<lambda>e. \<not> skipped_phase options e) edges))"

lemma impact_expand_bfs:
  "impact_expand g options dir k edges st = bfs_expand (Suc k) (impact_targets g options dir edges) st"
  by (induction edges arbitrary: st) (auto simp: impact_targets_def Let_def)

lemma impact_targets_ends:
  "m \<in> set (impact_targets g options dir (edges_directed g od d n)) \<Longrightarrow> m \<in> edge_ends g"
  by (cases dir) (auto simp: impact_targets_def dest: edges_directed_ends)

lemma impact_expand_measure:
  assumes "impact_expand g options dir k (edges_directed g od d n) (visited, queue) = (visited', queue')"
  shows "(card (edge_ends g - dom visited') < card (edge_ends g - dom visited))
    \<or> (card (edge_ends g - dom visited') = card (edge_ends g - dom visited) \<and> queue' = queue)"
proof -
  let ?ns = "impact_targets g options dir (edges_directed g od d n)"
  have "bfs_expand (Suc k) ?ns (visited, queue) = (visited', queue')" using assms by (simp add: impact_expand_bfs)
  then obtain new where v: "\<And>m. visited' m = (if visited m = None \<and> m \<in> set ?ns then Some (Suc k) else visited m)"
      and q: "queue' = queue @ new" and new: "set new = {m \<in> set ?ns. visited m = None}" "distinct new"
    by (rule bfs_expand_new) (rule that)
  show ?thesis
  proof (cases new)
    case Nil
    then have "dom visited' = dom visited" using v new by (auto simp: dom_def)
    then show ?thesis using q Nil by simp
  next
    case (Cons m ms)
    then have m: "m \<in> set ?ns" "visited m = None" using new by auto
    have "edge_ends g - dom visited' \<subset> edge_ends g - dom visited"
      using m impact_targets_ends [OF m(1)] v by (auto simp: dom_def split: if_splits)
    then show ?thesis by (simp add: psubset_card_mono)
  qed
qed

function impact_loop :: "codebase_graph \<Rightarrow> edge_order \<Rightarrow> impact_options \<Rightarrow> direction_of_impact
    \<Rightarrow> (node_index \<rightharpoonup> usize) \<Rightarrow> node_index list \<Rightarrow> (path \<rightharpoonup> usize) \<Rightarrow> (path \<rightharpoonup> usize) option" where
  "impact_loop g od options dir visited [] files = Some files"
| "impact_loop g od options dir visited (node # queue) files =
     (case visited node of
        None \<Rightarrow> None
      | Some distance \<Rightarrow>
          (case impact_expand g options dir distance (edges_directed g od (edge_direction dir) node) (visited, queue) of
             (visited', queue') \<Rightarrow>
               impact_loop g od options dir visited' queue'
                 (files(mn_file_path (cg_nodes g ! node) \<mapsto> distance))))"
  by pat_completeness auto
termination
proof (relation "measures [\<lambda>(g, od, options, dir, visited, queue, files). card (edge_ends g - dom visited),
                           \<lambda>(g, od, options, dir, visited, queue, files). length queue]", goal_cases)
  case 1
  then show ?case by simp
next
  case prems: (2 g od options dir visited node queue files distance visited' queue')
  from impact_expand_measure [OF prems(2) [symmetric]] show ?case by auto
qed

definition reachable_files :: "codebase_graph \<Rightarrow> edge_order \<Rightarrow> path list \<Rightarrow> direction_of_impact \<Rightarrow> impact_options \<Rightarrow> reachability option" where
  "reachable_files g od changed dir options =
     (case impact_seed (internal_nodes_by_path g) changed ({}, Map.empty, []) of
        (unmapped, visited, queue) \<Rightarrow>
          map_option (\<lambda>files. \<lparr>rb_files = files, rb_unmapped = unmapped\<rparr>)
            (impact_loop g od options dir visited queue Map.empty))"

definition affected_files_of :: "codebase_graph \<Rightarrow> edge_order \<Rightarrow> path list \<Rightarrow> impact_options \<Rightarrow> affected_files option" where
  "affected_files_of g od changed options =
     Option.bind (reachable_files g od changed Dependencies options) (\<lambda>dependencies.
     Option.bind (reachable_files g od changed Dependents options) (\<lambda>dependents.
       Some \<lparr>af_dependencies = dependencies, af_dependents = dependents\<rparr>))"

text \<open>\<open>all_files\<close> and \<open>unmapped\<close> of both directions; the fold of \<open>all_files\<close> visits every path
  once, so the result is given path by path.\<close>

definition all_files :: "affected_files \<Rightarrow> path \<rightharpoonup> usize" where
  "all_files af = (\<lambda>path.
     case rb_files (af_dependents af) path of
       None \<Rightarrow> rb_files (af_dependencies af) path
     | Some distance \<Rightarrow>
         (case rb_files (af_dependencies af) path of
            Some current \<Rightarrow> Some (min current distance)
          | None \<Rightarrow> Some distance))"

definition affected_unmapped :: "affected_files \<Rightarrow> path set" where
  "affected_unmapped af = rb_unmapped (af_dependencies af) \<union> rb_unmapped (af_dependents af)"

section \<open>What the search computes\<close>

text \<open>One import step in the direction of the search, between modules that are not external.\<close>

definition import_steps :: "codebase_graph \<Rightarrow> impact_options \<Rightarrow> direction_of_impact \<Rightarrow> (node_index \<times> node_index) set" where
  "import_steps g options dir = {(n, m). \<not> mn_is_external (cg_nodes g ! m)
     \<and> (\<exists>w. (case dir of Dependencies \<Rightarrow> (n, m, w) | Dependents \<Rightarrow> (m, n, w)) \<in> set (cg_edges g)
          \<and> (io_include_type_only options \<or> im_phase w \<noteq> TypeOnly))}"

definition changed_nodes :: "codebase_graph \<Rightarrow> path list \<Rightarrow> node_index set" where
  "changed_nodes g changed = {n \<in> internal_nodes g. node_path g n \<in> set changed}"

lemma internal_entries:
  "(p, n) \<in> set (rev (List.map_filter
     (\<lambda>n. let module = cg_nodes g ! n in
        if mn_is_external module then None else Some (mn_file_path module, n))
     [0..<length (cg_nodes g)])) \<longleftrightarrow> n \<in> internal_nodes g \<and> node_path g n = p"
  by (auto simp: internal_nodes_def node_path_def map_filter_mem Let_def)

lemma internal_by_path_Some: "internal_nodes_by_path g p = Some n \<Longrightarrow> n \<in> internal_nodes g \<and> node_path g n = p"
  unfolding internal_nodes_by_path_def by (drule map_of_SomeD) (simp only: internal_entries)

lemma internal_by_path_None: "internal_nodes_by_path g p = None \<longleftrightarrow> p \<notin> node_path g ` internal_nodes g"
proof -
  have "p \<in> fst ` A \<longleftrightarrow> (\<exists>n. (p, n) \<in> A)" for A :: "(path \<times> node_index) set" by force
  then show ?thesis
    unfolding internal_nodes_by_path_def map_of_eq_None_iff by (auto simp only: internal_entries)
qed

lemma internal_by_path_node:
  assumes "inj_on (node_path g) (internal_nodes g)" and "n \<in> internal_nodes g"
  shows "internal_nodes_by_path g (node_path g n) = Some n"
proof (cases "internal_nodes_by_path g (node_path g n)")
  case None
  then show ?thesis using assms(2) by (simp add: internal_by_path_None)
next
  case (Some m)
  then show ?thesis using internal_by_path_Some [OF Some] assms by (auto dest: inj_onD)
qed

lemma impact_targets_mem:
  assumes "petgraph_ok g od"
  shows "m \<in> set (impact_targets g options dir (edges_directed g od (edge_direction dir) n)) \<longleftrightarrow>
    \<not> mn_is_external (cg_nodes g ! m) \<and> (\<exists>s t w. (s, t, w) \<in> set (cg_edges g)
      \<and> endpoint_in (edge_direction dir) (s, t, w) = n \<and> next_node dir (0, s, t, w) = m
      \<and> (io_include_type_only options \<or> im_phase w \<noteq> TypeOnly))" (is "?l \<longleftrightarrow> ?r")
proof
  assume ?l
  then obtain e s t w where
      "(e, s, t, w) \<in> set (edges_directed g od (edge_direction dir) n)" "next_node dir (e, s, t, w) = m"
      "\<not> skipped_phase options (e, s, t, w)" "\<not> mn_is_external (cg_nodes g ! m)"
    by (auto simp: impact_targets_def)
  moreover from this have "(s, t, w) \<in> set (cg_edges g)"
    using edges_directed_mem [OF assms] nth_mem by metis
  moreover have "next_node dir (e, s, t, w) = next_node dir (0, s, t, w)" by (cases dir) simp_all
  ultimately show ?r using edges_directed_mem [OF assms] by (force simp: skipped_phase_def)
next
  assume ?r
  then obtain s t w where e: "(s, t, w) \<in> set (cg_edges g)" "endpoint_in (edge_direction dir) (s, t, w) = n"
      "next_node dir (0, s, t, w) = m" "io_include_type_only options \<or> im_phase w \<noteq> TypeOnly"
      "\<not> mn_is_external (cg_nodes g ! m)" by blast
  then obtain i where "i < length (cg_edges g)" "cg_edges g ! i = (s, t, w)" by (auto simp: in_set_conv_nth)
  then have "(i, s, t, w) \<in> set (edges_directed g od (edge_direction dir) n)"
    using edges_directed_mem [OF assms] e(2) by blast
  moreover have "next_node dir (i, s, t, w) = m" using e(3) by (cases dir) simp_all
  ultimately show ?l using e(4,5) unfolding impact_targets_def by (force simp: skipped_phase_def image_iff)
qed

lemma impact_targets_steps:
  assumes "petgraph_ok g od"
  shows "set (impact_targets g options dir (edges_directed g od (edge_direction dir) n)) = import_steps g options dir `` {n}"
proof (intro set_eqI)
  fix m
  show "m \<in> set (impact_targets g options dir (edges_directed g od (edge_direction dir) n))
      \<longleftrightarrow> m \<in> import_steps g options dir `` {n}"
    unfolding impact_targets_mem [OF assms] by (cases dir) (auto simp: import_steps_def)
qed

lemma import_steps_range: "(n, m) \<in> import_steps g options dir \<Longrightarrow> m \<in> edge_ends g"
  by (cases dir) (force simp: import_steps_def edge_ends_def)+

lemma import_steps_internal: "graph_wf g \<Longrightarrow> (n, m) \<in> import_steps g options dir \<Longrightarrow> m \<in> internal_nodes g"
  using import_steps_range [of n m g options dir]
  by (auto simp: graph_wf_def internal_nodes_def import_steps_def)

interpretation imp: search_space "\<lambda>n. import_steps g options dir `` {n}" "changed_nodes g changed"
  for g options dir changed
proof unfold_locales
  show "finite (\<Union>n. import_steps g options dir `` {n})"
    by (rule finite_subset [of _ "edge_ends g"]) (auto dest: import_steps_range)
  show "finite (changed_nodes g changed)" by (simp add: changed_nodes_def internal_nodes_def)
qed

lemma imp_edge [simp]: "imp.edge g options dir = import_steps g options dir"
  by (auto simp: imp.edge_def)

lemma map_of_zeros: "map_of (map (\<lambda>n. (n, 0::nat)) q) n = (if n \<in> set q then Some 0 else None)"
  by (induction q) auto

text \<open>The seeds are the changed nodes, at distance zero.\<close>

lemma impact_seed_result:
  assumes "impact_seed nodes changed (u, v, q) = (u', v', q')"
    and "\<forall>n \<in> set q. v n = Some 0" and "distinct q" and "dom v = set q"
  shows "u' = u \<union> {p \<in> set changed. nodes p = None}
    \<and> set q' = set q \<union> {n. \<exists>p \<in> set changed. nodes p = Some n} \<and> distinct q'
    \<and> v' = map_of (map (\<lambda>n. (n, 0)) q')"
  using assms
proof (induction changed arbitrary: u v q)
  case Nil
  have "v n = map_of (map (\<lambda>n. (n, 0)) q) n" for n
  proof (cases "n \<in> set q")
    case True
    then show ?thesis using Nil(2) map_of_zeros [of q n] by simp
  next
    case False
    then have "v n = None" using Nil(4) by (metis domIff)
    then show ?thesis using False map_of_zeros [of q n] by simp
  qed
  then show ?case using Nil by auto
next
  case (Cons p changed)
  show ?case
  proof (cases "nodes p")
    case None
    then show ?thesis using Cons.IH [of "insert p u" v q] Cons.prems by auto
  next
    case (Some n)
    show ?thesis
    proof (cases "n \<in> set q")
      case True
      then have "v n = Some 0" using Cons.prems(2) by blast
      then have "v(n \<mapsto> 0) = v" by (auto simp: fun_upd_def)
      then show ?thesis using Cons.IH [of u v q] Cons.prems Some \<open>v n = Some 0\<close> True by auto
    next
      case False
      have vn: "v n = None" using False Cons.prems(4) by (metis domIff)
      have d: "dom (v(n \<mapsto> 0)) = set (q @ [n])" using Cons.prems(4) by simp
      have run: "impact_seed nodes changed (u, v(n \<mapsto> 0), q @ [n]) = (u', v', q')"
        using Cons.prems(1) Some vn by simp
      from Cons.IH [OF run _ _ d] show ?thesis using Cons.prems(2,3) Some False by auto
    qed
  qed
qed


text \<open>While the search runs, \<open>files\<close> holds the visited nodes that left the queue.\<close>

definition impact_files_inv :: "codebase_graph \<Rightarrow> (node_index \<rightharpoonup> usize) \<Rightarrow> node_index list \<Rightarrow> (path \<rightharpoonup> usize) \<Rightarrow> bool" where
  "impact_files_inv g visited queue files \<longleftrightarrow>
     (\<forall>p k. files p = Some k \<longleftrightarrow> (\<exists>n. visited n = Some k \<and> n \<notin> set queue \<and> node_path g n = p))"

lemma impact_files_step:
  assumes inv: "impact_files_inv g visited (n # queue) files" and k: "visited n = Some k"
    and dom: "inj_on (node_path g) (dom visited')" and dist: "n \<notin> set queue'"
    and v': "\<And>m. visited' m = (if visited m = None \<and> m \<in> N then Some (Suc k) else visited m)"
    and q': "set queue' = set queue \<union> {m \<in> N. visited m = None}"
  shows "impact_files_inv g visited' queue' (files(mn_file_path (cg_nodes g ! n) \<mapsto> k))"
proof -
  have n': "visited' n = Some k" using k v' by simp
  have old: "visited m = Some j \<and> m \<notin> set queue \<longleftrightarrow> visited' m = Some j \<and> m \<notin> set queue'" for m j
    using v' q' by auto
  have p: "mn_file_path (cg_nodes g ! n) = node_path g n" by (simp add: node_path_def)
  have mine: "m = n" if "visited' m = Some j" "node_path g m = node_path g n" for m j
    using that dom n' by (auto dest: inj_onD)
  have "(files(node_path g n \<mapsto> k)) p = Some j \<longleftrightarrow>
      (\<exists>m. visited' m = Some j \<and> m \<notin> set queue' \<and> node_path g m = p)" for p j
  proof (cases "p = node_path g n")
    case True
    then show ?thesis using mine n' dist by (metis fun_upd_same option.inject)
  next
    case False
    then have "files p = Some j \<longleftrightarrow> (\<exists>m. visited m = Some j \<and> m \<notin> set queue \<and> node_path g m = p)"
      using inv unfolding impact_files_inv_def by auto
    then show ?thesis using False old by auto
  qed
  then show ?thesis unfolding impact_files_inv_def p by blast
qed

lemma impact_loop_files:
  assumes od: "petgraph_ok g od" and wf: "graph_wf g" and inj: "inj_on (node_path g) (internal_nodes g)"
    and "imp.bfs_inv g options dir changed visited queue" and "impact_files_inv g visited queue files"
    and "dom visited \<subseteq> internal_nodes g"
  shows "\<exists>visited' files'. impact_loop g od options dir visited queue files = Some files'
    \<and> imp.bfs_inv g options dir changed visited' [] \<and> impact_files_inv g visited' [] files'"
  using assms
proof (induction g od options dir visited queue files rule: impact_loop.induct)
  case (1 g od options dir visited files)
  then show ?case by auto
next
  case (2 g od options dir visited n q files)
  let ?es = "edges_directed g od (edge_direction dir) n"
  let ?ns = "impact_targets g options dir ?es"
  note inv = "2.prems"(4)
  have "n \<in> dom visited" using imp.bfs_invD(4) [OF inv] by (auto simp: imp.layered_def)
  then obtain k where k: "visited n = Some k" by blast
  obtain v' q' where ex: "impact_expand g options dir k ?es (visited, q) = (v', q')" by (meson surj_pair)
  then have bfs: "bfs_expand (Suc k) ?ns (visited, q) = (v', q')" by (simp add: impact_expand_bfs)
  then obtain new where v': "\<And>m. v' m = (if visited m = None \<and> m \<in> set ?ns then Some (Suc k) else visited m)"
      and q': "q' = q @ new" and new: "set new = {m \<in> set ?ns. visited m = None}" "distinct new"
    by (rule bfs_expand_new) (rule that)
  have inv': "imp.bfs_inv g options dir changed v' q'"
    by (rule imp.bfs_step [OF inv k impact_targets_steps [OF "2.prems"(1)] bfs])
  have "m \<in> internal_nodes g" if "m \<in> set ?ns" for m
    using that import_steps_internal [OF "2.prems"(2)] unfolding impact_targets_steps [OF "2.prems"(1)] by blast
  then have dom: "dom v' \<subseteq> internal_nodes g"
    using "2.prems"(6) unfolding dom_def by (auto simp: v' simp del: not_None_eq)
  have "n \<notin> set q'" using imp.bfs_invD(5) [OF inv] new k q' by auto
  then have files: "impact_files_inv g v' q' (files(mn_file_path (cg_nodes g ! n) \<mapsto> k))"
    by (intro impact_files_step [OF "2.prems"(5) k inj_on_subset [OF "2.prems"(3) dom] _ v'])
      (auto simp: q' new)
  show ?case
    using "2.IH" [OF k ex [symmetric] "2.prems"(1-3) inv' files dom] k ex
    by (simp only: impact_loop.simps option.case prod.case)
qed

lemma reachable_files_spec:
  assumes "petgraph_ok g od" and "graph_wf g" and "inj_on (node_path g) (internal_nodes g)"
  shows "\<exists>r. reachable_files g od changed dir options = Some r
    \<and> rb_unmapped r = set changed - node_path g ` internal_nodes g
    \<and> (\<forall>p k. rb_files r p = Some k \<longleftrightarrow>
         (\<exists>n. node_path g n = p \<and> least_distance (import_steps g options dir) (changed_nodes g changed) n k))"
proof -
  obtain u v q where seed: "impact_seed (internal_nodes_by_path g) changed ({}, Map.empty, []) = (u, v, q)"
    by (metis surj_pair)
  from impact_seed_result [OF this]
  have u: "u = {p \<in> set changed. internal_nodes_by_path g p = None}"
    and q: "set q = {n. \<exists>p \<in> set changed. internal_nodes_by_path g p = Some n}" "distinct q"
    and v: "v = map_of (map (\<lambda>n. (n, 0)) q)" by auto
  have roots: "set q = changed_nodes g changed"
    using internal_by_path_Some internal_by_path_node [OF assms(3)] by (fastforce simp: q(1) changed_nodes_def)
  have inv: "imp.bfs_inv g options dir changed v q" unfolding v by (rule imp.bfs_init [OF q(2) roots])
  have "dom v \<subseteq> internal_nodes g"
    using roots by (auto simp: v map_of_zeros changed_nodes_def dom_def split: if_splits)
  moreover have "impact_files_inv g v q Map.empty"
    by (auto simp: impact_files_inv_def v map_of_zeros split: if_splits)
  ultimately obtain v' fs where run: "impact_loop g od options dir v q Map.empty = Some fs"
      and "imp.bfs_inv g options dir changed v' []" and fs: "impact_files_inv g v' [] fs"
    using impact_loop_files [OF assms inv] by blast
  then have "v' n = Some k \<longleftrightarrow> least_distance (import_steps g options dir) (changed_nodes g changed) n k" for n k
    using imp.bfs_done imp.shortest_least by simp
  then show ?thesis
    using fs u internal_by_path_None by (auto simp: reachable_files_def seed run impact_files_inv_def)
qed

text \<open>A path has one internal module, so its distance is unique.\<close>

lemma least_distance_internal:
  assumes "graph_wf g" and "least_distance (import_steps g options dir) (changed_nodes g changed) n k"
  shows "n \<in> internal_nodes g"
proof -
  obtain r where r: "r \<in> internal_nodes g" "(r, n) \<in> import_steps g options dir ^^ k"
    using assms(2) by (auto simp: least_distance_def changed_nodes_def)
  show ?thesis
  proof (cases k)
    case 0
    then show ?thesis using r by simp
  next
    case (Suc j)
    then show ?thesis using r(2) import_steps_internal [OF assms(1)] by auto
  qed
qed

text \<open>C23: \<open>reachable_files\<close> never panics; it reports as unmapped exactly the changed paths with no
  internal module, and gives every other path exactly when some import chain through internal
  modules joins it to a changed file, with the length of the shortest such chain. The graph has one
  internal module per file.\<close>

theorem reachable_files_shortest:
  assumes "petgraph_ok g od" and "graph_wf g" and "inj_on (node_path g) (internal_nodes g)"
  shows "\<exists>r. reachable_files g od changed dir options = Some r
    \<and> rb_unmapped r = set changed - node_path g ` internal_nodes g
    \<and> (\<forall>p k. rb_files r p = Some k \<longleftrightarrow>
         (\<exists>n. node_path g n = p \<and> least_distance (import_steps g options dir) (changed_nodes g changed) n k))"
  using assms by (rule reachable_files_spec)

text \<open>A sample: \<open>a\<close> imports \<open>b\<close>, which imports \<open>c\<close>.\<close>

definition impact_sample :: codebase_graph where
  "impact_sample = sample_graph [''a'', ''b'', ''c''] [(0, 1), (1, 2)]"

lemma impact_sample_ok:
  "graph_wf impact_sample" "inj_on (node_path impact_sample) (internal_nodes impact_sample)"
proof -
  show "graph_wf impact_sample" unfolding impact_sample_def by (rule sample_graph_wf) simp_all
  show "inj_on (node_path impact_sample) (internal_nodes impact_sample)"
    by (auto simp: inj_on_def impact_sample_def sample_node_def node_path_def internal_nodes_def less_Suc_eq)
qed

theorem reachable_files_shortest_witness:
  "\<exists>r. reachable_files impact_sample (ascending_order impact_sample) [[Normal ''b''], [Normal ''gone'']]
        Dependencies \<lparr>io_include_type_only = True\<rparr> = Some r
    \<and> rb_unmapped r = set [[Normal ''b''], [Normal ''gone'']] - node_path impact_sample ` internal_nodes impact_sample
    \<and> (\<forall>p k. rb_files r p = Some k \<longleftrightarrow> (\<exists>n. node_path impact_sample n = p
         \<and> least_distance (import_steps impact_sample \<lparr>io_include_type_only = True\<rparr> Dependencies)
             (changed_nodes impact_sample [[Normal ''b''], [Normal ''gone'']]) n k))"
  by (rule reachable_files_shortest [OF ascending_order_ok impact_sample_ok])

text \<open>C24: \<open>affected_files\<close> combines both directions: \<open>all_files\<close> gives each file that the change
  reaches or that reaches the change its least distance over the two, nothing else, and what is
  unmapped is the same in both.\<close>

theorem affected_files_nearest:
  assumes "petgraph_ok g od" and "graph_wf g" and "inj_on (node_path g) (internal_nodes g)"
  shows "\<exists>af. affected_files_of g od changed options = Some af
    \<and> affected_unmapped af = set changed - node_path g ` internal_nodes g
    \<and> (\<forall>p k. all_files af p = Some k \<longleftrightarrow>
         (\<exists>dir n. node_path g n = p \<and> least_distance (import_steps g options dir) (changed_nodes g changed) n k)
         \<and> (\<forall>dir n j. node_path g n = p \<and> least_distance (import_steps g options dir) (changed_nodes g changed) n j
              \<longrightarrow> k \<le> j))"
proof -
  let ?near = "\<lambda>dir p k. \<exists>n. node_path g n = p
    \<and> least_distance (import_steps g options dir) (changed_nodes g changed) n k"
  obtain a where a: "reachable_files g od changed Dependencies options = Some a"
      "rb_unmapped a = set changed - node_path g ` internal_nodes g" "\<forall>p k. rb_files a p = Some k \<longleftrightarrow> ?near Dependencies p k"
    using reachable_files_spec [OF assms, of changed Dependencies options] by (elim exE conjE) (rule that)
  obtain b where b: "reachable_files g od changed Dependents options = Some b"
      "rb_unmapped b = set changed - node_path g ` internal_nodes g" "\<forall>p k. rb_files b p = Some k \<longleftrightarrow> ?near Dependents p k"
    using reachable_files_spec [OF assms, of changed Dependents options] by (elim exE conjE) (rule that)
  define af where "af = \<lparr>af_dependencies = a, af_dependents = b\<rparr>"
  have dirs: "(\<exists>dir. Q dir) \<longleftrightarrow> Q Dependencies \<or> Q Dependents"
    "(\<forall>dir. Q dir) \<longleftrightarrow> Q Dependencies \<and> Q Dependents" for Q
    by (metis direction_of_impact.exhaust)+
  have near: "all_files af p = Some k \<longleftrightarrow>
      (?near Dependencies p k \<or> ?near Dependents p k)
      \<and> (\<forall>j. ?near Dependencies p j \<or> ?near Dependents p j \<longrightarrow> k \<le> j)" for p k
  proof -
    have "all_files af p = Some k \<longleftrightarrow>
        (rb_files a p = Some k \<or> rb_files b p = Some k) \<and> (\<forall>j. rb_files a p = Some j \<or> rb_files b p = Some j \<longrightarrow> k \<le> j)"
      by (auto simp: all_files_def af_def min_def split: option.splits if_splits)
    then show ?thesis unfolding a(3) [rule_format] b(3) [rule_format] .
  qed
  have "all_files af p = Some k \<longleftrightarrow>
      (\<exists>dir n. node_path g n = p \<and> least_distance (import_steps g options dir) (changed_nodes g changed) n k)
      \<and> (\<forall>dir n j. node_path g n = p \<and> least_distance (import_steps g options dir) (changed_nodes g changed) n j
           \<longrightarrow> k \<le> j)" for p k
    unfolding near dirs by blast
  moreover have "affected_files_of g od changed options = Some af" by (simp add: affected_files_of_def a b af_def)
  moreover have "affected_unmapped af = set changed - node_path g ` internal_nodes g"
    by (simp add: affected_unmapped_def af_def a b)
  ultimately show ?thesis by blast
qed

theorem affected_files_nearest_witness:
  "\<exists>af. affected_files_of impact_sample (ascending_order impact_sample) [[Normal ''b'']] \<lparr>io_include_type_only = True\<rparr> = Some af
    \<and> affected_unmapped af = set [[Normal ''b'']] - node_path impact_sample ` internal_nodes impact_sample
    \<and> (\<forall>p k. all_files af p = Some k \<longleftrightarrow>
         (\<exists>dir n. node_path impact_sample n = p \<and> least_distance (import_steps impact_sample \<lparr>io_include_type_only = True\<rparr> dir)
            (changed_nodes impact_sample [[Normal ''b'']]) n k)
         \<and> (\<forall>dir n j. node_path impact_sample n = p \<and> least_distance (import_steps impact_sample \<lparr>io_include_type_only = True\<rparr> dir)
            (changed_nodes impact_sample [[Normal ''b'']]) n j \<longrightarrow> k \<le> j))"
  by (rule affected_files_nearest [OF ascending_order_ok impact_sample_ok])

end
