(* ===== verification/Btree.thy ===== *)
theory Btree
  imports Prelude
begin

text \<open>
  \<open>std::collections::BTreeMap\<close> as the list of its entries in the order of their keys, which is the
  order in which it is iterated.
\<close>

type_synonym ('k, 'v) btree = "('k \<times> 'v) list"

definition bt_get :: "('k, 'v) btree \<Rightarrow> 'k \<Rightarrow> 'v option" where
  "bt_get m k = map_of m k"

fun bt_insert :: "'k::linorder \<Rightarrow> 'v \<Rightarrow> ('k, 'v) btree \<Rightarrow> ('k, 'v) btree" where
  "bt_insert k v [] = [(k, v)]"
| "bt_insert k v ((k', v') # m) =
     (if k < k' then (k, v) # (k', v') # m
      else if k = k' then (k, v) # m
      else (k', v') # bt_insert k v m)"

definition bt_ok :: "('k::linorder, 'v) btree \<Rightarrow> bool" where
  "bt_ok m \<longleftrightarrow> sorted_wrt (<) (map fst m)"

lemma bt_ok_Nil [simp]: "bt_ok []"
  by (simp add: bt_ok_def)

lemma bt_insert_keys [simp]: "fst ` set (bt_insert k v m) = insert k (fst ` set m)"
  by (induction k v m rule: bt_insert.induct) auto

lemma bt_insert_ok [simp]: "bt_ok m \<Longrightarrow> bt_ok (bt_insert k v m)"
proof (induction k v m rule: bt_insert.induct)
  case (2 k v k' v' m)
  have "fst ` set (bt_insert k v m) = insert k (fst ` set m)" by simp
  then have "\<forall>x \<in> fst ` set m. k' < x \<Longrightarrow> k' < k \<Longrightarrow> \<forall>x \<in> fst ` set (bt_insert k v m). k' < x" by simp
  then show ?case using 2 by (auto simp: bt_ok_def)
qed (simp add: bt_ok_def)

lemma bt_ok_distinct: "bt_ok m \<Longrightarrow> distinct (map fst m)"
  unfolding bt_ok_def by (simp add: strict_sorted_iff)

lemma bt_get_insert [simp]: "bt_get (bt_insert k v m) k' = (if k' = k then Some v else bt_get m k')"
  by (induction k v m rule: bt_insert.induct) (auto simp: bt_get_def)

lemma bt_get_mem: "bt_ok m \<Longrightarrow> bt_get m k = Some v \<longleftrightarrow> (k, v) \<in> set m"
  by (simp add: bt_get_def bt_ok_distinct map_of_eq_Some_iff)

lemma bt_get_Nil [simp]: "bt_get [] k = None"
  by (simp add: bt_get_def)

lemma bt_get_None: "bt_get m k = None \<longleftrightarrow> k \<notin> fst ` set m"
  by (simp add: bt_get_def map_of_eq_None_iff)

text \<open>Entries with a property, as a set of keys.\<close>

definition bt_keys_where :: "('v \<Rightarrow> bool) \<Rightarrow> ('k, 'v) btree \<Rightarrow> 'k set" where
  "bt_keys_where P m = {k. \<exists>v. bt_get m k = Some v \<and> P v}"

lemma bt_keys_where_finite [simp]: "finite (bt_keys_where P m)"
proof (rule finite_subset)
  show "bt_keys_where P m \<subseteq> fst ` set m"
  proof
    fix k
    assume "k \<in> bt_keys_where P m"
    then have "bt_get m k \<noteq> None" by (auto simp: bt_keys_where_def)
    then show "k \<in> fst ` set m" by (simp add: bt_get_None)
  qed
qed simp

lemma bt_keys_where_insert:
  "bt_keys_where P (bt_insert k v m) = (if P v then insert k (bt_keys_where P m) else bt_keys_where P m - {k})"
  by (auto simp: bt_keys_where_def)

lemma bt_count_where: "bt_ok m \<Longrightarrow> length (filter P (map snd m)) = card (bt_keys_where P m)"
proof -
  assume ok: "bt_ok m"
  have "length (filter P (map snd m)) = length (map fst (filter (\<lambda>e. P (snd e)) m))"
    by (simp add: filter_map o_def)
  also have "\<dots> = card (fst ` set (filter (\<lambda>e. P (snd e)) m))"
    using bt_ok_distinct [OF ok] by (metis distinct_card distinct_map_filter list.set_map)
  also have "fst ` set (filter (\<lambda>e. P (snd e)) m) = bt_keys_where P m"
    using bt_get_mem [OF ok] by (force simp: bt_keys_where_def)
  finally show ?thesis .
qed

end
