(* ===== verification/Rust_Std.thy ===== *)
theory Rust_Std
  imports Paths
begin

text \<open>
  The parts of the standard library that several components use: selections by key on iterators
  (\<open>min_by_key\<close> gives the first least element, \<open>max_by_key\<close> the last greatest), loops whose body may
  panic, and string slicing by prefix, suffix and separator.
\<close>

section \<open>Selection by key\<close>

fun max_by_key :: "('a \<Rightarrow> 'b::linorder) \<Rightarrow> 'a list \<Rightarrow> 'a option" where
  "max_by_key f [] = None"
| "max_by_key f (x # xs) = Some (fold (\<lambda>y best. if f best \<le> f y then y else best) xs x)"

fun min_by_key :: "('a \<Rightarrow> 'b::linorder) \<Rightarrow> 'a list \<Rightarrow> 'a option" where
  "min_by_key f [] = None"
| "min_by_key f (x # xs) = Some (fold (\<lambda>y best. if f y < f best then y else best) xs x)"

lemma fold_max_by_key:
  fixes f :: "'a \<Rightarrow> 'b::linorder"
  shows "let m = fold (\<lambda>y best. if f best \<le> f y then y else best) xs x in
     m \<in> insert x (set xs) \<and> (\<forall>y \<in> insert x (set xs). f y \<le> f m)"
proof (induction xs arbitrary: x)
  case (Cons y ys)
  show ?case
  proof (cases "f x \<le> f y")
    case True
    then show ?thesis using Cons.IH [of y] order_trans [OF True] by (auto simp: Let_def)
  next
    case False
    then show ?thesis using Cons.IH [of x] by (auto simp: Let_def intro: order_trans)
  qed
qed simp

lemma fold_min_by_key:
  fixes f :: "'a \<Rightarrow> 'b::linorder"
  shows "let m = fold (\<lambda>y best. if f y < f best then y else best) xs x in
     m \<in> insert x (set xs) \<and> (\<forall>y \<in> insert x (set xs). f m \<le> f y)"
proof (induction xs arbitrary: x)
  case (Cons y ys)
  show ?case
  proof (cases "f y < f x")
    case True
    then have "z \<le> f y \<Longrightarrow> z \<le> f x" for z by (meson less_imp_le order_trans)
    then show ?thesis using Cons.IH [of y] True by (auto simp: Let_def)
  next
    case False
    then show ?thesis using Cons.IH [of x] by (auto simp: Let_def intro: order_trans)
  qed
qed simp

lemma max_by_key_Some:
  "max_by_key f xs = Some m \<Longrightarrow> m \<in> set xs \<and> (\<forall>x \<in> set xs. f x \<le> f m)"
proof (induction f xs rule: max_by_key.induct)
  case (2 f x xs)
  then show ?case using fold_max_by_key [of f xs x] by (simp add: Let_def)
qed simp

lemma min_by_key_Some:
  "min_by_key f xs = Some m \<Longrightarrow> m \<in> set xs \<and> (\<forall>x \<in> set xs. f m \<le> f x)"
proof (induction f xs rule: min_by_key.induct)
  case (2 f x xs)
  then show ?case using fold_min_by_key [of f xs x] by (simp add: Let_def)
qed simp

lemma min_by_key_None [simp]: "min_by_key f xs = None \<longleftrightarrow> xs = []"
  by (cases xs) auto

lemma max_by_key_None [simp]: "max_by_key f xs = None \<longleftrightarrow> xs = []"
  by (cases xs) auto

section \<open>Loops that may panic\<close>

fun fold_opt :: "('a \<Rightarrow> 's \<Rightarrow> 's option) \<Rightarrow> 'a list \<Rightarrow> 's \<Rightarrow> 's option" where
  "fold_opt f [] s = Some s"
| "fold_opt f (x # xs) s = (case f x s of None \<Rightarrow> None | Some s' \<Rightarrow> fold_opt f xs s')"

lemma fold_opt_inv:
  assumes "P s" and "\<And>x s. x \<in> set xs \<Longrightarrow> P s \<Longrightarrow> \<exists>s'. f x s = Some s' \<and> P s'"
  shows "\<exists>s'. fold_opt f xs s = Some s' \<and> P s'"
  using assms
proof (induction xs arbitrary: s)
  case (Cons x xs)
  from Cons.prems(2) [of x s] Cons.prems(1) obtain s' where "f x s = Some s'" "P s'" by auto
  then show ?case using Cons.IH [of s'] Cons.prems(2) by simp
qed simp

lemma fold_opt_append [simp]:
  "fold_opt f (xs @ ys) s = Option.bind (fold_opt f xs s) (fold_opt f ys)"
  by (induction xs arbitrary: s) (auto split: option.splits)

section \<open>Strings\<close>

definition str_starts_with :: "string \<Rightarrow> string \<Rightarrow> bool" where
  "str_starts_with s p \<longleftrightarrow> take (length p) s = p"

definition str_ends_with :: "string \<Rightarrow> string \<Rightarrow> bool" where
  "str_ends_with s p \<longleftrightarrow> length p \<le> length s \<and> drop (length s - length p) s = p"

definition str_strip_prefix :: "string \<Rightarrow> string \<Rightarrow> string option" where
  "str_strip_prefix s p = (if str_starts_with s p then Some (drop (length p) s) else None)"

definition str_strip_suffix :: "string \<Rightarrow> string \<Rightarrow> string option" where
  "str_strip_suffix s p = (if str_ends_with s p then Some (take (length s - length p) s) else None)"

lemma str_starts_with_prefix: "str_starts_with s p \<longleftrightarrow> prefix p s"
  unfolding str_starts_with_def prefix_def by (metis append_take_drop_id append_eq_conv_conj)

lemma str_strip_prefix_Some: "str_strip_prefix s p = Some r \<longleftrightarrow> s = p @ r"
  unfolding str_strip_prefix_def str_starts_with_def
  by (auto simp: append_eq_conv_conj) (metis append_take_drop_id)

lemma str_strip_suffix_Some: "str_strip_suffix s p = Some r \<longleftrightarrow> s = r @ p"
proof
  assume "str_strip_suffix s p = Some r"
  then show "s = r @ p"
    unfolding str_strip_suffix_def str_ends_with_def by (metis append_take_drop_id option.distinct(1) option.inject)
next
  assume "s = r @ p"
  then show "str_strip_suffix s p = Some r" by (simp add: str_strip_suffix_def str_ends_with_def)
qed

text \<open>\<open>str::rsplit_once\<close> on a character.\<close>

definition str_rsplit_once :: "char \<Rightarrow> string \<Rightarrow> (string \<times> string) option" where
  "str_rsplit_once c s =
     (if c \<in> set s
      then let after = rev (takeWhile (\<lambda>x. x \<noteq> c) (rev s))
           in Some (take (length s - length after - 1) s, after)
      else None)"

text \<open>\<open>Path::file_name\<close> and \<open>Path::file_stem\<close>: a leading dot belongs to the stem.\<close>

fun path_file_name :: "path \<Rightarrow> string option" where
  "path_file_name [] = None"
| "path_file_name [Normal name] = Some name"
| "path_file_name [_] = None"
| "path_file_name (_ # q # p) = path_file_name (q # p)"

definition path_file_stem :: "path \<Rightarrow> string option" where
  "path_file_stem p = (case path_file_name p of
     None \<Rightarrow> None
   | Some name \<Rightarrow> (case str_rsplit_once (CHR ''.'') name of
         None \<Rightarrow> Some name
       | Some (before, after) \<Rightarrow> Some (if before = [] then name else before)))"

lemma path_file_stem_samples:
  "path_file_stem [Normal ''a'', Normal ''b.test.py''] = Some ''b.test''"
  "path_file_stem [Normal ''.env''] = Some ''.env''" "path_file_stem [RootDir] = None"
  by code_simp+

end
