(* ===== verification/Schedule.thy ===== *)
theory Schedule
  imports Btree Paths Rust_Std
begin

text \<open>
  The scan scheduler of the language server, \<open>lsp/schedule.rs\<close>, and the part of the main loop that
  drives it, \<open>lsp/server.rs\<close>: changes mark workspaces dirty, at most \<open>MAX_CONCURRENT_SCANS\<close> scans
  run, a finished scan is published when its generation is current, and waiting workspaces start as
  capacity frees. Sending a message is an output; sending fails only for a URI that does not parse (the
  channel outlives the loop), which ends the loop with an error. The generation counter saturates.
  Diagnostics and health summaries are opaque.
\<close>

section \<open>Scheduling\<close>

definition MAX_CONCURRENT_SCANS :: nat where "MAX_CONCURRENT_SCANS = 2"

record workspace =
  ws_path :: path
  ws_generation :: nat
  ws_running :: bool
  ws_pending :: bool
  ws_published :: "string set"

type_synonym workspaces = "(path, workspace) btree"

definition running :: "workspaces \<Rightarrow> nat" where
  "running m = length (filter ws_running (map snd m))"

definition new_workspace :: "path \<Rightarrow> workspace" where
  "new_workspace root = \<lparr>ws_path = root, ws_generation = 0, ws_running = False, ws_pending = False, ws_published = {}\<rparr>"

definition mark_dirty :: "path \<Rightarrow> workspaces \<Rightarrow> nat option \<times> workspaces" where
  "mark_dirty root m =
     (let in_flight = running m;
          w = (case bt_get m root of Some w \<Rightarrow> w | None \<Rightarrow> new_workspace root);
          w = w\<lparr>ws_generation := saturating_add (ws_generation w) 1\<rparr>
      in if ws_running w \<or> MAX_CONCURRENT_SCANS \<le> in_flight
         then (None, bt_insert root (w\<lparr>ws_pending := True\<rparr>) m)
         else (Some (ws_generation w), bt_insert root (w\<lparr>ws_running := True\<rparr>) m))"

definition waiting :: "workspace \<Rightarrow> bool" where
  "waiting w \<longleftrightarrow> ws_pending w \<and> \<not> ws_running w"

text \<open>\<open>values_mut().find(..)\<close> and the update of what it finds.\<close>

fun start_first :: "workspaces \<Rightarrow> ((path \<times> nat) \<times> workspaces) option" where
  "start_first [] = None"
| "start_first ((root, w) # m) =
     (if waiting w then Some ((ws_path w, ws_generation w), (root, w\<lparr>ws_pending := False, ws_running := True\<rparr>) # m)
      else case start_first m of None \<Rightarrow> None | Some (rg, m') \<Rightarrow> Some (rg, (root, w) # m'))"

definition take_pending :: "workspaces \<Rightarrow> ((path \<times> nat) \<times> workspaces) option" where
  "take_pending m = (if MAX_CONCURRENT_SCANS \<le> running m then None else start_first m)"

lemma start_first_Some:
  assumes "start_first m = Some (rg, m')"
  shows "\<exists>xs root w ys. m = xs @ (root, w) # ys \<and> waiting w \<and> rg = (ws_path w, ws_generation w)
    \<and> m' = xs @ (root, w\<lparr>ws_pending := False, ws_running := True\<rparr>) # ys"
  using assms
proof (induction m arbitrary: m' rule: start_first.induct)
  case (2 root w m)
  show ?case
  proof (cases "waiting w")
    case True
    then show ?thesis using 2 by (intro exI [of _ "[]"] exI [of _ root] exI [of _ w] exI [of _ m]) auto
  next
    case False
    then obtain m'' where m'': "start_first m = Some (rg, m'')" "m' = (root, w) # m''"
      using 2 by (auto split: option.splits)
    from "2.IH" [OF False m''(1)] obtain xs r v ys where "m = xs @ (r, v) # ys \<and> waiting v \<and> rg = (ws_path v, ws_generation v)
        \<and> m'' = xs @ (r, v\<lparr>ws_pending := False, ws_running := True\<rparr>) # ys" by blast
    then show ?thesis using m''(2) by (intro exI [of _ "(root, w) # xs"] exI [of _ r] exI [of _ v] exI [of _ ys]) auto
  qed
qed simp

lemma start_first_None: "start_first m = None \<longleftrightarrow> (\<forall>(root, w) \<in> set m. \<not> waiting w)"
  by (induction m rule: start_first.induct) (auto split: option.splits)

section \<open>The main loop's operations\<close>

record ('d, 'h) scan_result =
  sr_root :: path
  sr_generation :: nat
  sr_diagnostics :: "(string, 'd list) btree"
  sr_health :: "'h option"
  sr_error :: "string option"
  sr_notice :: "string option"

datatype ('d, 'h) server_output = Spawn path nat | Status path string | Publish string "'d list" | Health 'h | Info string | Log string

text \<open>\<open>Scans::queue\<close>.\<close>

definition scans_queue :: "path \<Rightarrow> workspaces \<Rightarrow> ('d, 'h) server_output list \<times> workspaces" where
  "scans_queue root m = (case mark_dirty root m of
     (None, m') \<Rightarrow> ([], m')
   | (Some generation, m') \<Rightarrow> ([Status root ''scanning'', Spawn root generation], m'))"

fun queue_each :: "path list \<Rightarrow> workspaces \<Rightarrow> ('d, 'h) server_output list \<times> workspaces" where
  "queue_each [] m = ([], m)"
| "queue_each (root # roots) m = (case scans_queue root m of (outs, m') \<Rightarrow>
     (case queue_each roots m' of (outs', m'') \<Rightarrow> (outs @ outs', m'')))"

definition rescan_all :: "workspaces \<Rightarrow> ('d, 'h) server_output list \<times> workspaces" where
  "rescan_all m = queue_each (map fst m) m"

definition root_for_path :: "workspaces \<Rightarrow> path \<Rightarrow> path option" where
  "root_for_path m p = max_by_key length (filter (path_starts_with p) (map fst m))"

definition rescan_affected :: "(path \<Rightarrow> bool) \<Rightarrow> path list \<Rightarrow> workspaces \<Rightarrow> ('d, 'h) server_output list \<times> workspaces" where
  "rescan_affected affects_scan paths m =
     queue_each (sorted_list_of_set (set (List.map_filter (root_for_path m) (filter affects_scan paths)))) m"

text \<open>\<open>Scans::launch_pending\<close>; a workspace leaves the list of waiting ones at each turn, and never more
  than the free capacity are taken.\<close>

function launch_pending :: "workspaces \<Rightarrow> ('d, 'h) server_output list \<times> workspaces" where
  "launch_pending m = (case take_pending m of
     None \<Rightarrow> ([], m)
   | Some ((root, generation), m') \<Rightarrow>
       (case launch_pending m' of (outs, m'') \<Rightarrow> (Status root ''scanning'' # Spawn root generation # outs, m'')))"
  by pat_completeness auto

termination
proof (relation "measure (\<lambda>m. length (filter waiting (map snd m)))", goal_cases)
  case 1
  show ?case by simp
next
  case (2 m entry rg rest root generation)
  then have "start_first m = Some ((root, generation), rest)" by (auto simp: take_pending_def split: if_splits)
  from start_first_Some [OF this] show ?case by (auto simp: waiting_def)
qed

declare launch_pending.simps [simp del]

text \<open>\<open>apply_result\<close>: \<open>Inl\<close> is the error that ends the loop, a URI that does not parse.\<close>

fun publish_all :: "(string \<Rightarrow> bool) \<Rightarrow> (string \<times> 'd list) list \<Rightarrow> string + ('d, 'h) server_output list" where
  "publish_all uri_ok [] = Inr []"
| "publish_all uri_ok ((uri, ds) # rest) =
     (if \<not> uri_ok uri then Inl ''parsing diagnostic file URI''
      else case publish_all uri_ok rest of Inl e \<Rightarrow> Inl e | Inr outs \<Rightarrow> Inr (Publish uri ds # outs))"

definition health_outputs :: "'h option \<Rightarrow> ('d, 'h) server_output list" where
  "health_outputs health = (case health of None \<Rightarrow> [] | Some h \<Rightarrow> [Health h])"

definition failure_text :: "path \<Rightarrow> string \<Rightarrow> string" where
  "failure_text root error = ''Sensez scan failed for '' @ path_display root @ '': '' @ error"

definition apply_result :: "(string \<Rightarrow> bool) \<Rightarrow> ('d, 'h) scan_result \<Rightarrow> workspaces \<Rightarrow> string + (('d, 'h) server_output list \<times> workspaces)" where
  "apply_result uri_ok r m = (case bt_get m (sr_root r) of
     None \<Rightarrow> Inr ([], m)
   | Some w0 \<Rightarrow>
       let w = w0\<lparr>ws_running := False\<rparr>
       in if sr_generation r \<noteq> ws_generation w then Inr ([], bt_insert (sr_root r) w m)
          else let notice = (case sr_notice r of None \<Rightarrow> [] | Some n \<Rightarrow> [Info n])
               in case sr_error r of
                    Some error \<Rightarrow> Inr (notice @ health_outputs (sr_health r) @ [Status (sr_root r) ''error'', Log (failure_text (sr_root r) error)],
                      bt_insert (sr_root r) w m)
                  | None \<Rightarrow>
                      let next = set (map fst (sr_diagnostics r));
                          cleared = map (\<lambda>uri. (uri, [])) (sorted_list_of_set (ws_published w - next))
                      in case publish_all uri_ok (cleared @ sr_diagnostics r) of
                           Inl e \<Rightarrow> Inl e
                         | Inr outs \<Rightarrow> Inr (notice @ outs @ health_outputs (sr_health r) @ [Status (sr_root r) ''idle''],
                             bt_insert (sr_root r) (w\<lparr>ws_published := next\<rparr>) m))"

text \<open>One turn of the loop on a finished scan.\<close>

definition on_completed :: "(string \<Rightarrow> bool) \<Rightarrow> ('d, 'h) scan_result \<Rightarrow> workspaces \<Rightarrow> string + (('d, 'h) server_output list \<times> workspaces)" where
  "on_completed uri_ok r m = (case apply_result uri_ok r m of
     Inl e \<Rightarrow> Inl e
   | Inr (outs, m') \<Rightarrow> (case launch_pending m' of (outs', m'') \<Rightarrow> Inr (outs @ outs', m'')))"

text \<open>The start of \<open>run\<close>.\<close>

definition server_start :: "path list \<Rightarrow> ('d, 'h) server_output list \<times> workspaces" where
  "server_start roots = (case queue_each roots [] of (outs, m) \<Rightarrow>
     (case launch_pending m of (outs', m') \<Rightarrow> (outs @ outs', m')))"

section \<open>States of the loop\<close>

text \<open>What was sent, the workspaces, the scans whose result has not arrived, and, for the proofs only, the workspaces with a
  change that no scan has started after.\<close>

record ('d, 'h) server =
  sv_log :: "('d, 'h) server_output list"
  sv_workspaces :: workspaces
  sv_flight :: "(path \<times> nat) list"
  sv_dirty :: "path set"

fun spawn_of :: "('d, 'h) server_output \<Rightarrow> (path \<times> nat) option" where
  "spawn_of (Spawn root generation) = Some (root, generation)"
| "spawn_of _ = None"

definition spawned :: "('d, 'h) server_output list \<Rightarrow> (path \<times> nat) list" where
  "spawned outs = List.map_filter spawn_of outs"

lemma spawned_simps [simp]:
  "spawned [] = []" "spawned (Spawn root g # outs) = (root, g) # spawned outs"
  "spawned (Status root s # outs) = spawned outs" "spawned (outs @ outs') = spawned outs @ spawned outs'"
  by (simp_all add: spawned_def List.map_filter_simps) (simp add: List.map_filter_def)

definition server_idle :: "('d, 'h) server" where
  "server_idle = \<lparr>sv_log = [], sv_workspaces = [], sv_flight = [], sv_dirty = {}\<rparr>"

definition server_after :: "('d, 'h) server \<Rightarrow> workspaces \<Rightarrow> (path \<times> nat) list \<Rightarrow> path set \<Rightarrow> ('d, 'h) server_output list \<Rightarrow> ('d, 'h) server" where
  "server_after sv m flight dirty outs =
     \<lparr>sv_log = sv_log sv @ outs, sv_workspaces = m, sv_flight = flight @ spawned outs, sv_dirty = dirty - fst ` set (spawned outs)\<rparr>"

definition after_change :: "path \<Rightarrow> ('d, 'h) server \<Rightarrow> ('d, 'h) server" where
  "after_change root sv = (case scans_queue root (sv_workspaces sv) of (outs, m) \<Rightarrow>
     server_after sv m (sv_flight sv) (insert root (sv_dirty sv)) outs)"

text \<open>The states of a server that changes and finished scans drive; \<open>queue_each\<close> is changes in a row.\<close>

inductive server_reachable :: "(string \<Rightarrow> bool) \<Rightarrow> ('d, 'h) server \<Rightarrow> bool" for uri_ok where
  started: "server_reachable uri_ok server_idle"
| changed: "server_reachable uri_ok sv \<Longrightarrow> server_reachable uri_ok (after_change root sv)"
| completed: "server_reachable uri_ok sv \<Longrightarrow> (sr_root r, sr_generation r) \<in> set (sv_flight sv)
    \<Longrightarrow> on_completed uri_ok r (sv_workspaces sv) = Inr (outs, m)
    \<Longrightarrow> server_reachable uri_ok
          (server_after sv m (remove1 (sr_root r, sr_generation r) (sv_flight sv)) (sv_dirty sv) outs)"

abbreviation runs :: "workspaces \<Rightarrow> path set" where "runs \<equiv> bt_keys_where ws_running"
abbreviation waits :: "workspaces \<Rightarrow> path set" where "waits \<equiv> bt_keys_where ws_pending"

definition sched_wf :: "workspaces \<Rightarrow> bool" where
  "sched_wf m \<longleftrightarrow> bt_ok m \<and> card (runs m) \<le> 2 \<and> (\<forall>root w. bt_get m root = Some w \<longrightarrow> ws_path w = root)"

definition flight_ok :: "workspaces \<Rightarrow> (path \<times> nat) list \<Rightarrow> path set \<Rightarrow> bool" where
  "flight_ok m flight dirty \<longleftrightarrow> distinct (map fst flight) \<and> fst ` set flight = runs m \<and> dirty = waits m
     \<and> (\<forall>root g w. (root, g) \<in> set flight \<and> bt_get m root = Some w \<and> \<not> ws_pending w \<longrightarrow> g = ws_generation w)"

definition no_idle_capacity :: "workspaces \<Rightarrow> bool" where
  "no_idle_capacity m \<longleftrightarrow> (waits m - runs m \<noteq> {} \<longrightarrow> card (runs m) = 2)"

definition server_inv :: "('d, 'h) server \<Rightarrow> bool" where
  "server_inv sv \<longleftrightarrow> sched_wf (sv_workspaces sv) \<and> flight_ok (sv_workspaces sv) (sv_flight sv) (sv_dirty sv)
     \<and> no_idle_capacity (sv_workspaces sv)"

lemma running_card: "sched_wf m \<Longrightarrow> running m = card (runs m)"
  using bt_count_where [of m ws_running] by (simp only: running_def sched_wf_def)

lemma runs_mem: "root \<in> runs m \<longleftrightarrow> (\<exists>w. bt_get m root = Some w \<and> ws_running w)"
  and waits_mem: "root \<in> waits m \<longleftrightarrow> (\<exists>w. bt_get m root = Some w \<and> ws_pending w)"
  by (simp_all add: bt_keys_where_def)

lemma queue_inv:
  assumes inv: "server_inv sv"
  shows "server_inv (after_change root sv)"
proof -
  obtain log m flight dirty where sv: "sv = \<lparr>sv_log = log, sv_workspaces = m, sv_flight = flight, sv_dirty = dirty\<rparr>" by (cases sv)
  have wf: "sched_wf m" and fl: "flight_ok m flight dirty" and cap: "no_idle_capacity m"
    using inv by (simp_all add: server_inv_def sv)
  define w0 where "w0 = (case bt_get m root of Some w \<Rightarrow> w | None \<Rightarrow> new_workspace root)"
  define w where "w = w0\<lparr>ws_generation := saturating_add (ws_generation w0) 1\<rparr>"
  have path: "ws_path w0 = root" using wf by (auto simp: w0_def sched_wf_def new_workspace_def split: option.splits)
  have run: "ws_running w0 \<longleftrightarrow> root \<in> runs m" "ws_pending w0 \<longleftrightarrow> root \<in> waits m"
    by (auto simp: w0_def bt_keys_where_def new_workspace_def split: option.splits)
  show ?thesis
  proof (cases "ws_running w \<or> MAX_CONCURRENT_SCANS \<le> running m")
    case True
    let ?m = "bt_insert root (w\<lparr>ws_pending := True\<rparr>) m"
    have "mark_dirty root m = (None, ?m)"
      using True by (simp add: mark_dirty_def Let_def w_def w0_def)
    then have after: "after_change root sv = \<lparr>sv_log = log, sv_workspaces = ?m, sv_flight = flight, sv_dirty = insert root dirty\<rparr>"
      by (simp add: after_change_def scans_queue_def server_after_def sv)
    have r: "runs ?m = runs m" "waits ?m = insert root (waits m)"
      using run by (auto simp: bt_keys_where_insert w_def)
    have "sched_wf ?m" using wf path r by (auto simp: sched_wf_def w_def)
    moreover have "flight_ok ?m flight (insert root dirty)" using fl unfolding flight_ok_def r by auto
    moreover have "no_idle_capacity ?m"
      using True run wf cap running_card [OF wf]
      unfolding no_idle_capacity_def r sched_wf_def by (auto simp: w_def MAX_CONCURRENT_SCANS_def)
    ultimately show ?thesis by (simp add: server_inv_def after)
  next
    case False
    let ?m = "bt_insert root (w\<lparr>ws_running := True\<rparr>) m"
    have "mark_dirty root m = (Some (ws_generation w), ?m)"
      using False by (simp add: mark_dirty_def Let_def w_def w0_def)
    then have after: "after_change root sv = \<lparr>sv_log = log @ [Status root ''scanning'', Spawn root (ws_generation w)],
        sv_workspaces = ?m, sv_flight = flight @ [(root, ws_generation w)],
        sv_dirty = insert root dirty - {root}\<rparr>"
      by (simp add: after_change_def scans_queue_def server_after_def sv)
    have small: "card (runs m) < 2" using False running_card [OF wf] by (simp add: MAX_CONCURRENT_SCANS_def)
    have idle: "root \<notin> runs m" using False run by (simp add: w_def)
    have npend: "root \<notin> waits m" proof -
      have "waits m - runs m = {}" using cap small by (auto simp: no_idle_capacity_def)
      then show ?thesis using idle by blast
    qed
    have r: "runs ?m = insert root (runs m)" "waits ?m = waits m"
      using run npend by (auto simp: bt_keys_where_insert w_def)
    have "sched_wf ?m" using wf path small idle r by (auto simp: sched_wf_def w_def)
    moreover have "flight_ok ?m (flight @ [(root, ws_generation w)]) (insert root dirty - {root})"
    proof -
      have "root \<notin> fst ` set flight" "dirty = waits m" using fl idle by (simp_all add: flight_ok_def)
      then show ?thesis using fl npend unfolding flight_ok_def r by (auto simp: rev_image_eqI)
    qed
    moreover have "no_idle_capacity ?m" using cap small unfolding no_idle_capacity_def r by auto
    ultimately show ?thesis by (simp add: server_inv_def after)
  qed
qed

lemma take_pending_props:
  assumes wf: "sched_wf m" and take: "take_pending m = Some ((root, g), m')"
  shows "\<exists>w. bt_get m root = Some w \<and> waiting w \<and> g = ws_generation w \<and> card (runs m) < 2 \<and> bt_ok m'
    \<and> bt_get m' = (bt_get m)(root \<mapsto> w\<lparr>ws_pending := False, ws_running := True\<rparr>)"
proof -
  have small: "running m < 2" and "start_first m = Some ((root, g), m')"
    using take by (auto simp: take_pending_def MAX_CONCURRENT_SCANS_def split: if_splits)
  from start_first_Some [OF this(2)] obtain xs k w ys where m: "m = xs @ (k, w) # ys" "waiting w" "root = ws_path w"
      "g = ws_generation w" "m' = xs @ (k, w\<lparr>ws_pending := False, ws_running := True\<rparr>) # ys" by auto
  have ok: "bt_ok m" using wf by (simp add: sched_wf_def)
  have "bt_get m k = Some w" using bt_get_mem [OF ok] m(1) by simp
  then have k: "k = root" using wf m(3) by (simp add: sched_wf_def)
  have "map fst m' = map fst m" by (simp add: m(1,5))
  then have ok': "bt_ok m'" using ok by (simp add: bt_ok_def)
  have notin: "k \<notin> fst ` set xs" using bt_ok_distinct [OF ok] m(1) by simp
  have "bt_get m' = (bt_get m)(k \<mapsto> w\<lparr>ws_pending := False, ws_running := True\<rparr>)"
    using notin unfolding m(1,5) bt_get_def fun_eq_iff
    by (auto simp: map_add_def map_of_eq_None_iff [symmetric] split: option.splits)
  then show ?thesis
    using ok' m(2,4) k small running_card [OF wf] \<open>bt_get m k = Some w\<close> by auto
qed

text \<open>Launching keeps the invariant and restores that no capacity is idle.\<close>

lemma launch_inv:
  assumes "sched_wf m" and "flight_ok m flight dirty" and "launch_pending m = (outs, m')"
  shows "sched_wf m' \<and> flight_ok m' (flight @ spawned outs) (dirty - fst ` set (spawned outs)) \<and> no_idle_capacity m'
    \<and> length (spawned outs) + card (waits m') \<le> card (waits m)"
  using assms
proof (induction m arbitrary: flight dirty outs m' rule: launch_pending.induct)
  case (1 m)
  show ?case
  proof (cases "take_pending m")
    case None
    then have m': "outs = []" "m' = m" using "1.prems"(3) by (simp_all add: launch_pending.simps)
    have "2 \<le> card (runs m) \<or> (\<forall>(root, w) \<in> set m. \<not> waiting w)"
      using None running_card [OF "1.prems"(1)]
      by (auto simp: take_pending_def MAX_CONCURRENT_SCANS_def start_first_None split: if_splits)
    moreover have "waits m - runs m = {}" if "\<forall>(root, w) \<in> set m. \<not> waiting w"
      using that "1.prems"(1) bt_get_mem [of m] by (fastforce simp: bt_keys_where_def waiting_def sched_wf_def)
    ultimately have "no_idle_capacity m" using "1.prems"(1) by (auto simp: no_idle_capacity_def sched_wf_def)
    then show ?thesis using "1.prems"(1,2) m' by simp
  next
    case (Some taken)
    obtain root g m1 where taken: "taken = ((root, g), m1)" by (cases taken) auto
    obtain outs1 where l: "launch_pending m1 = (outs1, m')" "outs = Status root ''scanning'' # Spawn root g # outs1"
      using "1.prems"(3) Some taken by (auto simp: launch_pending.simps split: prod.splits)
    from take_pending_props [OF "1.prems"(1) Some [unfolded taken]] obtain w where
      w: "bt_get m root = Some w" "waiting w" "g = ws_generation w" "card (runs m) < 2" "bt_ok m1"
        "bt_get m1 = (bt_get m)(root \<mapsto> w\<lparr>ws_pending := False, ws_running := True\<rparr>)" by blast
    have r: "runs m1 = insert root (runs m)" "waits m1 = waits m - {root}" by (auto simp: bt_keys_where_def w(6))
    have new: "root \<notin> runs m" "root \<in> waits m" using w(1,2) by (auto simp: bt_keys_where_def waiting_def)
    have "sched_wf m1" using "1.prems"(1) w new by (auto simp: sched_wf_def r(1))
    moreover have "flight_ok m1 (flight @ [(root, g)]) (dirty - {root})"
    proof -
      have "root \<notin> fst ` set flight" using "1.prems"(2) new by (simp add: flight_ok_def)
      then show ?thesis using "1.prems"(2) w(3,6) unfolding flight_ok_def r by (auto simp: rev_image_eqI)
    qed
    ultimately have "sched_wf m' \<and> flight_ok m' ((flight @ [(root, g)]) @ spawned outs1) ((dirty - {root}) - fst ` set (spawned outs1))
        \<and> no_idle_capacity m' \<and> length (spawned outs1) + card (waits m') \<le> card (waits m1)"
      by (rule "1.IH" [OF Some taken [symmetric] refl _ _ l(1)])
    moreover have "dirty - {root} - fst ` set (spawned outs1) = dirty - insert root (fst ` set (spawned outs1))" by blast
    moreover have "card (waits m1) < card (waits m)" unfolding r(2) using new(2) by (rule card_Diff1_less [OF bt_keys_where_finite])
    ultimately show ?thesis by (simp add: l(2))
  qed
qed

lemma spawned_quiet [simp]:
  "spawned (health_outputs h) = []" "spawned (Info n # outs) = spawned outs" "spawned (Log n # outs) = spawned outs"
  "spawned (Publish u ds # outs) = spawned outs"
  by (auto simp: health_outputs_def spawned_def List.map_filter_simps split: option.splits)

lemma apply_result_inv:
  assumes wf: "sched_wf m" and fl: "flight_ok m flight dirty" and mem: "(sr_root r, sr_generation r) \<in> set flight"
    and res: "apply_result uri_ok r m = Inr (outs, m')"
  shows "sched_wf m' \<and> flight_ok m' (remove1 (sr_root r, sr_generation r) flight) dirty \<and> waits m' = waits m \<and> spawned outs = []"
proof -
  let ?root = "sr_root r"
  have "?root \<in> runs m" using fl mem by (force simp: flight_ok_def)
  then obtain w where w: "bt_get m ?root = Some w" "ws_running w" by (auto simp: bt_keys_where_def)
  have none: "spawned outs' = []" if "publish_all uri_ok es = Inr outs'" for es and outs' :: "('a, 'b) server_output list"
    using that
  proof (induction es arbitrary: outs')
    case (Cons e es)
    then show ?case by (cases e) (auto simp: spawned_def List.map_filter_simps split: if_splits sum.splits)
  qed simp
  have m': "(\<exists>P. m' = bt_insert ?root (w\<lparr>ws_running := False, ws_published := P\<rparr>) m) \<and> spawned outs = []"
  proof (cases "sr_generation r = ws_generation w")
    case True
    then show ?thesis
      using res w(1) none
      by (auto simp: apply_result_def Let_def split: option.splits sum.splits)
        (metis workspace.surjective workspace.update_convs(5) workspace.update_convs(3))+
  next
    case False
    then have "m' = bt_insert ?root (w\<lparr>ws_running := False\<rparr>) m" "outs = []"
      using res w(1) by (auto simp: apply_result_def Let_def)
    moreover have "w\<lparr>ws_running := False\<rparr> = w\<lparr>ws_running := False, ws_published := ws_published w\<rparr>" by (cases w) simp
    ultimately show ?thesis by (metis spawned_simps(1))
  qed
  then obtain P where P: "m' = bt_insert ?root (w\<lparr>ws_running := False, ws_published := P\<rparr>) m" by blast
  have r: "runs m' = runs m - {?root}" "waits m' = waits m"
    using w(1) by (auto simp: P bt_keys_where_insert bt_keys_where_def)
  have "card (runs m') \<le> 2"
    using wf unfolding r(1) sched_wf_def by (meson bt_keys_where_finite card_Diff1_le order_trans)
  then have "sched_wf m'" using wf w(1) by (auto simp: sched_wf_def P)
  moreover have "flight_ok m' (remove1 (?root, sr_generation r) flight) dirty"
  proof -
    have d: "distinct (map fst flight)" using fl by (simp add: flight_ok_def)
    then have rest: "set (remove1 (?root, sr_generation r) flight) = {e \<in> set flight. fst e \<noteq> ?root}"
      using mem by (auto simp: set_remove1_eq distinct_map dest: eq_key_imp_eq_value [OF d])
    have "distinct (map fst (remove1 (?root, sr_generation r) flight))"
      using d by (metis distinct_map distinct_remove1 inj_on_subset set_remove1_subset)
    then show ?thesis using fl unfolding flight_ok_def r rest by (auto simp: P)
  qed
  ultimately show ?thesis using r(2) m' by blast
qed

lemma flight_ok_dirty: "flight_ok m flight dirty \<Longrightarrow> dirty = waits m"
  by (simp add: flight_ok_def)

lemma completed_inv:
  assumes inv: "server_inv sv" and mem: "(sr_root r, sr_generation r) \<in> set (sv_flight sv)"
    and turn: "on_completed uri_ok r (sv_workspaces sv) = Inr (outs, m)"
    and sv': "sv' = server_after sv m (remove1 (sr_root r, sr_generation r) (sv_flight sv)) (sv_dirty sv) outs"
  shows "server_inv sv' \<and> length (sv_flight sv') + 2 * card (sv_dirty sv') < length (sv_flight sv) + 2 * card (sv_dirty sv)"
proof -
  obtain outs1 m1 where res: "apply_result uri_ok r (sv_workspaces sv) = Inr (outs1, m1)"
    using turn by (auto simp: on_completed_def split: sum.splits)
  then obtain outs2 where launch: "launch_pending m1 = (outs2, m)" and outs: "outs = outs1 @ outs2"
    using turn by (auto simp: on_completed_def split: prod.splits)
  have wf: "sched_wf (sv_workspaces sv)" and fl: "flight_ok (sv_workspaces sv) (sv_flight sv) (sv_dirty sv)"
    using inv by (simp_all add: server_inv_def)
  note a = apply_result_inv [OF wf fl mem res]
  note l = launch_inv [OF conjunct1 [OF a] conjunct1 [OF conjunct2 [OF a]] launch]
  have dirty: "sv_dirty sv = waits (sv_workspaces sv)" "sv_dirty sv' = waits m"
    using flight_ok_dirty [OF fl] flight_ok_dirty [OF conjunct1 [OF conjunct2 [OF l]]] a
    by (simp_all add: sv' server_after_def outs)
  have "length (remove1 (sr_root r, sr_generation r) (sv_flight sv)) < length (sv_flight sv)"
    using length_pos_if_in_set [OF mem] mem by (simp add: length_remove1)
  moreover have "length (spawned outs2) + card (waits m) \<le> card (waits (sv_workspaces sv))" using l a by simp
  ultimately have "length (sv_flight sv') + 2 * card (sv_dirty sv') < length (sv_flight sv) + 2 * card (sv_dirty sv)"
    unfolding dirty using a by (simp add: sv' server_after_def outs)
  moreover have "server_inv sv'" using l a by (simp add: server_inv_def sv' server_after_def outs)
  ultimately show ?thesis by blast
qed

lemma server_reachable_inv: "server_reachable uri_ok sv \<Longrightarrow> server_inv sv"
proof (induction rule: server_reachable.induct)
  case started
  show ?case by (simp add: server_inv_def server_idle_def sched_wf_def flight_ok_def no_idle_capacity_def bt_keys_where_def)
next
  case (changed sv root)
  then show ?case by (simp add: queue_inv)
next
  case (completed sv r outs m)
  then show ?case using completed_inv [OF completed.IH completed.hyps(2,3) refl] by blast
qed

text \<open>The loop's operations are changes in a row: \<open>queue_each\<close>, and with it \<open>rescan_all\<close>, \<open>rescan_affected\<close>
  and \<open>server_start\<close>, whose last launch finds nothing to start.\<close>

lemma queue_each_changes:
  fixes sv :: "('d, 'h) server"
  shows "queue_each roots (sv_workspaces sv) = (sv_log_new, m) \<Longrightarrow>
     sv_workspaces (fold after_change roots sv) = m \<and> sv_log (fold after_change roots sv) = sv_log sv @ sv_log_new"
proof (induction roots arbitrary: sv sv_log_new)
  case (Cons root roots)
  obtain outs m' where q: "scans_queue root (sv_workspaces sv) = (outs :: ('d, 'h) server_output list, m')" by force
  obtain outs' :: "('d, 'h) server_output list" where r: "queue_each roots m' = (outs', m)" "sv_log_new = outs @ outs'"
    using Cons.prems q by (auto split: prod.splits)
  have "sv_workspaces (after_change root sv) = m'" "sv_log (after_change root sv) = sv_log sv @ outs"
    using q by (simp_all add: after_change_def server_after_def)
  then show ?case using Cons.IH [of "after_change root sv" outs'] r by simp
qed simp

lemma changes_reachable: "server_reachable uri_ok sv \<Longrightarrow> server_reachable uri_ok (fold after_change roots sv)"
  by (induction roots arbitrary: sv) (auto intro: server_reachable.changed)

lemma nothing_to_launch:
  assumes "server_inv sv"
  shows "launch_pending (sv_workspaces sv) = ([], sv_workspaces sv)"
proof -
  have wf: "sched_wf (sv_workspaces sv)" "no_idle_capacity (sv_workspaces sv)" using assms by (simp_all add: server_inv_def)
  have "take_pending (sv_workspaces sv) = None"
  proof (rule ccontr)
    assume "take_pending (sv_workspaces sv) \<noteq> None"
    then obtain root g m' where "take_pending (sv_workspaces sv) = Some ((root, g), m')" by auto
    from take_pending_props [OF wf(1) this] obtain w where "bt_get (sv_workspaces sv) root = Some w" "waiting w"
      "card (runs (sv_workspaces sv)) < 2" by blast
    then show False using wf(2) by (auto simp: no_idle_capacity_def waiting_def bt_keys_where_def)
  qed
  then show ?thesis by (simp add: launch_pending.simps)
qed

lemma server_start_reachable:
  assumes "server_start roots = (outs :: ('d, 'h) server_output list, m)"
  shows "\<exists>sv. server_reachable uri_ok sv \<and> sv_workspaces sv = m \<and> sv_log sv = outs"
proof -
  let ?sv = "fold after_change roots (server_idle :: ('d, 'h) server)"
  obtain outs1 :: "('d, 'h) server_output list" and m1
    where q: "queue_each roots (sv_workspaces (server_idle :: ('d, 'h) server)) = (outs1, m1)" by force
  have sv: "sv_workspaces ?sv = m1" "sv_log ?sv = outs1" using queue_each_changes [OF q] by (simp_all add: server_idle_def)
  have reach: "server_reachable uri_ok ?sv" by (intro changes_reachable server_reachable.started)
  have "launch_pending m1 = ([] :: ('d, 'h) server_output list, m1)" using nothing_to_launch [OF server_reachable_inv [OF reach]] sv by simp
  then have "m = m1" "outs = outs1" using assms q by (simp_all add: server_start_def server_idle_def)
  then show ?thesis using reach sv by blast
qed

section \<open>Properties\<close>

text \<open>C36: At every moment at most two scans are in flight, at most one per workspace, and they are exactly the
  workspaces whose flag says that they run.\<close>

theorem scans_bounded:
  assumes "server_reachable uri_ok sv"
  shows "length (sv_flight sv) \<le> MAX_CONCURRENT_SCANS \<and> distinct (map fst (sv_flight sv))
    \<and> set (map fst (sv_flight sv)) = {root. \<exists>w. bt_get (sv_workspaces sv) root = Some w \<and> ws_running w}"
proof -
  have inv: "sched_wf (sv_workspaces sv)" "flight_ok (sv_workspaces sv) (sv_flight sv) (sv_dirty sv)"
    using server_reachable_inv [OF assms] by (simp_all add: server_inv_def)
  then have "card (set (map fst (sv_flight sv))) \<le> 2" by (simp add: flight_ok_def sched_wf_def)
  moreover have "card (set (map fst (sv_flight sv))) = length (sv_flight sv)"
    using inv(2) by (simp only: flight_ok_def distinct_card length_map)
  ultimately show ?thesis using inv(2) by (simp add: flight_ok_def MAX_CONCURRENT_SCANS_def bt_keys_where_def)
qed

text \<open>C35: No change is lost. While a workspace has a change that no scan has started after, some scan is in
  flight; a result is thrown away as stale only for such a workspace; and every finished scan brings the server
  closer to rest: the scans in flight plus twice the workspaces with such a change become fewer. So with no new
  change a scan starts after each change, and then all stop.\<close>

theorem changes_are_scanned:
  assumes reach: "server_reachable uri_ok sv" and mem: "(sr_root r, sr_generation r) \<in> set (sv_flight sv)"
    and turn: "on_completed uri_ok r (sv_workspaces sv) = Inr (outs, m)"
    and sv': "sv' = server_after sv m (remove1 (sr_root r, sr_generation r) (sv_flight sv)) (sv_dirty sv) outs"
  shows "(sv_flight sv' = [] \<longrightarrow> sv_dirty sv' = {})
    \<and> (bt_get (sv_workspaces sv) (sr_root r) = Some w \<and> sr_generation r \<noteq> ws_generation w \<longrightarrow> sr_root r \<in> sv_dirty sv)
    \<and> length (sv_flight sv') + 2 * card (sv_dirty sv') < length (sv_flight sv) + 2 * card (sv_dirty sv)"
proof -
  note inv = server_reachable_inv [OF reach]
  have inv': "server_inv sv'" and less: "length (sv_flight sv') + 2 * card (sv_dirty sv') < length (sv_flight sv) + 2 * card (sv_dirty sv)"
    using completed_inv [OF inv mem turn sv'] by simp_all
  have "sv_dirty sv' = {}" if "sv_flight sv' = []"
    using inv' that by (auto simp: server_inv_def flight_ok_def no_idle_capacity_def)
  moreover have "sr_root r \<in> sv_dirty sv" if "bt_get (sv_workspaces sv) (sr_root r) = Some w" "sr_generation r \<noteq> ws_generation w"
    proof -
    have fl: "flight_ok (sv_workspaces sv) (sv_flight sv) (sv_dirty sv)" using inv by (simp add: server_inv_def)
    have "ws_pending w" using fl mem that unfolding flight_ok_def by blast
    then show ?thesis using fl that(1) by (auto simp: flight_ok_def waits_mem)
  qed
  ultimately show ?thesis using less by blast
qed

text \<open>What the client shows for a file after messages.\<close>

definition show_output :: "('d, 'h) server_output \<Rightarrow> (string \<Rightarrow> 'd list) \<Rightarrow> (string \<Rightarrow> 'd list)" where
  "show_output out view = (case out of Publish uri ds \<Rightarrow> view(uri := ds) | _ \<Rightarrow> view)"

definition shown_after :: "('d, 'h) server_output list \<Rightarrow> (string \<Rightarrow> 'd list) \<Rightarrow> (string \<Rightarrow> 'd list)" where
  "shown_after outs view = fold show_output outs view"

lemma shown_after_simps [simp]:
  "shown_after [] view = view" "shown_after (outs @ outs') view = shown_after outs' (shown_after outs view)"
  "shown_after (Publish uri ds # outs) view = shown_after outs (view(uri := ds))"
  "shown_after (Status root state # outs) view = shown_after outs view"
  "shown_after (Info n # outs) view = shown_after outs view" "shown_after (Health h # outs) view = shown_after outs view"
  by (simp_all add: shown_after_def show_output_def)

lemma shown_health [simp]: "shown_after (health_outputs h) view = view"
  by (simp add: health_outputs_def split: option.splits)

lemma publish_all_cases:
  "(case (publish_all uri_ok es :: string + ('d, 'h) server_output list) of Inl e \<Rightarrow> \<not> list_all (\<lambda>(uri, ds). uri_ok uri) es
    | Inr outs \<Rightarrow> list_all (\<lambda>(uri, ds). uri_ok uri) es \<and>
        (\<forall>view uri. shown_after outs view uri = (case map_of (rev es) uri of None \<Rightarrow> view uri | Some ds \<Rightarrow> ds)))"
  by (induction uri_ok es rule: publish_all.induct) (auto split: sum.splits option.splits simp: map_add_def)

lemma map_of_rev: "distinct (map fst xs) \<Longrightarrow> map_of (rev xs) = map_of xs"
  by (subst map_of_inject_set) (simp_all flip: rev_map)

text \<open>C37: Publishing a result. The loop ends with an error exactly when a URI to publish or to clear does not
  parse; otherwise the client shows the diagnostics of the result, nothing for the files that had diagnostics
  before and have none now, and what it showed before for all other files.\<close>

theorem apply_result_publishes:
  fixes r :: "('d, 'h) scan_result"
  assumes "bt_get m (sr_root r) = Some w" and "sr_generation r = ws_generation w" and "sr_error r = None"
    and "finite (ws_published w)" and "bt_ok (sr_diagnostics r)"
  shows "(case apply_result uri_ok r m of
      Inl e \<Rightarrow> \<exists>uri \<in> ws_published w \<union> set (map fst (sr_diagnostics r)). \<not> uri_ok uri
    | Inr (outs, m') \<Rightarrow> (\<forall>uri \<in> ws_published w \<union> set (map fst (sr_diagnostics r)). uri_ok uri)
        \<and> (\<forall>view uri. shown_after outs view uri =
             (case bt_get (sr_diagnostics r) uri of Some ds \<Rightarrow> ds | None \<Rightarrow> if uri \<in> ws_published w then [] else view uri))
        \<and> bt_get m' (sr_root r) = Some (w\<lparr>ws_running := False, ws_published := set (map fst (sr_diagnostics r))\<rparr>))"
proof -
  let ?new = "set (map fst (sr_diagnostics r))"
  define cleared where "cleared = map (\<lambda>uri. (uri, [] :: 'd list)) (sorted_list_of_set (ws_published w - ?new))"
  have keys: "set (map fst cleared) = ws_published w - ?new" using assms(4) by (simp add: cleared_def o_def)
  have uris: "list_all (\<lambda>(uri, ds). uri_ok uri) (cleared @ sr_diagnostics r) \<longleftrightarrow> (\<forall>uri \<in> ws_published w \<union> ?new. uri_ok uri)"
  proof -
    have "list_all (\<lambda>(uri, ds). uri_ok uri) es \<longleftrightarrow> (\<forall>uri \<in> set (map fst es). uri_ok uri)" for es :: "(string \<times> 'd list) list"
      by (induction es) auto
    then show ?thesis using keys by (auto simp del: set_map)
  qed
  have "distinct (map fst (sr_diagnostics r))" using assms(5) by (rule bt_ok_distinct)
  then have diags: "map_of (rev (sr_diagnostics r)) = bt_get (sr_diagnostics r)"
    by (intro ext) (simp add: bt_get_def map_of_rev)
  have rest: "map_of (rev cleared) uri = (if uri \<in> ws_published w - ?new then Some [] else None)" for uri
  proof -
    have "distinct (map fst cleared)" by (simp add: cleared_def o_def)
    then have "map_of (rev cleared) = map_of cleared" by (rule map_of_rev)
    then show ?thesis using assms(4) by (auto simp: cleared_def map_of_map_restrict map_of_eq_None_iff restrict_map_def)
  qed
  have look: "map_of (rev (cleared @ sr_diagnostics r)) uri = (case bt_get (sr_diagnostics r) uri of
      Some ds \<Rightarrow> Some ds | None \<Rightarrow> if uri \<in> ws_published w - ?new then Some [] else None)" for uri
    by (simp add: rest diags map_add_def del: set_map split: option.splits)
  have new: "bt_get (sr_diagnostics r) uri = None \<longleftrightarrow> uri \<notin> ?new" for uri by (simp add: bt_get_None)
  have seen: "(case (case bt_get (sr_diagnostics r) uri of Some ds \<Rightarrow> Some ds | None \<Rightarrow> if uri \<in> ws_published w - ?new then Some [] else None) of
        None \<Rightarrow> view uri | Some ds \<Rightarrow> ds)
      = (case bt_get (sr_diagnostics r) uri of Some ds \<Rightarrow> ds | None \<Rightarrow> if uri \<in> ws_published w then [] else view uri)"
    for view :: "string \<Rightarrow> 'd list" and uri
    using new [of uri] by (cases "bt_get (sr_diagnostics r) uri") (simp_all del: set_map)
  have pub: "case (publish_all uri_ok (cleared @ sr_diagnostics r) :: string + ('d, 'h) server_output list) of
      Inl e \<Rightarrow> \<not> (\<forall>uri \<in> ws_published w \<union> ?new. uri_ok uri)
    | Inr outs \<Rightarrow> (\<forall>uri \<in> ws_published w \<union> ?new. uri_ok uri) \<and> (\<forall>view uri. shown_after outs view uri =
        (case bt_get (sr_diagnostics r) uri of Some ds \<Rightarrow> ds | None \<Rightarrow> if uri \<in> ws_published w then [] else view uri))"
    using publish_all_cases [where ?'h = 'h and uri_ok = uri_ok and es = "cleared @ sr_diagnostics r"]
    unfolding uris look seen .
  have res: "apply_result uri_ok r m = (case publish_all uri_ok (cleared @ sr_diagnostics r) of Inl e \<Rightarrow> Inl e
    | Inr outs \<Rightarrow> Inr ((case sr_notice r of None \<Rightarrow> [] | Some n \<Rightarrow> [Info n]) @ outs @ health_outputs (sr_health r) @ [Status (sr_root r) ''idle''],
        bt_insert (sr_root r) (w\<lparr>ws_running := False, ws_published := ?new\<rparr>) m))"
    by (simp add: apply_result_def assms(1,2,3) Let_def cleared_def del: set_map)
  show ?thesis
  proof (cases "publish_all uri_ok (cleared @ sr_diagnostics r) :: string + ('d, 'h) server_output list")
    case (Inl e)
    then show ?thesis using pub by (auto simp: res simp del: set_map)
  next
    case (Inr outs)
    have "shown_after (case sr_notice r of None \<Rightarrow> [] | Some n \<Rightarrow> [Info n :: ('d, 'h) server_output]) view = view" for view :: "string \<Rightarrow> 'd list"
      by (simp split: option.splits)
    then show ?thesis using pub Inr by (simp add: res del: set_map)
  qed
qed

text \<open>A sample: a change of one workspace, and the result of its scan.\<close>

definition sample_server :: "(nat, nat) server" where
  "sample_server = after_change [Normal ''b''] (after_change [Normal ''b''] (after_change [Normal ''a''] server_idle))"

definition sample_result :: "(nat, nat) scan_result" where
  "sample_result = \<lparr>sr_root = [Normal ''b''], sr_generation = 1, sr_diagnostics = [(''u'', [7])], sr_health = None,
     sr_error = None, sr_notice = None\<rparr>"

lemma sample_server_reachable: "server_reachable uri_ok sample_server"
  unfolding sample_server_def by (intro server_reachable.intros)

lemma sample_saturating [simp]: "saturating_add 0 1 = 1" "saturating_add (Suc 0) 1 = 2" "saturating_add 0 (Suc 0) = Suc 0"
    "saturating_add (Suc 0) (Suc 0) = 2"
  by (simp_all add: saturating_add_def usize_max_def min_def)

lemma sample_paths [simp]: "\<not> Normal ''b'' < Normal ''a''" "Normal ''a'' < Normal ''b''"
  by code_simp+

lemma sample_first: "after_change [Normal ''b''] server_idle = \<lparr>sv_log = [Status [Normal ''b''] ''scanning'', Spawn [Normal ''b''] 1],
    sv_workspaces = [([Normal ''b''], \<lparr>ws_path = [Normal ''b''], ws_generation = 1, ws_running = True, ws_pending = False, ws_published = {}\<rparr>)],
    sv_flight = [([Normal ''b''], 1)], sv_dirty = {}\<rparr>"
  by (simp add: after_change_def server_idle_def scans_queue_def mark_dirty_def running_def new_workspace_def
      MAX_CONCURRENT_SCANS_def server_after_def)

lemma sample_server_sel: "sv_workspaces sample_server =
    [([Normal ''a''], \<lparr>ws_path = [Normal ''a''], ws_generation = 1, ws_running = True, ws_pending = False, ws_published = {}\<rparr>),
     ([Normal ''b''], \<lparr>ws_path = [Normal ''b''], ws_generation = 2, ws_running = True, ws_pending = True, ws_published = {}\<rparr>)]"
  "sv_flight sample_server = [([Normal ''a''], 1), ([Normal ''b''], 1)]" "sv_dirty sample_server = {[Normal ''b'']}"
  by (simp_all add: sample_server_def after_change_def server_idle_def scans_queue_def mark_dirty_def running_def new_workspace_def
      MAX_CONCURRENT_SCANS_def server_after_def bt_get_def Let_def)

lemmas sample_server_flight = sample_server_sel(2,3)

theorem scans_bounded_witness:
  "length (sv_flight sample_server) \<le> MAX_CONCURRENT_SCANS \<and> length (sv_flight sample_server) = 2"
  using scans_bounded [OF sample_server_reachable] by (simp add: sample_server_flight)

theorem changes_are_scanned_witness:
  "\<exists>sv' :: (nat, nat) server. length (sv_flight sv') + 2 * card (sv_dirty sv') < (4 :: nat) \<and> server_reachable (\<lambda>u. True) sv'"
proof -
  obtain outs m where turn: "on_completed (\<lambda>u. True) sample_result (sv_workspaces sample_server) = Inr (outs, m)"
  proof -
    have "\<not> isl (on_completed (\<lambda>u. True) sample_result (sv_workspaces sample_server))"
      by (simp add: sample_server_sel on_completed_def apply_result_def sample_result_def bt_get_def Let_def split: prod.split)
    then show ?thesis using that by (cases "on_completed (\<lambda>u. True) sample_result (sv_workspaces sample_server)") auto
  qed
  have mem: "(sr_root sample_result, sr_generation sample_result) \<in> set (sv_flight sample_server)"
    by (simp add: sample_server_flight sample_result_def)
  let ?sv = "server_after sample_server m (remove1 (sr_root sample_result, sr_generation sample_result) (sv_flight sample_server))
    (sv_dirty sample_server) outs"
  have "length (sv_flight ?sv) + 2 * card (sv_dirty ?sv) < length (sv_flight sample_server) + 2 * card (sv_dirty sample_server)"
    using changes_are_scanned [OF sample_server_reachable mem turn refl] by blast
  also have "\<dots> = 4" by (simp add: sample_server_flight)
  finally show ?thesis using server_reachable.completed [OF sample_server_reachable mem turn] by blast
qed

theorem apply_result_publishes_witness:
  "(case apply_result (\<lambda>u. True) sample_result (sv_workspaces (after_change [Normal ''b''] server_idle :: (nat, nat) server)) of
      Inl e \<Rightarrow> False | Inr (outs, m') \<Rightarrow> shown_after outs (\<lambda>u. []) ''u'' = [7])"
proof -
  have w: "bt_get (sv_workspaces (after_change [Normal ''b''] server_idle :: (nat, nat) server)) (sr_root sample_result)
      = Some \<lparr>ws_path = [Normal ''b''], ws_generation = 1, ws_running = True, ws_pending = False, ws_published = {}\<rparr>"
    by (simp add: sample_first bt_get_def sample_result_def)
  show ?thesis
    using apply_result_publishes [OF w, of "\<lambda>u. True"]
    by (cases "apply_result (\<lambda>u. True) sample_result (sv_workspaces (after_change [Normal ''b''] server_idle :: (nat, nat) server))")
      (auto simp: sample_result_def bt_ok_def bt_get_def)
qed

end
