(* ===== verification/Lexeme.thy ===== *)
theory Lexeme
  imports Spine
begin

text \<open>
  Lexeme codes, \<open>src/profiles/lexeme.rs\<close>: a token becomes a 64-bit code that keeps what it
  names and collapses only function-bound local variables. The code of a syntax node depends on
  the node through its text, its operator and the profile's API-surface rule, which are arguments
  here; the hash functions of the crate \<open>rustc_hash\<close> are parameters (\<open>fx_text\<close> for
  \<open>FxBuildHasher.hash_one\<close>, \<open>fx_tagged\<close> for an \<open>FxHasher\<close> fed a \<open>u16\<close> tag and
  a text). All arithmetic is on 64-bit words.
\<close>

type_synonym bound_names = "u64 set"

definition LOCAL :: u64 where "LOCAL = 1"

definition HASH_BASE :: u64 where "HASH_BASE = 16"

definition HASH_SPAN :: u64 where "HASH_SPAN = push_bit 62 1"

definition lexeme_hash :: "(string \<Rightarrow> u64) \<Rightarrow> string \<Rightarrow> u64" where
  "lexeme_hash fx_text t = HASH_BASE + (fx_text t mod (HASH_SPAN - HASH_BASE))"

definition hash_operator :: "(16 word \<Rightarrow> string \<Rightarrow> u64) \<Rightarrow> string \<Rightarrow> u64" where
  "hash_operator fx_tagged op = HASH_BASE + (fx_tagged 0x6f70 op mod (HASH_SPAN - HASH_BASE))"

definition rehash :: "u64 \<Rightarrow> u64 \<Rightarrow> u64" where
  "rehash code salt = HASH_BASE + (Bit_Operations.xor code salt mod (HASH_SPAN - HASH_BASE))"

definition type_position :: "u64 \<Rightarrow> u64" where
  "type_position code = rehash code 0x9e3779b97f4a7c15"

definition shorthand_position :: "u64 \<Rightarrow> u64" where
  "shorthand_position code = rehash code 0xc2b2ae3d27d4eb4f"

text \<open>A syntax node as the mapping sees it: its text, the operator found on it (the named field,
  else the first anonymous child, else \<open>op\<close>) and whether the profile calls it API surface.\<close>

record lexeme_node =
  ln_text :: string
  ln_operator_field :: "string option"
  ln_children :: "(bool \<times> string) list"
  ln_api_surface :: bool

definition node_operator :: "lexeme_node \<Rightarrow> string" where
  "node_operator n = (case ln_operator_field n of Some k \<Rightarrow> k
     | None \<Rightarrow> (case find (\<lambda>(named, k). \<not> named) (ln_children n) of
           Some (named, k) \<Rightarrow> k | None \<Rightarrow> ''op''))"

definition identifier_code :: "(string \<Rightarrow> u64) \<Rightarrow> lexeme_node \<Rightarrow> bound_names list \<Rightarrow> u64" where
  "identifier_code fx_text n fn_bounds =
     (let code = lexeme_hash fx_text (ln_text n) in
      if ln_api_surface n then code
      else if list_ex (\<lambda>names. code \<in> names) (rev fn_bounds) then LOCAL
      else code)"

definition code_with_api_surface ::
  "(string \<Rightarrow> u64) \<Rightarrow> (16 word \<Rightarrow> string \<Rightarrow> u64) \<Rightarrow> lexeme_node \<Rightarrow> structural_token
    \<Rightarrow> bound_names list \<Rightarrow> u64" where
  "code_with_api_surface fx_text fx_tagged n tok fn_bounds = (case tok of
       GenericIdentifier \<Rightarrow> identifier_code fx_text n fn_bounds
     | GenericLiteral \<Rightarrow> lexeme_hash fx_text (ln_text n)
     | BinaryOp \<Rightarrow> hash_operator fx_tagged (node_operator n)
     | FunctionDef \<Rightarrow> 2
     | ClassDef \<Rightarrow> 3
     | IfStatement \<Rightarrow> 4
     | ForStatement \<Rightarrow> 5
     | WhileStatement \<Rightarrow> 6
     | TryStatement \<Rightarrow> 7
     | WithStatement \<Rightarrow> 8
     | Assign \<Rightarrow> 9
     | Call \<Rightarrow> 10
     | Return \<Rightarrow> 11)"

text \<open>Folding puts every hash into \<open>[16, 2 ^ 62)\<close> without wrapping around.\<close>

lemma HASH_SPAN_num: "HASH_SPAN = 0x4000000000000000"
  by (simp add: HASH_SPAN_def)

lemma fold_range:
  fixes h :: u64
  shows "16 \<le> HASH_BASE + h mod (HASH_SPAN - HASH_BASE)"
    and "HASH_BASE + h mod (HASH_SPAN - HASH_BASE) < 0x4000000000000000"
proof -
  have m: "unat (h mod (HASH_SPAN - HASH_BASE)) < 0x3FFFFFFFFFFFFFF0"
    by (simp add: unat_mod_distrib HASH_SPAN_num HASH_BASE_def)
  then have "unat (HASH_BASE + h mod (HASH_SPAN - HASH_BASE)) =
      16 + unat (h mod (HASH_SPAN - HASH_BASE))"
    by (subst unat_add_lem [THEN iffD1]) (simp_all add: HASH_BASE_def)
  with m show "16 \<le> HASH_BASE + h mod (HASH_SPAN - HASH_BASE)"
    and "HASH_BASE + h mod (HASH_SPAN - HASH_BASE) < 0x4000000000000000"
    by (simp_all add: word_le_nat_alt word_less_nat_alt)
qed

text \<open>A code that can stand in the token part of a master buffer.\<close>

definition token_code :: "u64 \<Rightarrow> bool" where
  "token_code c \<longleftrightarrow> 1 \<le> c \<and> c < 0x4000000000000000"

lemma token_code_fold [simp, intro]: "token_code (HASH_BASE + h mod (HASH_SPAN - HASH_BASE))"
  using fold_range [of h] by (auto simp: token_code_def intro: order_trans [rotated])

lemma identifier_code_token [simp]: "token_code (identifier_code fx n bs)"
  by (simp add: identifier_code_def lexeme_hash_def Let_def)
     (simp add: token_code_def LOCAL_def)

section \<open>Properties\<close>

text \<open>C7: Every lexeme code, whatever the hash functions return, lies in \<open>[1, 2 ^ 62)\<close>: it
  is neither the terminator nor in the separators' namespace, also after a rehash.\<close>

theorem lexeme_codes_below_separators:
  "token_code (code_with_api_surface fx_text fx_tagged n tok fn_bounds)
    \<and> token_code (type_position c) \<and> token_code (shorthand_position c)"
  by (cases tok)
     (simp_all add: code_with_api_surface_def lexeme_hash_def hash_operator_def type_position_def
       shorthand_position_def rehash_def, simp_all add: token_code_def)

text \<open>C8: A code means what it should: an identifier gets the local code exactly when it is no API
  surface and some enclosing scope binds its name, and hashed codes never meet the codes reserved
  for locals and statement kinds.\<close>

theorem identifier_code_local_iff:
  "(identifier_code fx_text n fn_bounds = LOCAL \<longleftrightarrow>
      \<not> ln_api_surface n \<and> (\<exists>names \<in> set fn_bounds. lexeme_hash fx_text (ln_text n) \<in> names))
   \<and> 16 \<le> lexeme_hash fx_text t \<and> 16 \<le> hash_operator fx_tagged op"
proof -
  have "lexeme_hash fx_text s \<noteq> LOCAL" for s
    using fold_range(1) [of "fx_text s"] by (auto simp: lexeme_hash_def LOCAL_def word_le_nat_alt)
  then show ?thesis
    using fold_range(1)
    by (auto simp: identifier_code_def Let_def list_ex_iff lexeme_hash_def hash_operator_def)
qed

end
