(* ===== verification/Flatten.thy ===== *)
theory Flatten
  imports Lexeme
begin

text \<open>
  The master buffer of the duplication pillar, \<open>src/noze/duplication/flatten.rs\<close>: all lexeme
  codes of a cohort of files, each file closed by a separator of its own, relabelled to a dense
  alphabet. \<open>build\<close> pushes on two vectors and threads the alphabet; \<open>stream\<close> is the
  specification, the raw codes with their spans, and the lemmas show that the buffer is a
  relabelling of it and that a repeated run never reaches a separator. The ids of the alphabet
  (\<open>i32\<close>) are integers: a buffer with \<open>2 ^ 31\<close> distinct codes is out of scope.
\<close>

section \<open>The code\<close>

definition NON_TOKEN :: u32 where "NON_TOKEN = 0xFFFFFFFF"

definition SEP_BASE :: u64 where "SEP_BASE = push_bit 62 1"

record master =
  ma_text :: "int list"
  ma_spans :: "token_span list"

record dense_alphabet =
  id_of :: "u64 \<rightharpoonup> int"
  da_next :: int

definition dense_new :: dense_alphabet where
  "dense_new = \<lparr>id_of = [0 \<mapsto> 0], da_next = 1\<rparr>"

definition dense_id :: "dense_alphabet \<Rightarrow> u64 \<Rightarrow> int \<times> dense_alphabet" where
  "dense_id da val = (case id_of da val of
       Some d \<Rightarrow> (d, da)
     | None \<Rightarrow> (da_next da, da\<lparr>da_next := da_next da + 1, id_of := (id_of da)(val \<mapsto> da_next da)\<rparr>))"

definition non_token_span :: token_span where
  "non_token_span = \<lparr>sp_file_id = NON_TOKEN, sp_start_row = 0, sp_end_row = 0,
     sp_start_byte = 0, sp_end_byte = 0\<rparr>"

text \<open>The two vectors and the alphabet while the buffer is being filled.\<close>

type_synonym build_state = "int list \<times> token_span list \<times> dense_alphabet"

fun push_code :: "u64 \<Rightarrow> token_span \<Rightarrow> build_state \<Rightarrow> build_state" where
  "push_code code sp (buf, spans, da) =
     (let (d, da') = dense_id da code in (buf @ [d], spans @ [sp], da'))"

fun push_tokens :: "nat \<Rightarrow> (u64 \<times> token_span) list \<Rightarrow> build_state \<Rightarrow> build_state" where
  "push_tokens file_idx [] st = st"
| "push_tokens file_idx ((code, sp) # rest) st =
     push_tokens file_idx rest (push_code code (sp\<lparr>sp_file_id := of_nat file_idx\<rparr>) st)"

fun push_files :: "nat \<Rightarrow> parsed_file list \<Rightarrow> build_state \<Rightarrow> build_state" where
  "push_files file_idx [] st = st"
| "push_files file_idx (file # files) st =
     push_files (Suc file_idx) files
       (push_code (SEP_BASE + of_nat file_idx) non_token_span
         (push_tokens file_idx (zip (pf_lexemes file) (pf_spans file)) st))"

definition build_master :: "parsed_file list \<Rightarrow> master" where
  "build_master files = (let (buf, spans, da) = push_files 0 files ([], [], dense_new)
     in \<lparr>ma_text = buf @ [0], ma_spans = spans @ [non_token_span]\<rparr>)"

section \<open>The specification\<close>

definition file_stream :: "nat \<Rightarrow> parsed_file \<Rightarrow> (u64 \<times> token_span) list" where
  "file_stream k file =
     map (\<lambda>(c, sp). (c, sp\<lparr>sp_file_id := of_nat k\<rparr>)) (zip (pf_lexemes file) (pf_spans file))
     @ [(SEP_BASE + of_nat k, non_token_span)]"

fun stream :: "nat \<Rightarrow> parsed_file list \<Rightarrow> (u64 \<times> token_span) list" where
  "stream k [] = [(0, non_token_span)]"
| "stream k (file # files) = file_stream k file @ stream (Suc k) files"

section \<open>The alphabet is a dense relabelling\<close>

definition dense_inv :: "dense_alphabet \<Rightarrow> bool" where
  "dense_inv da \<longleftrightarrow> id_of da 0 = Some 0 \<and> inj_on (id_of da) (dom (id_of da))
     \<and> ran (id_of da) = {0..<da_next da} \<and> 0 < da_next da"

lemma dense_inv_new: "dense_inv dense_new"
  by (auto simp: dense_inv_def dense_new_def)

lemma dense_id_extends: "id_of (snd (dense_id da v)) v = Some (fst (dense_id da v))"
  and dense_id_keeps: "id_of da \<subseteq>\<^sub>m id_of (snd (dense_id da v))"
  by (auto simp: dense_id_def map_le_def split: option.splits)

lemma dense_inv_id:
  assumes "dense_inv da"
  shows "dense_inv (snd (dense_id da v))"
proof (cases "id_of da v")
  case None
  have fresh: "da_next da \<notin> ran (id_of da)" and pos: "0 < da_next da"
    using assms by (auto simp: dense_inv_def)
  have "{0..<da_next da + 1} = insert (da_next da) {0..<da_next da}" using pos by auto
  then have "ran ((id_of da)(v \<mapsto> da_next da)) = {0..<da_next da + 1}"
    using assms None by (simp only: dense_inv_def ran_map_upd)
  moreover have "inj_on ((id_of da)(v \<mapsto> da_next da)) (insert v (dom (id_of da)))"
    using assms fresh None by (intro inj_on_map_fresh) (simp_all add: dense_inv_def)
  moreover have "id_of da 0 = Some 0" using assms by (simp add: dense_inv_def)
  moreover have "v \<noteq> 0" using None \<open>id_of da 0 = Some 0\<close> by auto
  ultimately show ?thesis
    using None pos by (simp add: dense_inv_def dense_id_def)
next
  case (Some d)
  then show ?thesis using assms by (simp add: dense_id_def)
qed

text \<open>What pushing a list of codes does: the new text is the relabelled list.\<close>

definition relabels :: "dense_alphabet \<Rightarrow> u64 list \<Rightarrow> int list \<Rightarrow> bool" where
  "relabels da raw buf \<longleftrightarrow> list_all2 (\<lambda>c d. id_of da c = Some d) raw buf"

definition build_inv :: "(u64 \<times> token_span) list \<Rightarrow> build_state \<Rightarrow> bool" where
  "build_inv raw st = (case st of (buf, spans, da) \<Rightarrow>
     dense_inv da \<and> relabels da (map fst raw) buf \<and> spans = map snd raw
       \<and> insert 0 (set (map fst raw)) = dom (id_of da))"

lemma relabels_mono: "relabels da raw buf \<Longrightarrow> id_of da \<subseteq>\<^sub>m id_of da' \<Longrightarrow> relabels da' raw buf"
  unfolding relabels_def map_le_def by (erule list_all2_mono) (metis domI)

lemma dom_dense_id: "dom (id_of (snd (dense_id da v))) = insert v (dom (id_of da))"
  by (auto simp: dense_id_def split: option.splits)

lemma push_code_inv:
  assumes "build_inv raw st"
  shows "build_inv (raw @ [(code, sp)]) (push_code code sp st)"
proof -
  obtain buf spans da where st: "st = (buf, spans, da)" by (cases st)
  obtain d da' where id: "dense_id da code = (d, da')" by fastforce
  have "dense_inv da'" and "id_of da' code = Some d" and "id_of da \<subseteq>\<^sub>m id_of da'"
    and "dom (id_of da') = insert code (dom (id_of da))"
    using assms dense_inv_id [of da code] dense_id_extends [of da code] dense_id_keeps [of da code]
      dom_dense_id [of da code]
    by (auto simp: build_inv_def st id)
  moreover have "relabels da' (map fst raw) buf"
    using assms \<open>id_of da \<subseteq>\<^sub>m id_of da'\<close> by (auto simp: build_inv_def st elim: relabels_mono)
  moreover have "insert 0 (set (map fst raw)) = dom (id_of da)"
    using assms by (simp add: build_inv_def st)
  ultimately show ?thesis
    using assms by (auto simp: build_inv_def st id relabels_def intro!: list_all2_appendI)
qed

lemma push_tokens_inv:
  "build_inv raw st \<Longrightarrow>
   build_inv (raw @ map (\<lambda>(c, sp). (c, sp\<lparr>sp_file_id := of_nat k\<rparr>)) toks) (push_tokens k toks st)"
proof (induction toks arbitrary: raw st)
  case (Cons t toks)
  obtain c sp where t: "t = (c, sp)" by fastforce
  from Cons.IH [OF push_code_inv [OF Cons.prems]] show ?case by (simp add: t)
qed simp

lemma push_files_inv:
  "build_inv raw st \<Longrightarrow>
   \<exists>rest. stream k files = rest @ [(0, non_token_span)] \<and> build_inv (raw @ rest) (push_files k files st)"
proof (induction files arbitrary: k raw st)
  case Nil
  then show ?case by simp
next
  case (Cons f files)
  have "build_inv (raw @ file_stream k f)
      (push_code (SEP_BASE + of_nat k) non_token_span
        (push_tokens k (zip (pf_lexemes f) (pf_spans f)) st))"
    using push_code_inv [OF push_tokens_inv [OF Cons.prems]] by (simp add: file_stream_def)
  from Cons.IH [OF this, of "Suc k"] show ?case by auto
qed

lemma build_master_relabels:
  obtains da where "dense_inv da" and "relabels da (map fst (stream 0 files)) (ma_text (build_master files))"
    and "ma_spans (build_master files) = map snd (stream 0 files)"
    and "set (map fst (stream 0 files)) = dom (id_of da)"
proof -
  obtain buf spans da where st: "push_files 0 files ([], [], dense_new) = (buf, spans, da)"
    by (cases "push_files 0 files ([], [], dense_new)")
  have "build_inv [] ([], [], dense_new)"
    using dense_inv_new by (auto simp: build_inv_def relabels_def dense_new_def)
  from push_files_inv [OF this, of 0 files] obtain rest
    where s: "stream 0 files = rest @ [(0, non_token_span)]" and "build_inv rest (buf, spans, da)"
    by (auto simp: st)
  then have "dense_inv da" "relabels da (map fst rest) buf" "spans = map snd rest"
    "insert 0 (set (map fst rest)) = dom (id_of da)"
    by (auto simp: build_inv_def)
  then show ?thesis
    by (intro that [of da]) (auto simp: build_master_def st s relabels_def dense_inv_def
        intro!: list_all2_appendI)
qed


section \<open>Separators are never repeated\<close>

text \<open>The callers' side: codes come from \<open>Lexeme\<close> and there are fewer than \<open>2 ^ 32 - 1\<close>
  files, so a file id is never the sentinel.\<close>

definition valid_cohort :: "parsed_file list \<Rightarrow> bool" where
  "valid_cohort files \<longleftrightarrow> length files < 2 ^ 32 - 1
     \<and> list_all (\<lambda>f. list_all token_code (pf_lexemes f)) files"

definition is_mark :: "u64 \<Rightarrow> bool" where
  "is_mark c \<longleftrightarrow> \<not> token_code c"

lemma unat_separator: "k < 2 ^ 32 \<Longrightarrow> unat (SEP_BASE + of_nat k) = 2 ^ 62 + k"
  by (subst unat_add_lem [THEN iffD1]) (simp_all add: SEP_BASE_def unat_of_nat)

lemma is_mark_separator [simp]: "k < 2 ^ 32 \<Longrightarrow> is_mark (SEP_BASE + of_nat k)"
  using unat_separator [of k] by (simp add: is_mark_def token_code_def word_less_nat_alt)

lemma file_id_not_sentinel: "k < 2 ^ 32 - 1 \<Longrightarrow> (of_nat k :: u32) \<noteq> NON_TOKEN"
proof
  assume "k < 2 ^ 32 - 1" and "(of_nat k :: u32) = NON_TOKEN"
  then have "unat (of_nat k :: u32) = 0xFFFFFFFF" by (simp add: NON_TOKEN_def)
  with \<open>k < 2 ^ 32 - 1\<close> show False by (simp add: unat_of_nat)
qed

lemma file_stream_marks:
  assumes "list_all token_code (pf_lexemes f)" and "k < 2 ^ 32 - 1"
  shows "filter is_mark (map fst (file_stream k f)) = [SEP_BASE + of_nat k]"
    and "x \<in> set (file_stream k f) \<Longrightarrow> is_mark (fst x) \<longleftrightarrow> sp_file_id (snd x) = NON_TOKEN"
proof -
  have tok: "\<not> is_mark c" if "(c, sp) \<in> set (zip (pf_lexemes f) (pf_spans f))" for c sp
    using assms(1) that by (auto simp: is_mark_def list_all_iff dest: set_zip_leftD)
  then show "filter is_mark (map fst (file_stream k f)) = [SEP_BASE + of_nat k]"
    using assms(2) by (auto simp: file_stream_def filter_empty_conv)
  show "is_mark (fst x) \<longleftrightarrow> sp_file_id (snd x) = NON_TOKEN" if "x \<in> set (file_stream k f)"
    using that tok assms(2) file_id_not_sentinel [of k]
    by (auto simp: file_stream_def non_token_span_def)
qed

lemma stream_marks:
  assumes "list_all (\<lambda>f. list_all token_code (pf_lexemes f)) files" and "k + length files < 2 ^ 32 - 1"
  shows "filter is_mark (map fst (stream k files)) =
      map (\<lambda>i. SEP_BASE + of_nat i) [k..<k + length files] @ [0]"
    and "x \<in> set (stream k files) \<Longrightarrow> is_mark (fst x) \<longleftrightarrow> sp_file_id (snd x) = NON_TOKEN"
  using assms
proof (induction files arbitrary: k)
  case Nil
  { case 1 then show ?case by (simp add: is_mark_def token_code_def) }
  { case 2 then show ?case by (auto simp: is_mark_def token_code_def non_token_span_def) }
next
  case (Cons f files)
  { case 1
    with Cons.IH(1) [of "Suc k"] show ?case
      by (simp add: file_stream_marks(1) upt_conv_Cons del: upt_Suc) }
  { case 2
    with Cons.IH(2) [of "Suc k"] file_stream_marks(2) [of f k x] show ?case by auto }
qed

lemma stream_marks_distinct:
  assumes "valid_cohort files"
  shows "distinct (filter is_mark (map fst (stream 0 files)))"
proof -
  have small: "i < 2 ^ 32" if "i < length files" for i
    using assms that by (simp add: valid_cohort_def)
  have inj: "inj_on (\<lambda>i. SEP_BASE + of_nat i :: u64) {0..<length files}"
  proof (rule inj_onI)
    fix i j
    assume "i \<in> {0..<length files}" and "j \<in> {0..<length files}"
      and "SEP_BASE + of_nat i = (SEP_BASE + of_nat j :: u64)"
    then have "2 ^ 62 + i = 2 ^ 62 + j"
      using unat_separator [OF small, of i] unat_separator [OF small, of j]
      by (simp only: atLeastLessThan_iff)
    then show "i = j" by (simp only: add_left_cancel)
  qed
  have "SEP_BASE + of_nat i \<noteq> 0" if "i < length files" for i
  proof
    assume "SEP_BASE + of_nat i = 0"
    with unat_separator [OF small [OF that]] show False by simp
  qed
  then have "(0::u64) \<notin> (\<lambda>i. SEP_BASE + of_nat i) ` {0..<length files}" by force
  moreover have "filter is_mark (map fst (stream 0 files)) =
      map (\<lambda>i. SEP_BASE + of_nat i) [0..<length files] @ [0]"
    using assms stream_marks(1) [of files 0] by (simp add: valid_cohort_def)
  ultimately show ?thesis
    using inj by (simp add: distinct_map)
qed

lemma distinct_filter_nth:
  "distinct (filter P xs) \<Longrightarrow> i < length xs \<Longrightarrow> j < length xs \<Longrightarrow> xs ! i = xs ! j \<Longrightarrow> P (xs ! i)
    \<Longrightarrow> i = j"
proof (induction xs arbitrary: i j)
  case (Cons x xs)
  then show ?case
    by (cases i; cases j) (auto split: if_splits)
qed simp

lemma stream_same_file:
  assumes "Suc i < length (stream k files)"
    and "sp_file_id (snd (stream k files ! i)) \<noteq> NON_TOKEN"
    and "sp_file_id (snd (stream k files ! Suc i)) \<noteq> NON_TOKEN"
  shows "sp_file_id (snd (stream k files ! Suc i)) = sp_file_id (snd (stream k files ! i))"
  using assms
proof (induction files arbitrary: k i)
  case (Cons f files)
  define m where "m = length (zip (pf_lexemes f) (pf_spans f))"
  have len: "length (file_stream k f) = Suc m" by (simp add: file_stream_def m_def)
  have tok: "sp_file_id (snd (file_stream k f ! j)) = of_nat k" if "j < m" for j
    using that by (simp add: file_stream_def nth_append split_beta m_def)
  have sep: "sp_file_id (snd (file_stream k f ! m)) = NON_TOKEN"
    by (simp add: file_stream_def nth_append non_token_span_def m_def)
  consider "Suc i < m" | "Suc i = m" | "i = m" | "m < i" by linarith
  then show ?case
  proof cases
    case 4
    then obtain d where "i = Suc m + d" using less_iff_Suc_add by auto
    with Cons.IH [of d "Suc k"] Cons.prems show ?thesis by (simp add: nth_append len)
  qed (use Cons.prems tok [of i] tok [of "Suc i"] sep in \<open>simp_all add: nth_append len\<close>)
qed simp

text \<open>Two positions of the buffer that agree hold the same raw code.\<close>

lemma build_master_nth_eq:
  assumes "i < length (stream 0 files)" and "j < length (stream 0 files)"
  shows "ma_text (build_master files) ! i = ma_text (build_master files) ! j
    \<longleftrightarrow> fst (stream 0 files ! i) = fst (stream 0 files ! j)"
proof -
  obtain da where da: "dense_inv da"
      "relabels da (map fst (stream 0 files)) (ma_text (build_master files))"
    using build_master_relabels .
  have "id_of da (fst (stream 0 files ! l)) = Some (ma_text (build_master files) ! l)"
    if "l < length (stream 0 files)" for l
    using list_all2_nthD [OF da(2) [unfolded relabels_def], of l] that by simp
  then show ?thesis
    using assms da(1) by (metis dense_inv_def domI inj_on_def option.inject)
qed

lemma build_master_length [simp]:
  "length (ma_text (build_master files)) = length (stream 0 files)"
  "length (ma_spans (build_master files)) = length (stream 0 files)"
  using build_master_relabels [of files]
  by (metis length_map list_all2_lengthD relabels_def)+


text \<open>A run shared by two places holds no separator and stays in one file.\<close>

definition one_file_run :: "token_span list \<Rightarrow> nat \<Rightarrow> nat \<Rightarrow> bool" where
  "one_file_run spans p len \<longleftrightarrow> list_all
     (\<lambda>sp. sp_file_id sp \<noteq> NON_TOKEN \<and> sp_file_id sp = sp_file_id (spans ! p)) (take len (drop p spans))"

lemma one_file_run_nth:
  "p + len \<le> length spans \<Longrightarrow> one_file_run spans p len \<longleftrightarrow>
     (\<forall>i<len. sp_file_id (spans ! (p + i)) \<noteq> NON_TOKEN \<and> sp_file_id (spans ! (p + i)) = sp_file_id (spans ! p))"
  by (simp add: one_file_run_def list_all_length)

lemma shared_run_token:
  assumes valid: "valid_cohort files" and "p \<noteq> q"
    and "p + i < length (stream 0 files)" and "q + i < length (stream 0 files)"
    and eq: "ma_text (build_master files) ! (p + i) = ma_text (build_master files) ! (q + i)"
  shows "sp_file_id (ma_spans (build_master files) ! (p + i)) \<noteq> NON_TOKEN"
proof
  let ?raw = "map fst (stream 0 files)"
  assume "sp_file_id (ma_spans (build_master files) ! (p + i)) = NON_TOKEN"
  then have "sp_file_id (snd (stream 0 files ! (p + i))) = NON_TOKEN"
    using build_master_relabels [of files] assms(3) by (metis nth_map)
  then have "is_mark (?raw ! (p + i))"
    using valid stream_marks(2) [of files 0 "stream 0 files ! (p + i)"] assms(3)
    by (simp add: valid_cohort_def)
  moreover have "?raw ! (p + i) = ?raw ! (q + i)"
    using eq assms(3,4) by (simp add: build_master_nth_eq)
  ultimately have "p + i = q + i"
    using distinct_filter_nth [OF stream_marks_distinct [OF valid], of "p + i" "q + i"] assms(3,4)
    by simp
  with \<open>p \<noteq> q\<close> show False by simp
qed

lemma build_master_same_file:
  assumes "Suc i < length (stream 0 files)"
    and "sp_file_id (ma_spans (build_master files) ! i) \<noteq> NON_TOKEN"
    and "sp_file_id (ma_spans (build_master files) ! Suc i) \<noteq> NON_TOKEN"
  shows "sp_file_id (ma_spans (build_master files) ! Suc i) = sp_file_id (ma_spans (build_master files) ! i)"
proof -
  have "ma_spans (build_master files) = map snd (stream 0 files)"
    using build_master_relabels [of files] by blast
  with assms stream_same_file [of i 0 files] show ?thesis by simp
qed

lemma shared_run_in_one_file':
  assumes "valid_cohort files" and "p \<noteq> q"
    and "p + len \<le> length (ma_text (build_master files))"
    and "q + len \<le> length (ma_text (build_master files))"
    and "take len (drop p (ma_text (build_master files))) = take len (drop q (ma_text (build_master files)))"
  shows "one_file_run (ma_spans (build_master files)) p len"
proof -
  let ?sp = "ma_spans (build_master files)"
  have eq: "ma_text (build_master files) ! (p + i) = ma_text (build_master files) ! (q + i)" if "i < len" for i
    using arg_cong [OF assms(5), of "\<lambda>xs. xs ! i"] that assms(3,4) by simp
  have tok: "sp_file_id (?sp ! (p + i)) \<noteq> NON_TOKEN" if "i < len" for i
    using shared_run_token [OF assms(1,2)] eq [OF that] that assms(3,4) by simp
  have "sp_file_id (?sp ! (p + i)) = sp_file_id (?sp ! p)" if "i < len" for i
    using that
  proof (induction i)
    case (Suc i)
    then show ?case
      using build_master_same_file [of "p + i" files] tok [of i] tok [of "Suc i"] assms(3) by simp
  qed simp
  with tok assms(3) show ?thesis by (simp add: one_file_run_nth)
qed

section \<open>Properties\<close>

text \<open>C6: The buffer is the cohort's code stream (each file's codes, then its separator, then the
  terminator 0) under a bijective relabelling onto a gap-free alphabet \<open>0..<K\<close> that pins the
  terminator to 0, with the span of every code beside it.\<close>

theorem build_master_dense:
  "\<exists>f. ma_text (build_master files) = map f (map fst (stream 0 files))
     \<and> inj_on f (set (map fst (stream 0 files))) \<and> f 0 = 0
     \<and> set (ma_text (build_master files)) = {0..<int (card (set (map fst (stream 0 files))))}
     \<and> ma_spans (build_master files) = map snd (stream 0 files)"
proof -
  let ?raw = "map fst (stream 0 files)"
  obtain da where da: "dense_inv da" "relabels da ?raw (ma_text (build_master files))"
      "ma_spans (build_master files) = map snd (stream 0 files)" "set ?raw = dom (id_of da)"
    using build_master_relabels .
  let ?f = "the \<circ> id_of da"
  have buf: "ma_text (build_master files) = map ?f ?raw"
    using da(2) by (auto simp: relabels_def list_all2_conv_all_nth intro!: nth_equalityI)
  have inj: "inj_on ?f (set ?raw)"
    using da(1,4) by (auto simp: dense_inv_def inj_on_def dom_def)
  have "?f ` dom (id_of da) = ran (id_of da)"
    by (auto simp: ran_def dom_def intro!: image_eqI)
  then have ran: "set (ma_text (build_master files)) = {0..<da_next da}"
    using da(1,4) by (simp only: buf set_map dense_inv_def)
  then have "?f ` set ?raw = {0..<da_next da}"
    by (simp only: buf set_map)
  then have "card (set ?raw) = card {0..<da_next da}"
    using card_image [OF inj] by (simp only:)
  then have "int (card (set ?raw)) = da_next da"
    using da(1) unfolding dense_inv_def card_atLeastLessThan_int by linarith
  then show ?thesis
    using buf inj ran da(1,3) by (intro exI [of _ ?f]) (simp add: dense_inv_def)
qed

text \<open>C5: Clones never cross a file boundary: when two different positions of the master buffer
  carry the same run of codes, the run holds no separator and all its tokens belong to one file.\<close>

theorem shared_run_in_one_file:
  assumes "valid_cohort files" and "p \<noteq> q"
    and "p + len \<le> length (ma_text (build_master files))"
    and "q + len \<le> length (ma_text (build_master files))"
    and "take len (drop p (ma_text (build_master files))) = take len (drop q (ma_text (build_master files)))"
  shows "one_file_run (ma_spans (build_master files)) p len"
  using assms by (rule shared_run_in_one_file')

definition sample_file :: "u64 list \<Rightarrow> parsed_file" where
  "sample_file codes = \<lparr>pf_path = [], pf_language = Python, pf_lines = 0,
     pf_walked = empty_walked\<lparr>wk_syntax := \<lparr>sy_tokens = [],
       sy_spans = map (\<lambda>i. \<lparr>sp_file_id = 0, sp_start_row = of_nat i, sp_end_row = of_nat i,
         sp_start_byte = of_nat i, sp_end_byte = of_nat i\<rparr>) [0..<length codes],
       sy_lexemes = codes\<rparr>\<rparr>, pf_is_generated = False, pf_runs_as_program = False\<rparr>"

theorem shared_run_in_one_file_witness:
  "one_file_run (ma_spans (build_master [sample_file [20, 21], sample_file [20, 21]])) 0 2"
  by (rule shared_run_in_one_file [of _ 0 3 2])
     (simp_all add: valid_cohort_def token_code_def build_master_def sample_file_def empty_walked_def
       dense_new_def dense_id_def SEP_BASE_def upt_rec)

end
