(* ===== verification/Clones.thy ===== *)
theory Clones
  imports Flatten
begin

text \<open>
  Suffix-array clone extraction, \<open>src/noze/duplication/clones.rs\<close>: Kasai's algorithm for the
  LCP array and the bottom-up walk over the LCP intervals. The suffix sorters of the crates
  \<open>libsais\<close> and \<open>bio\<close> are parameters; what the code relies on is \<open>is_suffix_array\<close>, the
  documented result of both. The stack of the walk is a list with its top first; the specification
  speaks of the suffixes that share a prefix.
\<close>

section \<open>The code\<close>

record raw_group =
  rg_len :: usize
  rg_positions :: "usize list"

datatype nesting = Outermost | Seeded usize

text \<open>\<open>PrefixScan::common_len\<close>, which extends the length it still holds.\<close>

function common_len :: "int list \<Rightarrow> usize \<Rightarrow> usize \<Rightarrow> usize \<Rightarrow> usize" where
  "common_len buf left right len =
     (if left + len < length buf \<and> right + len < length buf \<and> buf ! (left + len) = buf ! (right + len)
      then common_len buf left right (len + 1) else len)"
  by pat_completeness auto
termination
  by (relation "measure (\<lambda>(buf, left, right, len). length buf - (left + len))") auto

declare common_len.simps [simp del]

definition kasai_rank :: "usize \<Rightarrow> usize list \<Rightarrow> usize list" where
  "kasai_rank n sa = fold (\<lambda>(r, p) rank. rank[p := r]) (enumerate 0 sa) (replicate n 0)"

definition kasai_step ::
  "int list \<Rightarrow> usize list \<Rightarrow> usize list \<Rightarrow> usize \<Rightarrow> usize list \<times> usize \<Rightarrow> usize list \<times> usize" where
  "kasai_step buf sa rank p st = (case st of (lcp, scan) \<Rightarrow>
     if rank ! p = 0 then (lcp, 0)
     else let pred = sa ! (rank ! p - 1); len = common_len buf p pred scan
          in (lcp[rank ! p := len], len - 1))"

definition kasai :: "int list \<Rightarrow> usize list \<Rightarrow> usize list" where
  "kasai buf sa = (let n = length buf; rank = kasai_rank n sa
     in fst (fold (kasai_step buf sa rank) [0..<n] (replicate n 0, 0)))"

definition can_be_disjoint :: "usize list \<Rightarrow> usize \<Rightarrow> bool" where
  "can_be_disjoint positions len =
     (let s = sort positions in list_all (\<lambda>(a, b). b - a \<ge> len) (zip s (tl s)))"

definition prev_token :: "int list \<Rightarrow> usize \<Rightarrow> int" where
  "prev_token buf p = (if p = 0 then -1 else buf ! (p - 1))"

definition is_left_maximal :: "int list \<Rightarrow> usize list \<Rightarrow> bool" where
  "is_left_maximal buf positions =
     (let first = prev_token buf (positions ! 0)
      in list_ex (\<lambda>p. prev_token buf p \<noteq> first) positions)"

definition is_reported :: "nesting \<Rightarrow> usize \<Rightarrow> usize \<Rightarrow> usize \<Rightarrow> usize list \<Rightarrow> bool" where
  "is_reported nest min_len parent len positions \<longleftrightarrow>
     parent < min_len \<or> (case nest of
         Outermost \<Rightarrow> False
       | Seeded report_len \<Rightarrow> parent < report_len \<or> can_be_disjoint positions len)"

type_synonym interval_stack = "(usize \<times> usize) list"

text \<open>The inner loop of \<open>extract\<close>: pop every interval longer than \<open>cur\<close>.\<close>

fun pop_intervals ::
  "int list \<Rightarrow> usize list \<Rightarrow> usize \<Rightarrow> nesting \<Rightarrow> usize \<Rightarrow> usize \<Rightarrow> usize \<Rightarrow> interval_stack
    \<Rightarrow> raw_group list \<Rightarrow> usize \<times> interval_stack \<times> raw_group list" where
  "pop_intervals buf sa min_len nest i cur lb [] groups = (lb, [], groups)"
| "pop_intervals buf sa min_len nest i cur lb ((len, left) # stack) groups =
     (if \<not> cur < len then (lb, (len, left) # stack, groups)
      else if len < min_len then pop_intervals buf sa min_len nest i cur left stack groups
      else
        let parent = (case stack of [] \<Rightarrow> cur | (top_len, l) # rest \<Rightarrow> max top_len cur);
            positions = take (i - left) (drop left sa);
            groups' = (if is_reported nest min_len parent len positions \<and> is_left_maximal buf positions
                       then groups @ [\<lparr>rg_len = len, rg_positions = positions\<rparr>] else groups)
        in pop_intervals buf sa min_len nest i cur left stack groups')"

definition walk_step ::
  "int list \<Rightarrow> usize list \<Rightarrow> usize list \<Rightarrow> usize \<Rightarrow> nesting \<Rightarrow> usize
    \<Rightarrow> interval_stack \<times> raw_group list \<Rightarrow> interval_stack \<times> raw_group list" where
  "walk_step buf sa lcp min_len nest i st = (case st of (stack, groups) \<Rightarrow>
     let cur = (if i < length lcp then lcp ! i else 0);
         (lb, stack', groups') = pop_intervals buf sa min_len nest i cur (i - 1) stack groups
     in (case stack' of
           [] \<Rightarrow> (stack', groups')
         | (len, l) # rest \<Rightarrow> (if cur > len then (cur, lb) # stack' else stack', groups')))"

definition build_suffix_array ::
  "(int list \<Rightarrow> string + int list) \<Rightarrow> (nat list \<Rightarrow> nat list) \<Rightarrow> int list \<Rightarrow> usize list" where
  "build_suffix_array libsais bio buf = (case libsais buf of
       Inr sa \<Rightarrow> map nat sa
     | Inl err \<Rightarrow> bio (map nat buf))"

definition extract_with :: "usize list \<Rightarrow> int list \<Rightarrow> usize \<Rightarrow> nesting \<Rightarrow> raw_group list" where
  "extract_with sa buf min_len nest =
     snd (fold (walk_step buf sa (kasai buf sa) min_len nest) [1..<Suc (length buf)] ([(0, 0)], []))"

definition extract_groups ::
  "(int list \<Rightarrow> string + int list) \<Rightarrow> (nat list \<Rightarrow> nat list) \<Rightarrow> int list \<Rightarrow> usize \<Rightarrow> nesting
    \<Rightarrow> raw_group list" where
  "extract_groups libsais bio buf min_len nest =
     (if length buf < 2 \<or> min_len = 0 then []
      else extract_with (build_suffix_array libsais bio buf) buf min_len nest)"

section \<open>Common prefixes\<close>

fun common :: "'a list \<Rightarrow> 'a list \<Rightarrow> nat" where
  "common (x # xs) (y # ys) = (if x = y then Suc (common xs ys) else 0)"
| "common _ _ = 0"

lemma common_commute: "common xs ys = common ys xs"
  by (induction xs ys rule: common.induct) (auto split: if_splits)

lemma common_refl [simp]: "common xs xs = length xs"
  by (induction xs) auto

lemma le_common_iff: "k \<le> common xs ys \<longleftrightarrow> k \<le> length xs \<and> k \<le> length ys \<and> take k xs = take k ys"
proof (induction xs ys arbitrary: k rule: common.induct)
  case (1 x xs y ys)
  then show ?case by (cases k) auto
qed auto

lemma common_le: "common xs ys \<le> length xs" "common xs ys \<le> length ys"
  using le_common_iff [of "common xs ys" xs ys] by auto

lemma common_trans: "k \<le> common xs ys \<Longrightarrow> k \<le> common ys zs \<Longrightarrow> k \<le> common xs zs"
  by (simp add: le_common_iff)

text \<open>Between two lists that share a prefix, every list shares it.\<close>

lemma common_sandwich:
  fixes xs :: "'a::linorder list"
  assumes "xs \<le> ys" and "ys \<le> zs"
  shows "common xs zs \<le> common ys zs" and "common xs zs \<le> common xs ys"
  using assms
proof (induction xs zs arbitrary: ys rule: common.induct)
  case (1 x xs z zs)
  { case 1 with "1.IH" show ?case by (cases ys) auto }
  { case 2 with "1.IH" show ?case by (cases ys) auto }
qed auto

lemma common_drop_Suc:
  assumes "Suc k \<le> common (drop p xs) (drop q xs)"
  shows "common (drop p xs) (drop q xs) = Suc (common (drop (Suc p) xs) (drop (Suc q) xs))"
    and "p < length xs" and "q < length xs" and "xs ! p = xs ! q"
proof -
  show p: "p < length xs" and q: "q < length xs"
    using assms common_le [of "drop p xs" "drop q xs"] by auto
  show "common (drop p xs) (drop q xs) = Suc (common (drop (Suc p) xs) (drop (Suc q) xs))"
    and "xs ! p = xs ! q"
    using assms by (auto simp: Cons_nth_drop_Suc [OF p, symmetric] Cons_nth_drop_Suc [OF q, symmetric]
        split: if_splits)
qed

lemma common_len_eq:
  assumes "len \<le> common (drop p buf) (drop q buf)"
  shows "common_len buf p q len = common (drop p buf) (drop q buf)"
  using assms
proof (induction "length buf - (p + len)" arbitrary: len rule: less_induct)
  case less
  let ?c = "common (drop p buf) (drop q buf)"
  have step: "Suc len \<le> ?c \<longleftrightarrow>
      p + len < length buf \<and> q + len < length buf \<and> buf ! (p + len) = buf ! (q + len)"
    using less.prems by (auto simp: le_common_iff take_Suc_conv_app_nth less_diff_conv add.commute)
  show ?case
  proof (cases "Suc len \<le> ?c")
    case True
    then have "common_len buf p q (len + 1) = ?c"
      using step by (intro less.hyps) auto
    then show ?thesis using step True by (subst common_len.simps) simp
  next
    case False
    then show ?thesis using step less.prems by (subst common_len.simps) auto
  qed
qed

section \<open>Suffix arrays\<close>

text \<open>The documented result of a suffix sorter: the positions of the text, by ascending suffix.\<close>

definition is_suffix_array :: "int list \<Rightarrow> usize list \<Rightarrow> bool" where
  "is_suffix_array buf sa \<longleftrightarrow> mset sa = mset [0..<length buf]
     \<and> sorted_wrt (\<lambda>p q. drop p buf < drop q buf) sa"

text \<open>What the two positions of neighbouring suffixes share; 0 outside the array.\<close>

definition lcp_at :: "int list \<Rightarrow> usize list \<Rightarrow> usize \<Rightarrow> nat" where
  "lcp_at buf sa r =
     (if 0 < r \<and> r < length sa then common (drop (sa ! (r - 1)) buf) (drop (sa ! r) buf) else 0)"

lemma is_suffix_arrayD:
  assumes "is_suffix_array buf sa"
  shows "length sa = length buf" and "set sa = {0..<length buf}" and "distinct sa"
    and "i < j \<Longrightarrow> j < length sa \<Longrightarrow> drop (sa ! i) buf < drop (sa ! j) buf"
proof -
  have m: "mset sa = mset [0..<length buf]" and s: "sorted_wrt (\<lambda>p q. drop p buf < drop q buf) sa"
    using assms by (auto simp: is_suffix_array_def)
  show "length sa = length buf" using mset_eq_length [OF m] by simp
  show "set sa = {0..<length buf}" using mset_eq_setD [OF m] by simp
  show "distinct sa" using mset_eq_imp_distinct_iff [OF m] by simp
  show "drop (sa ! i) buf < drop (sa ! j) buf" if "i < j" "j < length sa"
    using sorted_wrt_nth_less [OF s] that by blast
qed

lemma suffix_array_nth_less:
  "is_suffix_array buf sa \<Longrightarrow> i < length sa \<Longrightarrow> sa ! i < length buf"
  using is_suffix_arrayD(2) [of buf sa] nth_mem by fastforce

text \<open>The prefix shared by two suffixes of the array is the minimum of the entries between.\<close>

lemma common_interval:
  assumes sa: "is_suffix_array buf sa" and "i < j" and "j < length sa"
  shows "k \<le> common (drop (sa ! i) buf) (drop (sa ! j) buf) \<longleftrightarrow> (\<forall>r \<in> {i<..j}. k \<le> lcp_at buf sa r)"
  using assms(2,3)
proof (induction j)
  case (Suc j)
  let ?s = "\<lambda>x. drop (sa ! x) buf"
  have last: "lcp_at buf sa (Suc j) = common (?s j) (?s (Suc j))"
    using Suc.prems by (simp add: lcp_at_def)
  show ?case
  proof (cases "i = j")
    case True
    moreover have "{j<..Suc j} = {Suc j}" by auto
    ultimately show ?thesis using last by simp
  next
    case False
    with Suc.prems have ij: "i < j" "j < length sa" by auto
    have le: "?s i \<le> ?s j" "?s j \<le> ?s (Suc j)"
      using is_suffix_arrayD(4) [OF sa] ij Suc.prems by (simp_all add: order.strict_implies_order)
    have "k \<le> common (?s i) (?s (Suc j)) \<longleftrightarrow> k \<le> common (?s i) (?s j) \<and> k \<le> common (?s j) (?s (Suc j))"
      using common_sandwich [OF le] common_trans [of k "?s i" "?s j" "?s (Suc j)"] by linarith
    moreover have "{i<..Suc j} = insert (Suc j) {i<..j}" using ij by auto
    ultimately show ?thesis using Suc.IH [OF ij] last by auto
  qed
qed simp

section \<open>Kasai's algorithm\<close>

lemma kasai_rank_fold:
  assumes "distinct ps" and "set ps \<subseteq> {0..<length rank}" and "i < length ps"
  shows "fold (\<lambda>(r, p) rank. rank[p := r]) (enumerate k ps) rank ! (ps ! i) = k + i"
  using assms
proof (induction ps arbitrary: k rank i)
  case (Cons p ps)
  have keep: "fold (\<lambda>(r, p) rank. rank[p := r]) (enumerate m qs) rk ! q = rk ! q"
    if "q \<notin> set qs" for qs q m and rk :: "nat list"
    using that by (induction qs arbitrary: m rk) auto
  show ?case
  proof (cases i)
    case 0
    then show ?thesis using Cons.prems keep [of p ps "Suc k" "rank[p := k]"] by simp
  next
    case (Suc j)
    then show ?thesis using Cons.IH [of "rank[p := k]" j "Suc k"] Cons.prems by simp
  qed
qed simp

lemma kasai_rank_nth:
  assumes "is_suffix_array buf sa" and "i < length buf"
  shows "kasai_rank (length buf) sa ! (sa ! i) = i"
  using kasai_rank_fold [of sa "replicate (length buf) 0" i 0] is_suffix_arrayD(1-3) [OF assms(1)] assms(2)
  by (simp add: kasai_rank_def)

lemma kasai_rank_inverse:
  assumes "is_suffix_array buf sa" and "p < length buf"
  shows "kasai_rank (length buf) sa ! p < length buf" and "sa ! (kasai_rank (length buf) sa ! p) = p"
proof -
  obtain i where "i < length buf" "sa ! i = p"
    using is_suffix_arrayD(1,2) [OF assms(1)] assms(2) by (metis atLeastLessThan_iff in_set_conv_nth le0)
  then show "kasai_rank (length buf) sa ! p < length buf" and "sa ! (kasai_rank (length buf) sa ! p) = p"
    using kasai_rank_nth [OF assms(1)] by auto
qed

text \<open>Dropping the first token of two neighbours loses at most that one token of the shared
  prefix, because the shortened predecessor still sorts before.\<close>

lemma kasai_carry:
  assumes sa: "is_suffix_array buf sa"
    and p: "Suc p < length buf" and r: "sa ! Suc r = p" "Suc r < length buf"
    and r': "sa ! Suc r' = Suc p" "Suc r' < length buf"
  shows "common (drop p buf) (drop (sa ! r) buf) - 1 \<le> common (drop (Suc p) buf) (drop (sa ! r') buf)"
proof (cases "common (drop p buf) (drop (sa ! r) buf) - 1")
  case (Suc k)
  let ?q = "sa ! r"
  have len: "length sa = length buf" by (rule is_suffix_arrayD(1) [OF sa])
  have lt: "drop ?q buf < drop p buf" using is_suffix_arrayD(4) [OF sa, of r "Suc r"] r len by simp
  have ge: "Suc (Suc k) \<le> common (drop p buf) (drop ?q buf)" using Suc by simp
  note step = common_drop_Suc [of "Suc k" p buf ?q, OF ge]
  have ge': "Suc k \<le> common (drop (Suc p) buf) (drop (Suc ?q) buf)" using ge step(1) by simp
  then have "Suc ?q < length buf"
    using common_le(2) [of "drop (Suc p) buf" "drop (Suc ?q) buf"] by simp
  then obtain x where x: "x < length buf" "sa ! x = Suc ?q"
    using kasai_rank_inverse [OF sa] by blast
  have "drop (Suc ?q) buf < drop (Suc p) buf"
    using lt step(2-4) by (simp add: Cons_nth_drop_Suc [OF step(2), symmetric]
        Cons_nth_drop_Suc [OF step(3), symmetric])
  then have "x < Suc r'"
    using is_suffix_arrayD(4) [OF sa, of "Suc r'" x] x r' len
    by (metis linorder_neqE_nat order_less_asym)
  then have "drop (Suc ?q) buf \<le> drop (sa ! r') buf"
    using is_suffix_arrayD(4) [OF sa, of x r'] x r' len
    by (metis Suc_lessD less_Suc_eq order.strict_implies_order order_refl)
  moreover have "drop (sa ! r') buf \<le> drop (Suc p) buf"
    using is_suffix_arrayD(4) [OF sa, of r' "Suc r'"] r' len by (simp add: order.strict_implies_order)
  ultimately have "common (drop (Suc ?q) buf) (drop (Suc p) buf) \<le> common (drop (sa ! r') buf) (drop (Suc p) buf)"
    by (rule common_sandwich(1))
  then show ?thesis
    using step(1) by (simp add: common_commute)
qed simp

definition kasai_inv :: "int list \<Rightarrow> usize list \<Rightarrow> usize \<Rightarrow> usize list \<times> usize \<Rightarrow> bool" where
  "kasai_inv buf sa p st = (case st of (lcp, scan) \<Rightarrow>
     length lcp = length buf
     \<and> (\<forall>q<p. lcp ! (kasai_rank (length buf) sa ! q) = lcp_at buf sa (kasai_rank (length buf) sa ! q))
     \<and> (p < length buf \<longrightarrow> scan = 0 \<or> kasai_rank (length buf) sa ! p = 0
          \<or> scan \<le> common (drop p buf) (drop (sa ! (kasai_rank (length buf) sa ! p - 1)) buf))
     \<and> (\<forall>q. p \<le> q \<and> q < length buf \<longrightarrow> lcp ! (kasai_rank (length buf) sa ! q) = 0))"

lemma kasai_step_inv:
  assumes sa: "is_suffix_array buf sa" and p: "p < length buf" and inv: "kasai_inv buf sa p st"
  shows "kasai_inv buf sa (Suc p) (kasai_step buf sa (kasai_rank (length buf) sa) p st)"
proof -
  obtain lcp scan where st: "st = (lcp, scan)" by (cases st)
  let ?rank = "\<lambda>q. kasai_rank (length buf) sa ! q"
  have rank_inj: "?rank q = ?rank p \<longleftrightarrow> q = p" if "q < length buf" for q
    using kasai_rank_inverse(2) [OF sa] that p by metis
  have rank_lt: "?rank q < length buf" if "q < length buf" for q
    using kasai_rank_inverse(1) [OF sa that] .
  have len: "length sa = length buf" by (rule is_suffix_arrayD(1) [OF sa])
  show ?thesis
  proof (cases "?rank p")
    case 0
    then show ?thesis
      using inv by (auto simp: kasai_inv_def kasai_step_def st lcp_at_def less_Suc_eq)
        (metis le_refl p)
  next
    case (Suc r)
    let ?c = "common (drop p buf) (drop (sa ! r) buf)"
    have "common_len buf p (sa ! r) scan = ?c"
      using inv Suc p by (intro common_len_eq) (auto simp: kasai_inv_def st)
    moreover have "lcp_at buf sa (Suc r) = ?c"
      using Suc rank_lt [OF p] len kasai_rank_inverse(2) [OF sa p] by (simp add: lcp_at_def common_commute)
    moreover have "?c - 1 \<le> common (drop (Suc p) buf) (drop (sa ! (?rank (Suc p) - 1)) buf)"
      if "Suc p < length buf" "?rank (Suc p) \<noteq> 0"
      using kasai_carry [OF sa that(1), of r "?rank (Suc p) - 1"] that Suc rank_lt p
        kasai_rank_inverse(2) [OF sa] by (metis Suc_pred' bot_nat_0.not_eq_extremum)
    moreover have "kasai_step buf sa (kasai_rank (length buf) sa) p st = (lcp[Suc r := ?c], ?c - 1)"
      using calculation(1) Suc by (simp add: kasai_step_def st Let_def)
    moreover have "lcp[Suc r := ?c] ! ?rank q = (if q = p then ?c else lcp ! ?rank q)" if "q < length buf" for q
      using inv Suc rank_inj [OF that] rank_lt [OF p] by (auto simp: kasai_inv_def st nth_list_update)
    ultimately show ?thesis
      using inv Suc p rank_lt [OF p] by (auto simp: kasai_inv_def st less_Suc_eq)
  qed
qed

lemma kasai_nth:
  assumes sa: "is_suffix_array buf sa"
  shows "length (kasai buf sa) = length buf"
    and "r < length buf \<Longrightarrow> kasai buf sa ! r = lcp_at buf sa r"
proof -
  let ?init = "(replicate (length buf) 0, 0)"
  have step: "kasai_inv buf sa p (fold (kasai_step buf sa (kasai_rank (length buf) sa)) [0..<p] ?init)"
    if "p \<le> length buf" for p
    using that
  proof (induction p)
    case 0
    then show ?case
      using kasai_rank_inverse(1) [OF sa] by (simp add: kasai_inv_def)
  next
    case (Suc p)
    then show ?case using kasai_step_inv [OF sa, of p] by simp
  qed
  obtain lcp scan where fold: "fold (kasai_step buf sa (kasai_rank (length buf) sa)) [0..<length buf] ?init = (lcp, scan)"
    by fastforce
  have inv: "kasai_inv buf sa (length buf) (lcp, scan)" using step [of "length buf"] by (simp add: fold)
  then show "length (kasai buf sa) = length buf"
    by (simp add: kasai_def fold kasai_inv_def Let_def)
  show "kasai buf sa ! r = lcp_at buf sa r" if "r < length buf"
  proof -
    have "sa ! r < length buf" using suffix_array_nth_less [OF sa] is_suffix_arrayD(1) [OF sa] that by simp
    then show ?thesis
      using inv kasai_rank_nth [OF sa that] by (auto simp: kasai_def fold kasai_inv_def Let_def)
  qed
qed

section \<open>The interval walk\<close>

text \<open>A maximal interval of the LCP array: the entries strictly inside \<open>(b, i)\<close> are at least
  \<open>l\<close>, one of them is \<open>l\<close>, and both borders are smaller.\<close>

definition max_interval :: "(nat \<Rightarrow> nat) \<Rightarrow> nat \<Rightarrow> nat \<Rightarrow> nat \<Rightarrow> bool" where
  "max_interval L b i l \<longleftrightarrow> b < i \<and> L b < l \<and> L i < l \<and> (\<forall>r \<in> {b<..<i}. l \<le> L r) \<and> (\<exists>j \<in> {b<..<i}. L j = l)"

text \<open>The stack after position \<open>i\<close>, top first: the intervals still open there.\<close>

fun open_stack :: "(nat \<Rightarrow> nat) \<Rightarrow> nat \<Rightarrow> interval_stack \<Rightarrow> bool" where
  "open_stack L i [] = False"
| "open_stack L i [(l, b)] = (l = 0 \<and> b = 0 \<and> L i = 0)"
| "open_stack L i ((l, b) # st) =
     (l = L i \<and> b < i \<and> (\<forall>r \<in> {b<..i}. l \<le> L r) \<and> L b < l \<and> open_stack L b st)"

lemma open_stack_top:
  "open_stack L i st \<Longrightarrow> \<exists>b rest. st = (L i, b) # rest"
  by (induction L i st rule: open_stack.induct) auto

text \<open>Every interval that is open at \<open>i\<close> is on the stack.\<close>

lemma open_stack_complete:
  assumes "open_stack L i st" and "b < i" and "L b < l"
    and "\<forall>r \<in> {b<..i}. l \<le> L r" and "\<exists>j \<in> {b<..i}. L j = l"
  shows "(l, b) \<in> set st"
  using assms
proof (induction L i st rule: open_stack.induct)
  case (2 L i l0 b0)
  then have "i \<in> {b<..i}" by simp
  with 2(4) have "l \<le> L i" by blast
  with 2 show ?case by simp
next
  case (3 L i l0 b0 s st)
  from "3.prems"(1) have st: "l0 = L i" "b0 < i" "\<forall>r \<in> {b0<..i}. l0 \<le> L r" "L b0 < l0"
    "open_stack L b0 (s # st)" by auto
  have "l \<le> L i" using "3.prems"(2,4) by auto
  consider "b = b0" | "b0 < b" | "b < b0" by linarith
  then show ?case
  proof cases
    case 1
    obtain j where "j \<in> {b<..i}" "L j = l" using "3.prems"(5) by blast
    then have "l0 \<le> l" using st(3) 1 by auto
    then show ?thesis using 1 st(1) \<open>l \<le> L i\<close> by simp
  next
    case 2
    then have "l0 \<le> L b" using st(3) "3.prems"(2) by simp
    then show ?thesis using \<open>l \<le> L i\<close> st(1) "3.prems"(3) by simp
  next
    case 3
    then have "l \<le> L b0" using "3.prems"(4) st(2) by simp
    obtain j where j: "j \<in> {b<..i}" "L j = l" using "3.prems"(5) by blast
    have "j \<le> b0"
    proof (rule ccontr)
      assume "\<not> j \<le> b0"
      then have "l0 \<le> L j" using st(3) j(1) by simp
      then show False using j(2) \<open>l \<le> L b0\<close> st(4) by simp
    qed
    then show ?thesis
      using "3.IH" [OF st(5) 3 "3.prems"(3)] "3.prems"(4) st(2) j by force
  qed
qed simp

text \<open>One inner loop: \<open>j\<close> is the left end of the last popped interval.\<close>

definition accepts :: "int list \<Rightarrow> usize list \<Rightarrow> usize \<Rightarrow> nesting \<Rightarrow> (nat \<Rightarrow> nat) \<Rightarrow> nat \<Rightarrow> nat \<Rightarrow> nat \<Rightarrow> bool" where
  "accepts buf sa min_len nest L b i l \<longleftrightarrow> min_len \<le> l
     \<and> is_reported nest min_len (max (L b) (L i)) l (take (i - b) (drop b sa))
     \<and> is_left_maximal buf (take (i - b) (drop b sa))"

definition interval_group :: "usize list \<Rightarrow> nat \<Rightarrow> nat \<Rightarrow> nat \<Rightarrow> raw_group" where
  "interval_group sa b i l = \<lparr>rg_len = l, rg_positions = take (i - b) (drop b sa)\<rparr>"

definition reported_at :: "int list \<Rightarrow> usize list \<Rightarrow> usize \<Rightarrow> nesting \<Rightarrow> (nat \<Rightarrow> nat) \<Rightarrow> nat \<Rightarrow> raw_group set" where
  "reported_at buf sa min_len nest L i =
     {interval_group sa b i l | b l. max_interval L b i l \<and> accepts buf sa min_len nest L b i l}"

lemma pop_intervals_spec:
  assumes "open_stack L j st" and "j < i" and "\<forall>r \<in> {j<..<i}. L j < L r \<and> cur < L r" and "cur = L i"
    and "pop_intervals buf sa min_len nest i cur j st gs = (lb, st', gs')"
  shows "open_stack L lb st' \<and> lb < i \<and> L lb \<le> cur \<and> (\<forall>r \<in> {lb<..<i}. L lb < L r \<and> cur < L r)
    \<and> set gs' = set gs \<union> {interval_group sa b i l | b l. (l, b) \<in> set st \<and> cur < l
        \<and> max_interval L b i l \<and> accepts buf sa min_len nest L b i l}"
  using assms
proof (induction L j st arbitrary: gs rule: open_stack.induct)
  case (2 L j l b)
  then show ?case by auto
next
  case (3 L j l b s st)
  from "3.prems"(1) have st: "l = L j" "b < j" "\<forall>r \<in> {b<..j}. l \<le> L r" "L b < l" "open_stack L b (s # st)"
    by auto
  obtain pl pb where s: "s = (L b, pb)" using open_stack_top [OF st(5)] by auto
  have below: "x < l" if "(x, y) \<in> set (s # st)" for x y
  proof -
    have "x \<le> L b" if "open_stack L b zs" "(x, y) \<in> set zs" for zs b
      using that by (induction L b zs rule: open_stack.induct) (fastforce+)
    then show ?thesis using st(4,5) that by fastforce
  qed
  show ?case
  proof (cases "cur < l")
    case False
    then show ?thesis using "3.prems" st below by fastforce
  next
    case True
    let ?ok = "l \<ge> min_len \<and> is_reported nest min_len (max (L b) cur) l (take (i - b) (drop b sa))
        \<and> is_left_maximal buf (take (i - b) (drop b sa))"
    define gs1 where "gs1 = (if ?ok then gs @ [interval_group sa b i l] else gs)"
    have rec: "pop_intervals buf sa min_len nest i cur b (s # st) gs1 = (lb, st', gs')"
      using "3.prems"(5) True s by (auto simp: gs1_def interval_group_def Let_def split: if_splits)
    have inner: "\<forall>r \<in> {b<..<i}. L b < L r \<and> cur < L r"
    proof
      fix r
      assume r: "r \<in> {b<..<i}"
      show "L b < L r \<and> cur < L r"
      proof (cases "r \<le> j")
        case le: True
        then have "l \<le> L r" using st(3) r by simp
        then show ?thesis using st(4) True by simp
      next
        case False
        then have "L j < L r" "cur < L r" using "3.prems"(3) r by auto
        then show ?thesis using st(1,4) by simp
      qed
    qed
    have IH: "open_stack L lb st' \<and> lb < i \<and> L lb \<le> cur \<and> (\<forall>r \<in> {lb<..<i}. L lb < L r \<and> cur < L r)
      \<and> set gs' = set gs1 \<union> {interval_group sa b i l | b l. (l, b) \<in> set (s # st) \<and> cur < l
        \<and> max_interval L b i l \<and> accepts buf sa min_len nest L b i l}"
      using "3.IH" [OF st(5) _ inner "3.prems"(4) rec] st(2) "3.prems"(2) by linarith
    have all: "\<forall>r \<in> {b<..<i}. l \<le> L r"
    proof
      fix r
      assume r: "r \<in> {b<..<i}"
      show "l \<le> L r"
      proof (cases "r \<le> j")
        case False
        then have "L j < L r" using "3.prems"(3) r by auto
        then show ?thesis using st(1) by simp
      qed (use st(3) r in simp)
    qed
    have "max_interval L b i l"
      using st all True "3.prems"(2,4) by (auto simp: max_interval_def)
    moreover have "?ok \<longleftrightarrow> accepts buf sa min_len nest L b i l"
      using "3.prems"(4) by (simp add: accepts_def)
    ultimately have "set gs1 = set gs \<union> {interval_group sa b i l | b' l'. (l', b') = (l, b)
        \<and> accepts buf sa min_len nest L b i l}"
      by (auto simp: gs1_def)
    then show ?thesis using IH True \<open>max_interval L b i l\<close> by auto
  qed
qed simp


text \<open>The whole walk over an array \<open>L\<close> that vanishes at both ends.\<close>

definition walk_inv ::
  "int list \<Rightarrow> usize list \<Rightarrow> usize \<Rightarrow> nesting \<Rightarrow> (nat \<Rightarrow> nat) \<Rightarrow> nat
    \<Rightarrow> interval_stack \<times> raw_group list \<Rightarrow> bool" where
  "walk_inv buf sa min_len nest L i st = (case st of (stack, groups) \<Rightarrow>
     open_stack L i stack \<and> set groups = (\<Union>k \<in> {1..i}. reported_at buf sa min_len nest L k))"

lemma walk_step_inv:
  assumes inv: "walk_inv buf sa min_len nest L i st"
    and cur: "(if Suc i < length lcp then lcp ! Suc i else 0) = L (Suc i)"
  shows "walk_inv buf sa min_len nest L (Suc i) (walk_step buf sa lcp min_len nest (Suc i) st)"
proof -
  obtain stack gs where st: "st = (stack, gs)" by (cases st)
  let ?cur = "L (Suc i)"
  have stack: "open_stack L i stack" using inv by (simp add: walk_inv_def st)
  obtain lb stack' gs' where pop:
    "pop_intervals buf sa min_len nest (Suc i) ?cur i stack gs = (lb, stack', gs')"
    by (cases "pop_intervals buf sa min_len nest (Suc i) ?cur i stack gs")
  have res: "open_stack L lb stack'" "lb < Suc i" "L lb \<le> ?cur" "\<forall>r \<in> {lb<..<Suc i}. L lb < L r \<and> ?cur < L r"
    "set gs' = set gs \<union> {interval_group sa b (Suc i) l | b l. (l, b) \<in> set stack \<and> ?cur < l
        \<and> max_interval L b (Suc i) l \<and> accepts buf sa min_len nest L b (Suc i) l}"
    using pop_intervals_spec [OF stack, of "Suc i" ?cur buf sa min_len nest gs lb stack' gs'] pop by auto
  have "(l, b) \<in> set stack" if "max_interval L b (Suc i) l" for b l
    using that by (intro open_stack_complete [OF stack])
      (auto simp: max_interval_def less_Suc_eq_le le_less greaterThanLessThan_def greaterThanAtMost_def)
  then have "(l, b) \<in> set stack \<and> ?cur < l \<and> max_interval L b (Suc i) l \<and> A
      \<longleftrightarrow> max_interval L b (Suc i) l \<and> A" for b l A
    unfolding max_interval_def by blast
  then have groups: "set gs' = set gs \<union> reported_at buf sa min_len nest L (Suc i)"
    unfolding res(5) reported_at_def by simp
  obtain b rest where top: "stack' = (L lb, b) # rest" using open_stack_top [OF res(1)] by auto
  define stack'' where "stack'' = (if L lb < ?cur then (?cur, lb) # stack' else stack')"
  have "open_stack L (Suc i) stack''"
  proof (cases "L lb < ?cur")
    case True
    then show ?thesis using res(1-4) top by (auto simp: stack''_def less_Suc_eq_le le_less)
  next
    case False
    then have eq: "L lb = ?cur" using res(3) by simp
    have after: "L lb \<le> L r" if "r \<in> {lb<..Suc i}" for r
      using res(4) that eq by (cases "r = Suc i") (force simp: less_imp_le)+
    show ?thesis
    proof (cases rest)
      case Nil
      then show ?thesis using res(1) top eq False by (simp add: stack''_def)
    next
      case (Cons s rest')
      have "L lb \<le> L r" if "r \<in> {b<..Suc i}" for r
        using after res(1) top Cons that by (cases "r \<le> lb") auto
      then show ?thesis using res(1,2) top eq False Cons by (auto simp: stack''_def)
    qed
  qed
  moreover have "walk_step buf sa lcp min_len nest (Suc i) st = (stack'', gs')"
    using pop top cur by (simp add: walk_step_def st stack''_def Let_def)
  moreover have "{1..Suc i} = insert (Suc i) {1..i}" by auto
  ultimately show ?thesis
    using inv groups by (auto simp: walk_inv_def st)
qed

lemma extract_with_set:
  assumes sa: "is_suffix_array buf sa"
  shows "set (extract_with sa buf min_len nest) =
    (\<Union>i \<in> {1..length buf}. reported_at buf sa min_len nest (lcp_at buf sa) i)"
proof -
  let ?L = "lcp_at buf sa" and ?f = "walk_step buf sa (kasai buf sa) min_len nest"
  have len: "length sa = length buf" by (rule is_suffix_arrayD(1) [OF sa])
  have "walk_inv buf sa min_len nest ?L i (fold ?f [1..<Suc i] ([(0, 0)], []))" for i
  proof (induction i)
    case 0
    then show ?case by (simp add: walk_inv_def lcp_at_def)
  next
    case (Suc i)
    have "(if Suc i < length (kasai buf sa) then kasai buf sa ! Suc i else 0) = ?L (Suc i)"
      using kasai_nth [OF sa] len by (simp add: lcp_at_def)
    from walk_step_inv [OF Suc.IH this] show ?case by simp
  qed
  from this [of "length buf"] show ?thesis
    by (auto simp: extract_with_def walk_inv_def split: prod.splits)
qed

end
