(* ===== verification/CloneSpec.thy ===== *)
theory CloneSpec
  imports Clones
begin

text \<open>
  What the groups of \<open>Clones.extract_groups\<close> mean in terms of the text: maximal classes of
  positions that share a prefix. The LCP intervals of the walk are translated into such classes,
  and the properties of the extraction are stated over the classes alone.
\<close>

section \<open>Classes of positions that share a prefix\<close>

definition sharing :: "int list \<Rightarrow> nat \<Rightarrow> usize \<Rightarrow> usize set" where
  "sharing buf k p = {q \<in> {..<length buf}. k \<le> common (drop p buf) (drop q buf)}"

definition shared_len :: "int list \<Rightarrow> usize set \<Rightarrow> nat" where
  "shared_len buf C = Min ((\<lambda>(p, q). common (drop p buf) (drop q buf)) ` (C \<times> C))"

definition left_diverse :: "int list \<Rightarrow> usize set \<Rightarrow> bool" where
  "left_diverse buf C \<longleftrightarrow> (\<exists>p \<in> C. \<exists>q \<in> C. prev_token buf p \<noteq> prev_token buf q)"

lemma is_left_maximal_iff:
  "ps \<noteq> [] \<Longrightarrow> is_left_maximal buf ps \<longleftrightarrow> left_diverse buf (set ps)"
  unfolding is_left_maximal_def left_diverse_def Let_def list_ex_iff
  by (metis length_greater_0_conv nth_mem)

lemma left_diverse_two: "left_diverse buf C \<Longrightarrow> \<exists>p \<in> C. \<exists>q \<in> C. p \<noteq> q"
  unfolding left_diverse_def by metis

section \<open>Intervals of the suffix array are classes\<close>

lemma interval_positions:
  assumes "i \<le> length sa"
  shows "set (take (i - b) (drop b sa)) = (\<lambda>x. sa ! x) ` {b..<i}"
proof -
  have "take (i - b) (drop b sa) = map (\<lambda>x. sa ! x) [b..<i]"
    using assms by (auto intro!: nth_equalityI)
  then show ?thesis by simp
qed

text \<open>Inside an interval whose entries are at least \<open>k\<close> all suffixes share \<open>k\<close> tokens; a
  border below \<open>k\<close> keeps every other suffix out.\<close>

lemma interval_common:
  assumes sa: "is_suffix_array buf sa" and i: "i \<le> length sa" "Suc b < i"
    and inside: "\<forall>r \<in> {b<..<i}. k \<le> lcp_at buf sa r"
    and x: "x \<in> {b..<i}" and y: "y \<in> {b..<i}"
  shows "k \<le> common (drop (sa ! x) buf) (drop (sa ! y) buf)"
proof -
  have less: "k \<le> common (drop (sa ! x) buf) (drop (sa ! y) buf)"
    if "x < y" "x \<in> {b..<i}" "y \<in> {b..<i}" for x y
    using that i inside by (subst common_interval [OF sa]) auto
  have "k \<le> length (drop (sa ! x) buf)"
  proof (cases "x = b")
    case True
    have "k \<le> common (drop (sa ! b) buf) (drop (sa ! Suc b) buf)" using less i(2) by simp
    with common_le(1) True show ?thesis by (metis order_trans)
  next
    case False
    then have "k \<le> common (drop (sa ! b) buf) (drop (sa ! x) buf)" using less x by simp
    with common_le(2) show ?thesis by (metis order_trans)
  qed
  moreover have "x < y \<or> x = y \<or> y < x" by linarith
  ultimately show ?thesis
    using less [OF _ x y] less [OF _ y x, unfolded common_commute [of "drop (sa ! y) buf"]] by auto
qed

lemma interval_class:
  assumes sa: "is_suffix_array buf sa" and i: "i \<le> length sa" "Suc b < i"
    and inside: "\<forall>r \<in> {b<..<i}. k \<le> lcp_at buf sa r"
    and border: "lcp_at buf sa b < k" "lcp_at buf sa i < k"
    and p: "p \<in> (\<lambda>x. sa ! x) ` {b..<i}"
  shows "(\<lambda>x. sa ! x) ` {b..<i} = sharing buf k p"
proof -
  obtain x where x: "x \<in> {b..<i}" "p = sa ! x" using p by blast
  have len: "length sa = length buf" by (rule is_suffix_arrayD(1) [OF sa])
  have out: "y \<in> {b..<i}" if "y < length sa" "k \<le> common (drop (sa ! x) buf) (drop (sa ! y) buf)" for y
  proof (rule ccontr)
    assume "y \<notin> {b..<i}"
    then consider "y < b" | "i \<le> y" by fastforce
    then show False
    proof cases
      case 1
      then have "k \<le> lcp_at buf sa b"
        using that x i common_interval [OF sa, of y x k] by (auto simp: common_commute)
      then show False using border by simp
    next
      case 2
      then have "k \<le> lcp_at buf sa i"
        using that x i common_interval [OF sa, of x y k] by auto
      then show False using border by simp
    qed
  qed
  show ?thesis
  proof (intro equalityI subsetI)
    fix q
    assume "q \<in> (\<lambda>x. sa ! x) ` {b..<i}"
    then show "q \<in> sharing buf k p"
      using interval_common [OF sa i inside x(1)] suffix_array_nth_less [OF sa] i x(2)
      by (auto simp: sharing_def)
  next
    fix q
    assume q: "q \<in> sharing buf k p"
    then obtain y where "y < length sa" "q = sa ! y"
      using is_suffix_arrayD(2) [OF sa] unfolding sharing_def
      by (metis (no_types, lifting) atLeastLessThan_iff in_set_conv_nth le0 lessThan_iff mem_Collect_eq)
    then show "q \<in> (\<lambda>x. sa ! x) ` {b..<i}" using q out x(2) by (auto simp: sharing_def)
  qed
qed

lemma interval_shared_len:
  assumes sa: "is_suffix_array buf sa" and i: "i \<le> length sa"
    and m: "max_interval (lcp_at buf sa) b i l"
  shows "shared_len buf ((\<lambda>x. sa ! x) ` {b..<i}) = l"
    and "\<exists>j \<in> {b<..<i}. common (drop (sa ! (j - 1)) buf) (drop (sa ! j) buf) = l"
proof -
  let ?C = "(\<lambda>x. sa ! x) ` {b..<i}"
  obtain j where j: "j \<in> {b<..<i}" "lcp_at buf sa j = l" using m by (auto simp: max_interval_def)
  then have eq: "common (drop (sa ! (j - 1)) buf) (drop (sa ! j) buf) = l"
    using i by (simp add: lcp_at_def)
  with j show "\<exists>j \<in> {b<..<i}. common (drop (sa ! (j - 1)) buf) (drop (sa ! j) buf) = l" by blast
  have "sa ! (j - 1) \<in> ?C" "sa ! j \<in> ?C" using j(1) by (auto intro!: imageI)
  then have "l \<in> (\<lambda>(p, q). common (drop p buf) (drop q buf)) ` (?C \<times> ?C)"
    using eq by (intro image_eqI [of _ _ "(sa ! (j - 1), sa ! j)"]) auto
  moreover have "l \<le> v" if "v \<in> (\<lambda>(p, q). common (drop p buf) (drop q buf)) ` (?C \<times> ?C)" for v
  proof -
    have "Suc b < i" "\<forall>r \<in> {b<..<i}. l \<le> lcp_at buf sa r" using j(1) m by (auto simp: max_interval_def)
    then show ?thesis using interval_common [OF sa i] that by auto
  qed
  ultimately show "shared_len buf ?C = l"
    unfolding shared_len_def by (intro Min_eqI) auto
qed

text \<open>Every class is such an interval.\<close>

lemma class_interval:
  assumes sa: "is_suffix_array buf sa" and p: "p < length buf" and k: "0 < k"
    and two: "q \<in> sharing buf k p" "q' \<in> sharing buf k p" "q \<noteq> q'"
  obtains b i l where "max_interval (lcp_at buf sa) b i l" and "i \<in> {1..length buf}" and "k \<le> l"
    and "max (lcp_at buf sa b) (lcp_at buf sa i) < k"
    and "(\<lambda>x. sa ! x) ` {b..<i} = sharing buf k p"
proof -
  let ?C = "sharing buf k p" and ?L = "lcp_at buf sa"
  have len: "length sa = length buf" by (rule is_suffix_arrayD(1) [OF sa])
  define X where "X = {x. x < length sa \<and> sa ! x \<in> ?C}"
  have fin: "finite X" by (simp add: X_def)
  have index: "\<exists>x \<in> X. sa ! x = r" if "r \<in> ?C" for r
    using that is_suffix_arrayD(2) [OF sa] unfolding X_def sharing_def
    by (metis (no_types, lifting) atLeastLessThan_iff in_set_conv_nth le0 lessThan_iff mem_Collect_eq)
  obtain x x' where x: "x \<in> X" "x' \<in> X" "x \<noteq> x'" using index two by metis
  define b i where "b = Min X" and "i = Suc (Max X)"
  have b: "b \<in> X" and top: "Max X \<in> X" using fin x by (auto simp: b_def intro!: Min_in Max_in)
  have bound: "b \<le> z" "z < i" if "z \<in> X" for z
    using fin that by (auto simp: b_def i_def less_Suc_eq_le)
  have bi: "Suc b < i" using x bound by (metis Suc_lessI le_less_trans linorder_neqE_nat not_less_eq)
  have i: "i \<le> length sa" using top by (auto simp: i_def X_def)
  have pair: "k \<le> common (drop (sa ! z) buf) (drop (sa ! z') buf)" if "z \<in> X" "z' \<in> X" for z z'
    using that common_trans [of k "drop (sa ! z) buf" "drop p buf" "drop (sa ! z') buf"]
    by (simp add: X_def sharing_def common_commute)
  have join: "z' \<in> X" if "z \<in> X" "z' < length sa" "k \<le> common (drop (sa ! z) buf) (drop (sa ! z') buf)" for z z'
    using that common_trans [of k "drop p buf" "drop (sa ! z) buf" "drop (sa ! z') buf"]
      suffix_array_nth_less [OF sa] by (simp add: X_def sharing_def)
  have inside: "\<forall>r \<in> {b<..<i}. k \<le> ?L r"
    using common_interval [OF sa, of b "Max X" k] pair [OF b top] bi top
    by (auto simp: i_def X_def)
  have "?L b < k"
  proof (rule ccontr)
    assume "\<not> ?L b < k"
    then have "0 < b" "b < length sa" "k \<le> common (drop (sa ! b) buf) (drop (sa ! (b - 1)) buf)"
      using k by (auto simp: lcp_at_def common_commute split: if_splits)
    then have "b - 1 \<in> X" using join [OF b, of "b - 1"] by simp
    then show False using bound(1) [of "b - 1"] \<open>0 < b\<close> by simp
  qed
  moreover have "?L i < k"
  proof (rule ccontr)
    assume "\<not> ?L i < k"
    then have "i < length sa" "k \<le> common (drop (sa ! Max X) buf) (drop (sa ! i) buf)"
      using k by (auto simp: lcp_at_def i_def split: if_splits)
    then have "i \<in> X" using join [OF top] by simp
    then show False using bound(2) [of i] by simp
  qed
  ultimately have border: "max (?L b) (?L i) < k" by simp
  define l where "l = Min (?L ` {b<..<i})"
  have ne: "{b<..<i} \<noteq> {}" using bi by auto
  have l: "l \<in> ?L ` {b<..<i}" "\<forall>r \<in> {b<..<i}. l \<le> ?L r"
    using ne by (auto simp: l_def intro!: Min_in)
  have "k \<le> l" using l(1) inside by auto
  moreover have "max_interval ?L b i l"
    using l border \<open>k \<le> l\<close> bi by (auto simp: max_interval_def)
  moreover have "(\<lambda>x. sa ! x) ` {b..<i} = ?C"
  proof -
    obtain z where z: "z \<in> X" "sa ! z = p"
      using index [of p] p two(1) common_le(1) [of "drop p buf"]
      by (force simp: sharing_def intro: order_trans)
    then have "p \<in> (\<lambda>x. sa ! x) ` {b..<i}" using bound [OF z(1)] by auto
    then show ?thesis using interval_class [OF sa i bi inside] border by simp
  qed
  ultimately show ?thesis using border i bi len by (intro that [of b i l]) auto
qed


section \<open>Reported groups and classes\<close>

lemma reported_group:
  assumes sa: "is_suffix_array buf sa"
    and g: "g \<in> reported_at buf sa m nest (lcp_at buf sa) i" and i: "i \<in> {1..length buf}"
  obtains b where "max_interval (lcp_at buf sa) b i (rg_len g)"
    and "accepts buf sa m nest (lcp_at buf sa) b i (rg_len g)"
    and "rg_positions g = take (i - b) (drop b sa)" and "set (rg_positions g) = (\<lambda>x. sa ! x) ` {b..<i}"
    and "b < i" and "i \<le> length sa" and "Suc b < i"
proof -
  have len: "length sa = length buf" by (rule is_suffix_arrayD(1) [OF sa])
  obtain b l where "g = interval_group sa b i l" "max_interval (lcp_at buf sa) b i l"
      "accepts buf sa m nest (lcp_at buf sa) b i l"
    using g by (auto simp: reported_at_def)
  moreover from this have "Suc b < i" by (auto simp: max_interval_def)
  ultimately show ?thesis
    using that [of b] i len interval_positions [of i sa b] by (auto simp: interval_group_def)
qed

lemma extract_groups_set:
  assumes "is_suffix_array buf (build_suffix_array libsais bio buf)" and "0 < m" and "2 \<le> length buf"
  shows "set (extract_groups libsais bio buf m nest) =
    (\<Union>i \<in> {1..length buf}. reported_at buf (build_suffix_array libsais bio buf) m nest
       (lcp_at buf (build_suffix_array libsais bio buf)) i)"
  using extract_with_set [OF assms(1)] assms(2,3) by (simp add: extract_groups_def)

lemma left_diverse_length:
  assumes "left_diverse buf (sharing buf k p)"
  shows "2 \<le> length buf"
proof -
  obtain q r where "q \<in> sharing buf k p" "r \<in> sharing buf k p" "q \<noteq> r"
    using left_diverse_two [OF assms] by blast
  then have "q < length buf" "r < length buf" "q \<noteq> r" by (auto simp: sharing_def)
  then show ?thesis by linarith
qed

text \<open>A left-diverse class of at least the reporting length is reported.\<close>

lemma class_reported:
  assumes sa: "is_suffix_array buf (build_suffix_array libsais bio buf)" and k: "0 < m" "m \<le> k"
    and p: "p < length buf" and div: "left_diverse buf (sharing buf k p)"
    and nest: "k = m \<or> nest = Seeded k"
  shows "\<exists>g \<in> set (extract_groups libsais bio buf m nest).
    set (rg_positions g) = sharing buf k p \<and> rg_len g = shared_len buf (sharing buf k p)"
proof -
  let ?sa = "build_suffix_array libsais bio buf"
  let ?L = "lcp_at buf ?sa"
  have len: "length ?sa = length buf" by (rule is_suffix_arrayD(1) [OF sa])
  have "0 < k" using k by simp
  obtain q r where qr: "q \<in> sharing buf k p" "r \<in> sharing buf k p" "q \<noteq> r"
    using left_diverse_two [OF div] by blast
  obtain b i l where m: "max_interval ?L b i l" and i: "i \<in> {1..length buf}" and l: "k \<le> l"
      and border: "max (?L b) (?L i) < k" and C: "(\<lambda>x. ?sa ! x) ` {b..<i} = sharing buf k p"
    using class_interval [OF sa p \<open>0 < k\<close> qr] .
  have bi: "b < i" using m by (simp add: max_interval_def)
  have pos: "set (take (i - b) (drop b ?sa)) = sharing buf k p"
    using interval_positions [of i ?sa b] i len C by simp
  moreover have "take (i - b) (drop b ?sa) \<noteq> []" using bi i len by auto
  ultimately have "is_left_maximal buf (take (i - b) (drop b ?sa))"
    using div by (simp add: is_left_maximal_iff)
  moreover have "is_reported nest m (max (?L b) (?L i)) l (take (i - b) (drop b ?sa))"
    using nest border by (auto simp: is_reported_def)
  ultimately have "interval_group ?sa b i l \<in> reported_at buf ?sa m nest ?L i"
    using m le_trans [OF k(2) l] unfolding reported_at_def accepts_def by blast
  then have "interval_group ?sa b i l \<in> set (extract_groups libsais bio buf m nest)"
    using extract_groups_set [OF sa k(1) left_diverse_length [OF div]] i by blast
  moreover have "shared_len buf (sharing buf k p) = l"
    using interval_shared_len(1) [OF sa _ m] i len C by simp
  ultimately show ?thesis
    using pos by (intro bexI [of _ "interval_group ?sa b i l"]) (simp_all add: interval_group_def)
qed

lemma group_sound:
  assumes sa: "is_suffix_array buf (build_suffix_array libsais bio buf)"
    and g: "g \<in> set (extract_groups libsais bio buf m nest)"
  shows "m \<le> rg_len g" and "distinct (rg_positions g)" and "2 \<le> length (rg_positions g)"
    and "p \<in> set (rg_positions g) \<Longrightarrow> sharing buf (rg_len g) p = set (rg_positions g)"
    and "shared_len buf (set (rg_positions g)) = rg_len g"
    and "left_diverse buf (set (rg_positions g))"
    and "p \<in> set (rg_positions g) \<Longrightarrow> nest = Outermost \<Longrightarrow> sharing buf m p = set (rg_positions g)"
proof -
  let ?sa = "build_suffix_array libsais bio buf"
  have "0 < m" "2 \<le> length buf" using g by (auto simp: extract_groups_def split: if_splits)
  then obtain i where i: "i \<in> {1..length buf}" and r: "g \<in> reported_at buf ?sa m nest (lcp_at buf ?sa) i"
    using extract_groups_set [OF sa] g by blast
  obtain b where mi: "max_interval (lcp_at buf ?sa) b i (rg_len g)"
      and acc: "accepts buf ?sa m nest (lcp_at buf ?sa) b i (rg_len g)"
      and pos: "rg_positions g = take (i - b) (drop b ?sa)" "set (rg_positions g) = (\<lambda>x. ?sa ! x) ` {b..<i}"
      and bi: "b < i" "i \<le> length ?sa" "Suc b < i"
    using reported_group [OF sa r i] .
  show "m \<le> rg_len g" using acc by (simp add: accepts_def)
  show "distinct (rg_positions g)" using is_suffix_arrayD(3) [OF sa] by (simp add: pos(1))
  show "2 \<le> length (rg_positions g)" using bi by (simp add: pos(1))
  show "sharing buf (rg_len g) p = set (rg_positions g)" if "p \<in> set (rg_positions g)"
    using interval_class [OF sa bi(2,3), of "rg_len g" p] mi that by (auto simp: max_interval_def pos(2))
  show "shared_len buf (set (rg_positions g)) = rg_len g"
    using interval_shared_len(1) [OF sa bi(2) mi] by (simp add: pos(2))
  have "rg_positions g \<noteq> []" using bi by (auto simp: pos(1))
  then show "left_diverse buf (set (rg_positions g))"
    using acc by (simp add: accepts_def is_left_maximal_iff flip: pos(1))
  show "sharing buf m p = set (rg_positions g)" if "p \<in> set (rg_positions g)" "nest = Outermost"
  proof -
    have "lcp_at buf ?sa b < m" "lcp_at buf ?sa i < m" "m \<le> rg_len g"
      using acc that(2) by (auto simp: accepts_def is_reported_def)
    moreover from this have "\<forall>r \<in> {b<..<i}. m \<le> lcp_at buf ?sa r"
      using mi by (auto simp: max_interval_def)
    ultimately show ?thesis using interval_class [OF sa bi(2,3), of m p] that(1) by (simp add: pos(2))
  qed
qed

section \<open>Properties\<close>

text \<open>C4: Kasai's algorithm computes the LCP array: entry \<open>r\<close> is the length of the longest
  prefix that the suffixes at \<open>sa[r-1]\<close> and \<open>sa[r]\<close> share, and entry 0 is 0.\<close>

theorem kasai_is_lcp_array:
  assumes "is_suffix_array buf sa"
  shows "kasai buf sa = map (lcp_at buf sa) [0..<length buf]"
  using kasai_nth [OF assms] by (intro nth_equalityI) simp_all

text \<open>C2: Whatever is extracted is a clone: at least two different positions, at least the minimum
  length, exactly the positions that share that many tokens with any of them, the length is the
  longest they all share, and they do not all continue one common token to the left.\<close>

theorem extracted_groups_are_clones:
  assumes "is_suffix_array buf (build_suffix_array libsais bio buf)"
    and "g \<in> set (extract_groups libsais bio buf m nest)"
  shows "m \<le> rg_len g \<and> 2 \<le> length (rg_positions g) \<and> distinct (rg_positions g)
    \<and> (\<forall>p \<in> set (rg_positions g). set (rg_positions g) = sharing buf (rg_len g) p)
    \<and> rg_len g = shared_len buf (set (rg_positions g)) \<and> left_diverse buf (set (rg_positions g))"
proof -
  note sound = group_sound [OF assms]
  show ?thesis
    by (intro conjI ballI sound(1-3) sound(4,5) [symmetric] sound(6))
qed

text \<open>C1: Without nesting the extraction is exact: the groups are precisely the left-diverse
  classes of positions that share the minimum length, each with the length its members share.\<close>

theorem outermost_groups_exact:
  assumes "is_suffix_array buf (build_suffix_array libsais bio buf)" and "0 < m"
  shows "(\<lambda>g. (rg_len g, set (rg_positions g))) ` set (extract_groups libsais bio buf m Outermost) =
    (\<lambda>C. (shared_len buf C, C)) ` {C \<in> sharing buf m ` {..<length buf}. left_diverse buf C}"
    (is "?groups = ?classes")
proof (intro equalityI subsetI)
  fix x
  assume "x \<in> ?groups"
  then obtain g where g: "g \<in> set (extract_groups libsais bio buf m Outermost)"
      "x = (rg_len g, set (rg_positions g))" by blast
  note sound = group_sound [OF assms(1) g(1)]
  obtain p where p: "p \<in> set (rg_positions g)" using sound(3) by (cases "rg_positions g") auto
  then have "p < length buf" using sound(4) [OF p] by (auto simp: sharing_def)
  then show "x \<in> ?classes"
    using sound(5,6) sound(7) [OF p] g(2) by (intro image_eqI [of _ _ "set (rg_positions g)"]) auto
next
  fix x
  assume "x \<in> ?classes"
  then obtain p where "p < length buf" "left_diverse buf (sharing buf m p)"
      "x = (shared_len buf (sharing buf m p), sharing buf m p)" by auto
  then show "x \<in> ?groups"
    using class_reported [OF assms(1,2), of m p Outermost] by force
qed

text \<open>C3: Seeding with short fragments loses nothing: every left-diverse class at the reporting
  length is still extracted, although the walk also descends to the shorter minimum.\<close>

theorem seeded_groups_keep_report_len:
  assumes "is_suffix_array buf (build_suffix_array libsais bio buf)" and "0 < m" and "m \<le> report_len"
    and "p < length buf" and "left_diverse buf (sharing buf report_len p)"
  shows "\<exists>g \<in> set (extract_groups libsais bio buf m (Seeded report_len)).
    set (rg_positions g) = sharing buf report_len p
    \<and> rg_len g = shared_len buf (sharing buf report_len p)"
  using class_reported [OF assms(1-5), of "Seeded report_len"] by simp

text \<open>A concrete text (two files that share \<open>2 3\<close>) and a naive suffix sorter.\<close>

definition naive_suffix_array :: "int list \<Rightarrow> nat list" where
  "naive_suffix_array buf = sort_key (\<lambda>p. drop p buf) [0..<length buf]"

definition sample_text :: "int list" where
  "sample_text = [1, 2, 3, 4, 5, 2, 3, 6, 0]"

definition sample_sorter :: "int list \<Rightarrow> string + int list" where
  "sample_sorter buf = Inr (map int (naive_suffix_array buf))"

lemma sample_suffix_array:
  "build_suffix_array sample_sorter id sample_text = [8, 0, 1, 5, 2, 6, 3, 4, 7]"
  by code_simp

lemma sample_sorted: "is_suffix_array sample_text (build_suffix_array sample_sorter id sample_text)"
  unfolding sample_suffix_array by code_simp

lemma sample_groups:
  "extract_groups sample_sorter id sample_text 2 Outermost = [\<lparr>rg_len = 2, rg_positions = [1, 5]\<rparr>]"
  by code_simp

theorem kasai_is_lcp_array_witness:
  "kasai sample_text [8, 0, 1, 5, 2, 6, 3, 4, 7] = [0, 0, 0, 2, 0, 1, 0, 0, 0]"
  using kasai_is_lcp_array [OF sample_sorted] unfolding sample_suffix_array by code_simp

theorem extracted_groups_are_clones_witness:
  "{1, 5} = sharing sample_text 2 1 \<and> left_diverse sample_text {1, 5}"
  using extracted_groups_are_clones [OF sample_sorted, of _ 2 Outermost, unfolded sample_groups]
  by (simp, metis)

theorem outermost_groups_exact_witness:
  "(\<lambda>C. (shared_len sample_text C, C)) `
     {C \<in> sharing sample_text 2 ` {..<length sample_text}. left_diverse sample_text C} = {(2, {1, 5})}"
  using outermost_groups_exact [OF sample_sorted, of 2] by (simp add: sample_groups)

theorem seeded_groups_keep_report_len_witness:
  "\<exists>g \<in> set (extract_groups sample_sorter id sample_text 1 (Seeded 2)). set (rg_positions g) = {1, 5}"
proof -
  have "sharing sample_text 2 1 = {1, 5}" by code_simp
  moreover have "left_diverse sample_text {1, 5}" by code_simp
  ultimately show ?thesis
    using seeded_groups_keep_report_len [OF sample_sorted, of 1 2 1] by (auto simp: sample_text_def)
qed

end
