(* ===== verification/Gapped.thy ===== *)
theory Gapped
  imports Clones
begin

text \<open>
  Gapped clones, \<open>src/noze/duplication/gapped.rs\<close> and \<open>open_tail.rs\<close>: clusters of exact
  clones that follow each other within \<open>max_gap\<close> tokens at every occurrence are stitched, in at
  most \<open>MAX_MERGE_PASSES\<close> passes, and tokens whose node is still open at the end are trimmed.
  The density test of the code compares \<open>matched as f64\<close> with \<open>(e - s) as f64 * 0.6\<close>;
  both sides are exact below \<open>2 ^ 50\<close> up to a rounding that never crosses an integer, so it is
  the comparison \<open>5 * matched \<ge> 3 * (e - s)\<close> of natural numbers here. The parallel search for
  candidates is a map, whose order is that of the clusters.
\<close>

section \<open>The code\<close>

record cluster =
  ck_matched :: usize
  ck_occ :: "(usize \<times> usize) list"

definition MAX_MERGE_PASSES :: usize where "MAX_MERGE_PASSES = 8"
definition MIN_SEED :: usize where "MIN_SEED = 12"
definition SEED_DIVISOR :: usize where "SEED_DIVISOR = 3"

definition gap_seed :: "usize \<Rightarrow> usize \<Rightarrow> usize \<times> nesting" where
  "gap_seed threshold max_gap =
     (if max_gap = 0 then (threshold, Outermost)
      else (min (max (threshold div SEED_DIVISOR) MIN_SEED) threshold, Seeded threshold))"

definition cluster_of :: "raw_group \<Rightarrow> cluster" where
  "cluster_of g = \<lparr>ck_matched = rg_len g, ck_occ = sort (map (\<lambda>p. (p, p + rg_len g)) (rg_positions g))\<rparr>"

text \<open>Start token to the cluster and the end of every occurrence there.\<close>

type_synonym starts = "usize \<rightharpoonup> (usize \<times> usize) list"

definition starts_of :: "cluster list \<Rightarrow> starts" where
  "starts_of clusters = group_entries
     (concat (map (\<lambda>(ci, c). map (\<lambda>(s, e). (s, (ci, e))) (ck_occ c)) (enumerate 0 clusters)))"

definition same_file :: "token_span list \<Rightarrow> usize \<Rightarrow> usize \<Rightarrow> bool" where
  "same_file spans a b \<longleftrightarrow> a < length spans \<and> b < length spans
     \<and> sp_file_id (spans ! a) = sp_file_id (spans ! b)"

definition follower_at ::
  "cluster list \<Rightarrow> usize \<Rightarrow> starts \<Rightarrow> token_span list \<Rightarrow> usize \<times> usize \<Rightarrow> usize
    \<Rightarrow> (usize \<times> usize \<times> usize) option" where
  "follower_at clusters i starts spans occ cand = (case starts cand of
       None \<Rightarrow> None
     | Some entries \<Rightarrow> map_option (\<lambda>(j, end). (j, cand, end))
         (find (\<lambda>(j, end). j \<noteq> i \<and> end > snd occ
            \<and> length (ck_occ (clusters ! j)) = length (ck_occ (clusters ! i))
            \<and> same_file spans (fst occ) cand) entries))"

text \<open>The follower is sought from the end of the occurrence onwards, then backwards into it.\<close>

definition follower_positions :: "usize \<Rightarrow> usize \<Rightarrow> usize \<Rightarrow> usize list" where
  "follower_positions s e max_gap = [e..<e + max_gap + 1] @ rev [max (s + 1) (e - max_gap)..<e]"

fun stitch_occs ::
  "cluster list \<Rightarrow> usize \<Rightarrow> starts \<Rightarrow> token_span list \<Rightarrow> usize \<Rightarrow> (usize \<times> usize) list
    \<Rightarrow> usize option \<times> usize \<times> (usize \<times> usize) list
    \<Rightarrow> (usize option \<times> usize \<times> (usize \<times> usize) list) option" where
  "stitch_occs clusters i starts spans max_gap [] st = Some st"
| "stitch_occs clusters i starts spans max_gap ((s, e) # rest) (follower, overlap, occ) =
     (case find_map (follower_at clusters i starts spans (s, e)) (follower_positions s e max_gap) of
        None \<Rightarrow> None
      | Some (j, start, end) \<Rightarrow>
          (case follower of
             Some f \<Rightarrow>
               (if f \<noteq> j then None
                else stitch_occs clusters i starts spans max_gap rest
                  (Some f, max overlap (e - start), occ @ [(s, end)]))
           | None \<Rightarrow> stitch_occs clusters i starts spans max_gap rest
               (Some j, max overlap (e - start), occ @ [(s, end)])))"

definition stitched ::
  "cluster list \<Rightarrow> usize \<Rightarrow> starts \<Rightarrow> token_span list \<Rightarrow> usize \<Rightarrow> (usize \<times> cluster) option" where
  "stitched clusters i starts spans max_gap =
     (case stitch_occs clusters i starts spans max_gap (ck_occ (clusters ! i)) (None, 0, []) of
        Some (Some j, overlap, occ) \<Rightarrow>
          Some (j, \<lparr>ck_matched = ck_matched (clusters ! i) + ck_matched (clusters ! j) - overlap,
                    ck_occ = sort occ\<rparr>)
      | _ \<Rightarrow> None)"

definition is_dense :: "cluster \<Rightarrow> bool" where
  "is_dense c \<longleftrightarrow> list_all (\<lambda>(s, e). 5 * ck_matched c \<ge> 3 * (e - s)) (ck_occ c)"

fun apply_found ::
  "(usize \<times> (usize \<times> cluster) option) list \<Rightarrow> bool list \<times> cluster list \<Rightarrow> bool list \<times> cluster list" where
  "apply_found [] st = st"
| "apply_found ((i, found) # rest) (consumed, merged) =
     apply_found rest
       (if consumed ! i then (consumed, merged)
        else case found of
            None \<Rightarrow> (consumed, merged)
          | Some (j, candidate) \<Rightarrow>
              (if \<not> consumed ! j \<and> is_dense candidate
               then (consumed[i := True, j := True], merged @ [candidate])
               else (consumed, merged)))"

definition merge_pass :: "cluster list \<Rightarrow> token_span list \<Rightarrow> usize \<Rightarrow> bool \<times> cluster list" where
  "merge_pass clusters spans max_gap =
     (let starts = starts_of clusters;
          found = map (\<lambda>i. (i, stitched clusters i starts spans max_gap)) [0..<length clusters];
          (consumed, merged) = apply_found found (replicate (length clusters) False, [])
      in if merged = [] then (False, clusters)
         else (True, map snd (filter (\<lambda>(i, c). \<not> consumed ! i) (enumerate 0 clusters)) @ merged))"

fun merge_passes :: "nat \<Rightarrow> cluster list \<Rightarrow> token_span list \<Rightarrow> usize \<Rightarrow> cluster list" where
  "merge_passes 0 clusters spans max_gap = clusters"
| "merge_passes (Suc n) clusters spans max_gap =
     (case merge_pass clusters spans max_gap of
        (True, clusters') \<Rightarrow> merge_passes n clusters' spans max_gap
      | (False, clusters') \<Rightarrow> clusters')"

definition stitch :: "raw_group list \<Rightarrow> token_span list \<Rightarrow> usize \<Rightarrow> cluster list" where
  "stitch groups spans max_gap =
     (let clusters = map cluster_of groups
      in if max_gap = 0 then clusters else merge_passes MAX_MERGE_PASSES clusters spans max_gap)"

definition open_tail :: "token_span list \<Rightarrow> usize \<Rightarrow> usize \<Rightarrow> usize" where
  "open_tail spans start end =
     (if end < length spans \<and> sp_file_id (spans ! end) = sp_file_id (spans ! start)
      then length (takeWhile (\<lambda>t. sp_end_byte (spans ! t) > sp_start_byte (spans ! end)) (rev [start..<end]))
      else 0)"

definition close_tails :: "cluster \<Rightarrow> token_span list \<Rightarrow> cluster" where
  "close_tails c spans =
     (let tails = map (\<lambda>(s, e). open_tail spans s e) (ck_occ c);
          cut = (if tails = [] then 0 else Max (set tails))
      in \<lparr>ck_matched = ck_matched c - cut,
          ck_occ = map (\<lambda>(s, e). (s, e - min cut (e - s))) (ck_occ c)\<rparr>)"

section \<open>Well-formed clusters\<close>

text \<open>Spans whose file ids come in blocks, as in a master buffer.\<close>

definition file_blocks :: "token_span list \<Rightarrow> bool" where
  "file_blocks spans \<longleftrightarrow> (\<forall>i j k. i \<le> j \<and> j \<le> k \<and> k < length spans
     \<and> sp_file_id (spans ! i) = sp_file_id (spans ! k) \<and> sp_file_id (spans ! i) \<noteq> NON_TOKEN
     \<longrightarrow> sp_file_id (spans ! j) = sp_file_id (spans ! i))"

lemma file_blocksD:
  "file_blocks spans \<Longrightarrow> i \<le> j \<Longrightarrow> j \<le> k \<Longrightarrow> k < length spans
    \<Longrightarrow> sp_file_id (spans ! i) = sp_file_id (spans ! k) \<Longrightarrow> sp_file_id (spans ! i) \<noteq> NON_TOKEN
    \<Longrightarrow> sp_file_id (spans ! j) = sp_file_id (spans ! i)"
  unfolding file_blocks_def by blast

definition occ_ok :: "token_span list \<Rightarrow> usize \<Rightarrow> usize \<times> usize \<Rightarrow> bool" where
  "occ_ok spans matched o' = (case o' of (s, e) \<Rightarrow> s < e \<and> e \<le> length spans \<and> matched \<le> e - s
     \<and> one_file_run spans s (e - s))"

definition cluster_ok :: "token_span list \<Rightarrow> cluster \<Rightarrow> bool" where
  "cluster_ok spans c \<longleftrightarrow> list_all (occ_ok spans (ck_matched c)) (ck_occ c)"

lemma ball_shift: "s \<le> e \<Longrightarrow> (\<forall>i<e - s. P (s + i)) \<longleftrightarrow> (\<forall>t \<in> {s..<e}. P t)" for s e :: nat
  by (auto simp: le_iff_add)

lemma one_file_run_iff:
  assumes "e \<le> length spans" and "s \<le> e"
  shows "one_file_run spans s (e - s) \<longleftrightarrow>
     (\<forall>t \<in> {s..<e}. sp_file_id (spans ! t) \<noteq> NON_TOKEN \<and> sp_file_id (spans ! t) = sp_file_id (spans ! s))"
  using assms(1,2) by (subst one_file_run_nth) (simp, rule ball_shift)

text \<open>A run, a follower in the same file and everything between is one run.\<close>

lemma one_file_run_join:
  assumes blocks: "file_blocks spans" and a: "occ_ok spans m (s, e)" and b: "occ_ok spans m' (start, end)"
    and "s \<le> start" and "e \<le> end" and same: "same_file spans s start"
  shows "one_file_run spans s (end - s)"
proof -
  have len: "s < e" "start < end" "end \<le> length spans" using a b by (auto simp: occ_ok_def)
  have id: "sp_file_id (spans ! s) = sp_file_id (spans ! start)" using same by (simp add: same_file_def)
  have run_b: "\<forall>t \<in> {start..<end}. sp_file_id (spans ! t) \<noteq> NON_TOKEN \<and> sp_file_id (spans ! t) = sp_file_id (spans ! start)"
    using b len by (intro one_file_run_iff [THEN iffD1]) (simp_all add: occ_ok_def)
  have "end - 1 \<in> {start..<end}" "start \<in> {start..<end}" using len by auto
  with run_b id have last: "sp_file_id (spans ! (end - 1)) = sp_file_id (spans ! s)" "sp_file_id (spans ! s) \<noteq> NON_TOKEN"
    by metis+
  have eq: "sp_file_id (spans ! t) = sp_file_id (spans ! s)" if "t \<in> {s..<end}" for t
    by (rule file_blocksD [OF blocks, of s t "end - 1"]) (use that len last in auto)
  then have "\<forall>t \<in> {s..<end}. sp_file_id (spans ! t) \<noteq> NON_TOKEN \<and> sp_file_id (spans ! t) = sp_file_id (spans ! s)"
    using last(2) by metis
  moreover have "end \<le> length spans" "s \<le> end" using len \<open>e \<le> end\<close> by auto
  ultimately show ?thesis using one_file_run_iff [of "end" spans s] by blast
qed

section \<open>One stitched candidate\<close>

lemma starts_of_mem:
  assumes "starts_of clusters cand = Some entries" and "(j, end) \<in> set entries"
  shows "j < length clusters \<and> (cand, end) \<in> set (ck_occ (clusters ! j))"
  using group_entries_SomeD [OF assms(1) [unfolded starts_of_def], of "(j, end)"] assms(2)
  by (auto simp: in_set_enumerate_eq)

definition linked :: "cluster list \<Rightarrow> usize \<Rightarrow> token_span list \<Rightarrow> usize \<Rightarrow> usize \<Rightarrow> usize \<times> usize \<Rightarrow> usize \<times> usize \<Rightarrow> bool" where
  "linked clusters j spans max_gap overlap o1 o2 \<longleftrightarrow> fst o2 = fst o1 \<and> snd o1 < snd o2
     \<and> (\<exists>start. (start, snd o2) \<in> set (ck_occ (clusters ! j)) \<and> fst o1 < start
          \<and> start \<le> snd o1 + max_gap \<and> same_file spans (fst o1) start \<and> snd o1 - start \<le> overlap)"

lemma follower_atD:
  assumes "follower_at clusters i (starts_of clusters) spans (s, e) cand = Some (j, start, end)"
  shows "start = cand" and "j < length clusters" and "j \<noteq> i" and "(cand, end) \<in> set (ck_occ (clusters ! j))"
    and "e < end" and "length (ck_occ (clusters ! j)) = length (ck_occ (clusters ! i))"
    and "same_file spans s cand"
proof -
  obtain entries where en: "starts_of clusters cand = Some entries"
    using assms by (auto simp: follower_at_def split: option.splits)
  then have *: "start = cand" "(j, end) \<in> set entries" "j \<noteq> i" "e < end" "same_file spans s cand"
      "length (ck_occ (clusters ! j)) = length (ck_occ (clusters ! i))"
    using assms by (auto simp: follower_at_def dest: find_SomeD)
  with starts_of_mem [OF en *(2)]
  show "start = cand" "j < length clusters" "j \<noteq> i" "(cand, end) \<in> set (ck_occ (clusters ! j))"
    "e < end" "length (ck_occ (clusters ! j)) = length (ck_occ (clusters ! i))" "same_file spans s cand"
    by auto
qed

lemma stitch_occs_sound:
  assumes "stitch_occs clusters i (starts_of clusters) spans max_gap occs (f0, ov0, acc) = Some (Some j, ov, res)"
    and "\<forall>(s, e) \<in> set occs. s < e"
  shows "ov0 \<le> ov \<and> (f0 = None \<or> f0 = Some j)
    \<and> (\<exists>new. res = acc @ new \<and> list_all2 (linked clusters j spans max_gap ov) occs new)
    \<and> (occs \<noteq> [] \<longrightarrow> j < length clusters \<and> j \<noteq> i \<and> length (ck_occ (clusters ! j)) = length (ck_occ (clusters ! i)))"
  using assms
proof (induction occs arbitrary: f0 ov0 acc)
  case Nil
  then show ?case by auto
next
  case (Cons oc occs)
  obtain s e where oc: "oc = (s, e)" by fastforce
  obtain j' start "end" where fm: "find_map (follower_at clusters i (starts_of clusters) spans (s, e)) (follower_positions s e max_gap) = Some (j', start, end)"
    using Cons.prems(1) by (auto simp: oc Let_def split: option.splits)
  then obtain cand where cand: "cand \<in> set (follower_positions s e max_gap)"
      and fo: "follower_at clusters i (starts_of clusters) spans (s, e) cand = Some (j', start, end)"
    by (blast dest: find_map_SomeD)
  note F = follower_atD [OF fo]
  have f: "f0 = None \<or> f0 = Some j'"
    using Cons.prems(1) by (auto simp: oc fm Let_def split: option.splits if_splits)
  then have rec: "stitch_occs clusters i (starts_of clusters) spans max_gap occs
      (Some j', max ov0 (e - start), acc @ [(s, end)]) = Some (Some j, ov, res)"
    using Cons.prems(1) by (auto simp: oc fm Let_def)
  have se: "s < e" "\<forall>(s, e) \<in> set occs. s < e" using Cons.prems(2) by (auto simp: oc)
  from Cons.IH [OF rec se(2)] obtain new where new: "max ov0 (e - start) \<le> ov" "j' = j"
      "res = (acc @ [(s, end)]) @ new" "list_all2 (linked clusters j spans max_gap ov) occs new"
    by auto
  have "linked clusters j spans max_gap ov (s, e) (s, end)"
    using F new(1,2) cand se(1) by (auto simp: linked_def follower_positions_def intro!: exI [of _ start])
  then have "list_all2 (linked clusters j spans max_gap ov) (oc # occs) ((s, end) # new)"
    using new(4) oc by simp
  then show ?case
    using f new(1-3) F by (intro conjI exI [of _ "(s, end) # new"]) auto
qed

lemma stitchedD:
  assumes "stitched clusters i (starts_of clusters) spans max_gap = Some (j, c)"
    and "\<forall>(s, e) \<in> set (ck_occ (clusters ! i)). s < e" and "ck_occ (clusters ! i) \<noteq> []"
  obtains ov new where "ck_occ c = sort new" and "j < length clusters" and "j \<noteq> i"
    and "length (ck_occ (clusters ! j)) = length (ck_occ (clusters ! i))"
    and "list_all2 (linked clusters j spans max_gap ov) (ck_occ (clusters ! i)) new"
    and "ck_matched c = ck_matched (clusters ! i) + ck_matched (clusters ! j) - ov"
proof -
  obtain ov occ where so: "stitch_occs clusters i (starts_of clusters) spans max_gap (ck_occ (clusters ! i)) (None, 0, [])
        = Some (Some j, ov, occ)"
      "c = \<lparr>ck_matched = ck_matched (clusters ! i) + ck_matched (clusters ! j) - ov, ck_occ = sort occ\<rparr>"
    using assms(1) by (auto simp: stitched_def split: option.splits prod.splits)
  from stitch_occs_sound [OF so(1) assms(2)] assms(3) so(2) show ?thesis
    by (intro that [of occ ov]) auto
qed


section \<open>Stitching keeps clusters well formed\<close>

lemma list_all2_setD2: "list_all2 P xs ys \<Longrightarrow> y \<in> set ys \<Longrightarrow> \<exists>x \<in> set xs. P x y"
  by (induction rule: list_all2_induct) auto

lemma list_all2_linked_starts:
  "list_all2 (linked clusters j spans max_gap ov) occs new \<Longrightarrow> map fst new = map fst occs"
  by (induction rule: list_all2_induct) (auto simp: linked_def)

lemma linked_occ_ok:
  assumes blocks: "file_blocks spans" and "linked clusters j spans max_gap ov o1 o2"
    and o1: "occ_ok spans m o1" and cj: "cluster_ok spans (clusters ! j)"
  shows "occ_ok spans (m + ck_matched (clusters ! j) - ov) o2"
proof -
  obtain s e e' start where o: "o1 = (s, e)" "o2 = (s, e')" "e < e'" "s < start"
      "(start, e') \<in> set (ck_occ (clusters ! j))" "same_file spans s start" "e - start \<le> ov"
    using assms(2) by (cases o1; cases o2) (auto simp: linked_def)
  have st: "occ_ok spans (ck_matched (clusters ! j)) (start, e')"
    using cj o(5) by (auto simp: cluster_ok_def list_all_iff)
  have "one_file_run spans s (e' - s)"
    using one_file_run_join [OF blocks _ st, of m s e] o1 o by simp
  then show ?thesis
    using o1 st o by (auto simp: occ_ok_def)
qed

lemma stitched_ok:
  assumes "stitched clusters i (starts_of clusters) spans max_gap = Some (j, c)"
    and blocks: "file_blocks spans" and ok: "list_all (cluster_ok spans) clusters" and i: "i < length clusters"
    and ne: "ck_occ (clusters ! i) \<noteq> []"
  shows "cluster_ok spans c" and "j < length clusters" and "j \<noteq> i"
    and "mset (map fst (ck_occ c)) = mset (map fst (ck_occ (clusters ! i)))"
proof -
  have ci: "cluster_ok spans (clusters ! i)" using ok i by (simp add: list_all_length)
  then have se: "\<forall>(s, e) \<in> set (ck_occ (clusters ! i)). s < e"
    by (auto simp: cluster_ok_def list_all_iff occ_ok_def)
  obtain ov new where n: "ck_occ c = sort new" "j < length clusters" "j \<noteq> i"
      "list_all2 (linked clusters j spans max_gap ov) (ck_occ (clusters ! i)) new"
      "ck_matched c = ck_matched (clusters ! i) + ck_matched (clusters ! j) - ov"
    using stitchedD [OF assms(1) se ne] .
  have cj: "cluster_ok spans (clusters ! j)" using ok n(2) by (simp add: list_all_length)
  show "j < length clusters" "j \<noteq> i" using n by auto
  show "mset (map fst (ck_occ c)) = mset (map fst (ck_occ (clusters ! i)))"
    using arg_cong [OF list_all2_linked_starts [OF n(4)], of mset] by (simp add: n(1))
  have "occ_ok spans (ck_matched c) o2" if mem: "o2 \<in> set new" for o2
  proof -
    obtain o1 where o1: "o1 \<in> set (ck_occ (clusters ! i))" "linked clusters j spans max_gap ov o1 o2"
      using list_all2_setD2 [OF n(4) mem] by blast
    have "occ_ok spans (ck_matched (clusters ! i)) o1"
      using ci o1(1) unfolding cluster_ok_def list_all_iff by blast
    from linked_occ_ok [OF blocks o1(2) this cj] show ?thesis by (simp only: n(5))
  qed
  then show "cluster_ok spans c" by (simp add: cluster_ok_def n(1) list_all_iff)
qed

text \<open>Where a cluster comes from: it starts where an extracted group occurs, and a stitched one
  is dense.\<close>

definition from_groups :: "raw_group list \<Rightarrow> cluster \<Rightarrow> bool" where
  "from_groups groups c \<longleftrightarrow>
     (\<exists>g \<in> set groups. mset (map fst (ck_occ c)) = mset (rg_positions g) \<and> (is_dense c))"

definition clusters_inv :: "raw_group list \<Rightarrow> token_span list \<Rightarrow> cluster list \<Rightarrow> bool" where
  "clusters_inv groups spans clusters \<longleftrightarrow>
     list_all (\<lambda>c. cluster_ok spans c \<and> from_groups groups c \<and> ck_occ c \<noteq> []) clusters"

lemma apply_found_inv:
  assumes "\<forall>(i, f) \<in> set found. \<forall>j c. f = Some (j, c) \<longrightarrow> Q c"
    and "list_all Q merged" and "apply_found found (consumed, merged) = (consumed', merged')"
  shows "list_all (\<lambda>c. Q c \<and> (c \<in> set merged \<or> is_dense c)) merged'"
  using assms
proof (induction found arbitrary: consumed merged)
  case Nil
  then show ?case by (auto simp: list_all_iff)
next
  case (Cons f found)
  obtain i g where f: "f = (i, g)" by fastforce
  let ?st = "if consumed ! i then (consumed, merged)
        else case g of
            None \<Rightarrow> (consumed, merged)
          | Some (j, candidate) \<Rightarrow>
              (if \<not> consumed ! j \<and> is_dense candidate
               then (consumed[i := True, j := True], merged @ [candidate])
               else (consumed, merged))"
  obtain c1 m1 where st: "?st = (c1, m1)" by fastforce
  have m1: "list_all Q m1" "\<forall>c \<in> set m1. c \<in> set merged \<or> is_dense c"
    using Cons.prems(1,2) st f by (auto split: if_splits option.splits)
  have "apply_found found (c1, m1) = (consumed', merged')"
    using Cons.prems(3) unfolding f apply_found.simps st .
  then have "list_all (\<lambda>c. Q c \<and> (c \<in> set m1 \<or> is_dense c)) merged'"
    using Cons.IH m1(1) Cons.prems(1) by auto
  then show ?case using m1(2) by (auto simp: list_all_iff)
qed

lemma merge_pass_inv:
  assumes blocks: "file_blocks spans" and inv: "clusters_inv groups spans clusters"
  shows "clusters_inv groups spans (snd (merge_pass clusters spans max_gap))"
proof -
  let ?found = "map (\<lambda>i. (i, stitched clusters i (starts_of clusters) spans max_gap)) [0..<length clusters]"
  obtain consumed merged where app: "apply_found ?found (replicate (length clusters) False, []) = (consumed, merged)"
    by fastforce
  let ?Q = "\<lambda>c. cluster_ok spans c \<and> (\<exists>g \<in> set groups. mset (map fst (ck_occ c)) = mset (rg_positions g)) \<and> ck_occ c \<noteq> []"
  have Q: "?Q c" if "stitched clusters i (starts_of clusters) spans max_gap = Some (j, c)" "i < length clusters" for i j c
  proof -
    have ci: "list_all (cluster_ok spans) clusters" "from_groups groups (clusters ! i)" "ck_occ (clusters ! i) \<noteq> []"
      using inv that(2) by (auto simp: clusters_inv_def list_all_length)
    note so = stitched_ok [OF that(1) blocks ci(1) that(2) ci(3)]
    have "ck_occ c \<noteq> []" using so(4) ci(3) by auto
    then show ?thesis using so(1,4) ci(2) by (auto simp: from_groups_def)
  qed
  have "list_all (\<lambda>c. ?Q c \<and> (c \<in> set [] \<or> is_dense c)) merged"
    by (rule apply_found_inv [OF _ _ app]) (use Q in auto)
  then have "clusters_inv groups spans merged"
    by (auto simp: clusters_inv_def from_groups_def list_all_iff)
  moreover have "clusters_inv groups spans (map snd (filter (\<lambda>(i, c). \<not> consumed ! i) (enumerate 0 clusters)))"
    using inv by (auto simp: clusters_inv_def list_all_iff in_set_enumerate_eq)
  ultimately show ?thesis
    using inv app by (auto simp: merge_pass_def clusters_inv_def Let_def)
qed

lemma merge_passes_inv:
  "file_blocks spans \<Longrightarrow> clusters_inv groups spans clusters
    \<Longrightarrow> clusters_inv groups spans (merge_passes n clusters spans max_gap)"
proof (induction n arbitrary: clusters)
  case (Suc n)
  then show ?case
    using merge_pass_inv [OF Suc.prems, of max_gap]
    by (cases "merge_pass clusters spans max_gap") (auto split: bool.splits)
qed simp

text \<open>The extracted groups lie in single files, as the buffer guarantees.\<close>

definition group_ok :: "token_span list \<Rightarrow> raw_group \<Rightarrow> bool" where
  "group_ok spans g \<longleftrightarrow> 0 < rg_len g \<and> rg_positions g \<noteq> []
     \<and> list_all (\<lambda>p. p + rg_len g \<le> length spans \<and> one_file_run spans p (rg_len g)) (rg_positions g)"

lemma cluster_of_inv:
  assumes "list_all (group_ok spans) groups"
  shows "clusters_inv groups spans (map cluster_of groups)"
proof -
  have "cluster_ok spans (cluster_of g) \<and> from_groups groups (cluster_of g) \<and> ck_occ (cluster_of g) \<noteq> []"
    if "g \<in> set groups" for g
  proof -
    have g: "group_ok spans g" using assms that by (auto simp: list_all_iff)
    have "mset (map fst (sort (map (\<lambda>p. (p, p + rg_len g)) (rg_positions g)))) = mset (rg_positions g)"
      by (simp add: multiset.map_comp comp_def)
    then have "from_groups groups (cluster_of g)"
      using that by (auto simp: from_groups_def cluster_of_def is_dense_def list_all_iff intro!: bexI [of _ g])
    moreover have "cluster_ok spans (cluster_of g)"
    proof -
      have "occ_ok spans (rg_len g) (p, p + rg_len g)" if "p \<in> set (rg_positions g)" for p
        using g that by (simp add: group_ok_def list_all_iff occ_ok_def)
      then show ?thesis by (auto simp: cluster_ok_def cluster_of_def list_all_iff)
    qed
    moreover have "ck_occ (cluster_of g) \<noteq> []"
    proof
      assume "ck_occ (cluster_of g) = []"
      then have "length (ck_occ (cluster_of g)) = 0" by simp
      with g show False by (simp add: cluster_of_def group_ok_def)
    qed
    ultimately show ?thesis by simp
  qed
  then show ?thesis by (auto simp: clusters_inv_def list_all_iff)
qed

lemma stitch_inv:
  "file_blocks spans \<Longrightarrow> list_all (group_ok spans) groups \<Longrightarrow> clusters_inv groups spans (stitch groups spans max_gap)"
  using cluster_of_inv merge_passes_inv by (auto simp: stitch_def Let_def)

section \<open>Trimming open tails\<close>

lemma one_file_run_mono: "one_file_run spans s n \<Longrightarrow> m \<le> n \<Longrightarrow> one_file_run spans s m"
  by (auto simp: one_file_run_def list_all_iff dest: set_take_subset_set_take [THEN subsetD, rotated])

lemma occ_ok_shorten:
  "occ_ok spans m (s, e) \<Longrightarrow> k < m \<Longrightarrow> occ_ok spans (m - k) (s, e - min k (e - s))"
  by (auto simp: occ_ok_def min_def elim: one_file_run_mono)

lemma close_tails_ok:
  assumes "cluster_ok spans c" and "0 < ck_matched (close_tails c spans)"
  shows "cluster_ok spans (close_tails c spans)"
  using assms occ_ok_shorten
  by (fastforce simp: close_tails_def cluster_ok_def list_all_iff Let_def)

lemma close_tails_starts: "map fst (ck_occ (close_tails c spans)) = map fst (ck_occ c)"
  by (auto simp: close_tails_def Let_def)

section \<open>Merging shrinks the list\<close>

lemma count_true_update:
  "i < length bs \<Longrightarrow> \<not> bs ! i \<Longrightarrow> length (filter (\<lambda>b. b) (bs[i := True])) = Suc (length (filter (\<lambda>b. b) bs))"
proof (induction bs arbitrary: i)
  case (Cons b bs)
  then show ?case by (cases i) auto
qed simp

lemma apply_found_count:
  assumes "\<forall>(i, f) \<in> set found. \<forall>j c. f = Some (j, c) \<longrightarrow> i < length consumed \<and> j < length consumed \<and> j \<noteq> i"
    and "apply_found found (consumed, merged) = (consumed', merged')"
  shows "length consumed' = length consumed
    \<and> length (filter (\<lambda>b. b) consumed') + 2 * length merged = length (filter (\<lambda>b. b) consumed) + 2 * length merged'"
  using assms
proof (induction found arbitrary: consumed merged)
  case (Cons f found)
  obtain i g where f: "f = (i, g)" by fastforce
  show ?case
  proof (cases "\<exists>j c. g = Some (j, c) \<and> \<not> consumed ! i \<and> \<not> consumed ! j \<and> is_dense c")
    case True
    then obtain j c where g: "g = Some (j, c)" "\<not> consumed ! i" "\<not> consumed ! j" "is_dense c" by blast
    have ij: "i < length consumed" "j < length consumed" "j \<noteq> i" using Cons.prems(1) f g by auto
    have "apply_found found (consumed[i := True, j := True], merged @ [c]) = (consumed', merged')"
      using Cons.prems(2) f g by simp
    moreover have "length (filter (\<lambda>b. b) (consumed[i := True, j := True])) = Suc (Suc (length (filter (\<lambda>b. b) consumed)))"
      using g ij by (subst count_true_update, simp, simp, subst count_true_update) simp_all
    ultimately show ?thesis using Cons.IH [of "consumed[i := True, j := True]" "merged @ [c]"] Cons.prems(1) by auto
  next
    case False
    then have "apply_found found (consumed, merged) = (consumed', merged')"
      using Cons.prems(2) f by (auto split: option.splits if_splits)
    with Cons.IH [OF _ this] Cons.prems(1) show ?thesis by auto
  qed
qed auto

lemma length_filter_not_nth:
  "length bs = length xs \<Longrightarrow>
   length (filter (\<lambda>(i, c). \<not> bs ! i) (enumerate 0 xs)) + length (filter (\<lambda>b. b) bs) = length xs"
proof (induction xs arbitrary: bs rule: rev_induct)
  case (snoc x xs)
  then obtain bs' b where bs: "bs = bs' @ [b]" "length bs' = length xs"
    by (metis length_append_singleton length_Suc_conv_rev)
  have "filter (\<lambda>(i, c). \<not> (bs' @ [b]) ! i) (enumerate 0 xs) = filter (\<lambda>(i, c). \<not> bs' ! i) (enumerate 0 xs)"
    using bs(2) by (intro filter_cong) (auto simp: in_set_enumerate_eq nth_append)
  then show ?case using snoc.IH [OF bs(2)] bs by (simp add: enumerate_append_eq nth_append)
qed simp

lemma merge_pass_length:
  assumes ok: "\<forall>i c j. i < length clusters \<longrightarrow> stitched clusters i (starts_of clusters) spans max_gap = Some (j, c)
      \<longrightarrow> j < length clusters \<and> j \<noteq> i"
  shows "\<exists>k. length (snd (merge_pass clusters spans max_gap)) + k = length clusters
    \<and> (fst (merge_pass clusters spans max_gap) \<longleftrightarrow> 0 < k)"
proof -
  let ?found = "map (\<lambda>i. (i, stitched clusters i (starts_of clusters) spans max_gap)) [0..<length clusters]"
  obtain consumed merged where app: "apply_found ?found (replicate (length clusters) False, []) = (consumed, merged)"
    by fastforce
  have "length consumed = length clusters \<and> length (filter (\<lambda>b. b) consumed) = 2 * length merged"
  proof -
    have "\<forall>(i, f) \<in> set ?found. \<forall>j c. f = Some (j, c) \<longrightarrow> i < length (replicate (length clusters) False)
        \<and> j < length (replicate (length clusters) False) \<and> j \<noteq> i"
    proof (clarify)
      fix i j c
      assume "(i, Some (j, c)) \<in> set ?found"
      then have "i < length clusters" "stitched clusters i (starts_of clusters) spans max_gap = Some (j, c)"
        by (force simp del: length_map)+
      with ok show "i < length (replicate (length clusters) False)
          \<and> j < length (replicate (length clusters) False) \<and> j \<noteq> i"
        unfolding length_replicate by blast
    qed
    from apply_found_count [OF this app] show ?thesis by (simp add: filter_replicate)
  qed
  then have "length (filter (\<lambda>(i, c). \<not> consumed ! i) (enumerate 0 clusters)) + 2 * length merged = length clusters"
    using length_filter_not_nth [of consumed clusters] by simp
  then show ?thesis
    using app by (intro exI [of _ "length merged"]) (auto simp: merge_pass_def Let_def)
qed

lemma stitched_follower:
  "stitched clusters i (starts_of clusters) spans max_gap = Some (j, c) \<Longrightarrow> list_all (cluster_ok spans) clusters
    \<Longrightarrow> file_blocks spans \<Longrightarrow> i < length clusters \<Longrightarrow> j < length clusters \<and> j \<noteq> i"
proof (cases "ck_occ (clusters ! i) = []")
  case True
  then show "stitched clusters i (starts_of clusters) spans max_gap = Some (j, c) \<Longrightarrow> ?thesis"
    by (simp add: stitched_def)
qed (simp add: stitched_ok(2,3))

section \<open>Properties\<close>

text \<open>C15: Stitching never invents a clone: every cluster still starts exactly where one extracted
  group occurs, each of its ranges is a run of tokens of one file, the matched tokens fit into
  every range and fill at least three fifths of it.\<close>

theorem stitch_sound:
  assumes "file_blocks spans" and "list_all (group_ok spans) groups"
    and "c \<in> set (stitch groups spans max_gap)"
  shows "cluster_ok spans c \<and> is_dense c
    \<and> (\<exists>g \<in> set groups. mset (map fst (ck_occ c)) = mset (rg_positions g))"
  using stitch_inv [OF assms(1,2), of max_gap] assms(3)
  by (auto simp: clusters_inv_def from_groups_def list_all_iff)

text \<open>C16: A merge pass consumes two clusters for each one it creates: it reports a change exactly
  when the list gets shorter and otherwise leaves the list alone, so merging terminates even
  without the bound of eight passes.\<close>

theorem merge_pass_shrinks:
  assumes "file_blocks spans" and "list_all (cluster_ok spans) clusters"
  shows "(fst (merge_pass clusters spans max_gap) \<longleftrightarrow>
      length (snd (merge_pass clusters spans max_gap)) < length clusters)
    \<and> (\<not> fst (merge_pass clusters spans max_gap) \<longrightarrow> snd (merge_pass clusters spans max_gap) = clusters)"
proof -
  obtain k where "length (snd (merge_pass clusters spans max_gap)) + k = length clusters"
      "fst (merge_pass clusters spans max_gap) \<longleftrightarrow> 0 < k"
    using merge_pass_length [of clusters spans max_gap] stitched_follower [OF _ assms(2,1)] by blast
  moreover have "\<not> fst (merge_pass clusters spans max_gap) \<longrightarrow> snd (merge_pass clusters spans max_gap) = clusters"
    by (auto simp: merge_pass_def Let_def split: prod.splits)
  ultimately show ?thesis by linarith
qed

text \<open>Two files of six tokens; two fragments follow each other in both, with different gaps.\<close>

definition file_span :: "u32 \<Rightarrow> token_span" where
  "file_span f = \<lparr>sp_file_id = f, sp_start_row = 1, sp_end_row = 1, sp_start_byte = 0, sp_end_byte = 0\<rparr>"

definition gap_spans :: "token_span list" where
  "gap_spans = replicate 6 (file_span 0) @ [file_span NON_TOKEN] @ replicate 6 (file_span 1)"

definition gap_groups :: "raw_group list" where
  "gap_groups = [\<lparr>rg_len = 2, rg_positions = [0, 7]\<rparr>, \<lparr>rg_len = 2, rg_positions = [3, 11]\<rparr>]"

lemma gap_stitched: "stitch gap_groups gap_spans 3 = [\<lparr>ck_matched = 4, ck_occ = [(0, 5), (7, 13)]\<rparr>]"
  by code_simp

lemma gap_blocks: "file_blocks gap_spans"
proof -
  have "sp_file_id (gap_spans ! i) = (if i < 6 then 0 else if i = 6 then NON_TOKEN else 1)" if "i < 13" for i
    using that by (auto simp: gap_spans_def file_span_def nth_append)
  moreover have "length gap_spans = 13" by (simp add: gap_spans_def)
  ultimately show ?thesis
    by (auto simp: file_blocks_def NON_TOKEN_def split: if_splits)
qed

lemma gap_groups_ok: "list_all (group_ok gap_spans) gap_groups"
  by code_simp

theorem stitch_sound_witness:
  "cluster_ok gap_spans \<lparr>ck_matched = 4, ck_occ = [(0, 5), (7, 13)]\<rparr>"
  using stitch_sound [OF gap_blocks gap_groups_ok, of _ 3, unfolded gap_stitched] by simp

theorem merge_pass_shrinks_witness:
  "length (snd (merge_pass (map cluster_of gap_groups) gap_spans 3)) < 2"
proof -
  have "list_all (cluster_ok gap_spans) (map cluster_of gap_groups)" by code_simp
  from merge_pass_shrinks [OF gap_blocks this, of 3] show ?thesis by code_simp
qed

end
