(* ===== verification/NearMiss.thy ===== *)
theory NearMiss
  imports Flatten
begin

text \<open>
  Consistent-rename clones, \<open>src/noze/duplication/near_miss.rs\<close>, with the slices of one
  function (\<open>span_index_range\<close> of \<open>duplication/mod.rs\<close>). A \<open>BTreeMap\<close> keyed by the
  canonical key is walked in ascending key order. \<open>slice::partition_point\<close> is the number of
  leading elements that satisfy the predicate, its documented result on a partitioned slice (the
  spans of a file are ordered by their first row).
\<close>

section \<open>The code\<close>

definition partition_point :: "('a \<Rightarrow> bool) \<Rightarrow> 'a list \<Rightarrow> usize" where
  "partition_point P xs = length (takeWhile P xs)"

definition span_index_range :: "parsed_file \<Rightarrow> usize \<Rightarrow> usize \<Rightarrow> usize \<times> usize" where
  "span_index_range file start_line end_line =
     (let lo = partition_point (\<lambda>sp. unat (sp_start_row sp) < start_line) (pf_spans file);
          hi = partition_point (\<lambda>sp. unat (sp_start_row sp) \<le> end_line) (pf_spans file)
      in (lo, max hi lo))"

definition vec_slice :: "usize \<times> usize \<Rightarrow> 'a list \<Rightarrow> 'a list" where
  "vec_slice rg xs = take (snd rg - fst rg) (drop (fst rg) xs)"

definition STRUCT_TAG :: u64 where "STRUCT_TAG = push_bit 63 1"

record member =
  mb_raw :: "u64 list"
  mb_occ :: clone_occurrence
  mb_token_len :: usize

text \<open>\<open>min_tokens\<close> of the two settings it reads.\<close>

definition min_tokens :: "bool \<Rightarrow> usize \<Rightarrow> usize" where
  "min_tokens near_miss threshold = (if near_miss then threshold else threshold * 2)"

definition function_tokens :: "parsed_file \<Rightarrow> function_unit \<Rightarrow> (structural_token \<times> u64) list" where
  "function_tokens file func =
     (let rg = span_index_range file (fu_start_line func) (fu_end_line func)
      in map (\<lambda>((tok, sp), lx). (tok, lx))
           (zip (zip (vec_slice rg (pf_tokens file)) (vec_slice rg (pf_spans file)))
             (vec_slice rg (pf_lexemes file))))"

fun is_renameable :: "structural_token \<Rightarrow> bool" where
  "is_renameable GenericIdentifier = True"
| "is_renameable GenericLiteral = True"
| "is_renameable _ = False"

text \<open>The map over the tokens, with the ordinals given so far and their number.\<close>

fun canonical_from :: "(u64 \<rightharpoonup> u64) \<Rightarrow> nat \<Rightarrow> (structural_token \<times> u64) list \<Rightarrow> u64 list" where
  "canonical_from ordinal n [] = []"
| "canonical_from ordinal n ((tok, lx) # rest) =
     (if is_renameable tok then
        (case ordinal lx of
           Some k \<Rightarrow> k # canonical_from ordinal n rest
         | None \<Rightarrow> of_nat n # canonical_from (ordinal(lx \<mapsto> of_nat n)) (Suc n) rest)
      else (Bit_Operations.or lx STRUCT_TAG) # canonical_from ordinal n rest)"

definition canonical_key :: "(structural_token \<times> u64) list \<Rightarrow> u64 list" where
  "canonical_key tokens = canonical_from Map.empty 0 tokens"

definition file_members :: "parsed_file \<Rightarrow> usize \<Rightarrow> (u64 list \<times> member) list" where
  "file_members file threshold = concat (map (\<lambda>func.
     let tokens = function_tokens file func
     in if length tokens < threshold then []
        else [(canonical_key tokens,
               \<lparr>mb_raw = map snd tokens,
                mb_occ = \<lparr>oc_file = pf_path file, oc_start_row = fu_start_line func,
                          oc_end_row = fu_end_line func\<rparr>,
                mb_token_len = length tokens\<rparr>)]) (top_level_functions file))"

definition near_miss_class :: "member list \<Rightarrow> clone_class option" where
  "near_miss_class members =
     (if length members < 2 \<or> list_all (\<lambda>m. mb_raw m = mb_raw (members ! 0)) members then None
      else Some \<lparr>cl_action = Advisory, cl_token_length = Min (set (map mb_token_len members)),
        cl_occurrences = map mb_occ members, cl_hint = Some ''consistent-rename clone'',
        cl_detector = NearMiss, cl_absorbed = []\<rparr>)"

definition near_miss_detect :: "parsed_file list \<Rightarrow> usize \<Rightarrow> clone_class list" where
  "near_miss_detect files threshold =
     (let entries = concat (map (\<lambda>file. file_members file threshold) files);
          groups = group_entries entries
      in List.map_filter (\<lambda>key. near_miss_class (the (groups key))) (sort (remdups (map fst entries))))"

section \<open>Equal keys are consistent renames\<close>

definition one_to_one :: "('a \<times> 'b) set \<Rightarrow> bool" where
  "one_to_one S \<longleftrightarrow> (\<forall>(c, d) \<in> S. \<forall>(c', d') \<in> S. c = c' \<longleftrightarrow> d = d')"

text \<open>Position by position: renameable against renameable, else the same code.\<close>

definition same_shape :: "(structural_token \<times> u64) list \<Rightarrow> (structural_token \<times> u64) list \<Rightarrow> bool" where
  "same_shape xs ys \<longleftrightarrow> list_all2 (\<lambda>(t, c) (u, d). is_renameable t = is_renameable u
     \<and> (is_renameable t \<or> c = d)) xs ys"

definition renamed_pairs :: "(structural_token \<times> u64) list \<Rightarrow> (structural_token \<times> u64) list \<Rightarrow> (u64 \<times> u64) set" where
  "renamed_pairs xs ys = (\<lambda>((t, c), (u, d)). (c, d)) ` {((t, c), (u, d)) \<in> set (zip xs ys). is_renameable t}"

definition ordinals_ok :: "(u64 \<rightharpoonup> u64) \<Rightarrow> nat \<Rightarrow> bool" where
  "ordinals_ok m n \<longleftrightarrow> inj_on m (dom m) \<and> ran m = of_nat ` {..<n}"

definition matched_ordinals :: "(u64 \<rightharpoonup> u64) \<Rightarrow> (u64 \<rightharpoonup> u64) \<Rightarrow> (u64 \<times> u64) set" where
  "matched_ordinals m1 m2 = {(c, d). \<exists>k. m1 c = Some k \<and> m2 d = Some k}"

lemma same_shape_Nil [simp]: "same_shape [] []" "renamed_pairs [] ys = {}"
  by (auto simp: same_shape_def renamed_pairs_def)

lemma same_shape_Cons [simp]:
  "same_shape ((t, c) # xs) ((u, d) # ys) \<longleftrightarrow>
     is_renameable t = is_renameable u \<and> (is_renameable t \<or> c = d) \<and> same_shape xs ys"
  by (auto simp: same_shape_def)

lemma renamed_pairs_Cons [simp]:
  "renamed_pairs ((t, c) # xs) ((u, d) # ys) =
     (if is_renameable t then insert (c, d) (renamed_pairs xs ys) else renamed_pairs xs ys)"
  by (force simp: renamed_pairs_def image_iff)

lemma bit_STRUCT_TAG [simp]: "bit STRUCT_TAG i \<longleftrightarrow> i = 63"
  unfolding STRUCT_TAG_def bit_push_bit_iff bit_1_iff possible_bit_word by auto

lemma struct_tag_bit [simp]: "bit (Bit_Operations.or c STRUCT_TAG) 63"
  by (simp add: bit_or_iff)

lemma small_no_tag:
  fixes c :: u64
  assumes "c < 2 ^ 63"
  shows "\<not> bit c 63"
proof -
  have "\<not> bit (unat c) 63"
    using assms by (simp add: bit_iff_odd word_less_nat_alt)
  then show ?thesis by (simp add: bit_unsigned_iff)
qed

lemma or_tag_inject:
  fixes c d :: u64
  assumes "token_code c" and "token_code d"
  shows "Bit_Operations.or c STRUCT_TAG = Bit_Operations.or d STRUCT_TAG \<longleftrightarrow> c = d"
proof
  assume eq: "Bit_Operations.or c STRUCT_TAG = Bit_Operations.or d STRUCT_TAG"
  have top: "\<not> bit c 63" "\<not> bit d 63"
    using assms by (auto intro!: small_no_tag simp: token_code_def word_less_nat_alt)
  show "c = d"
  proof (rule bit_word_eqI)
    fix i
    assume "i < LENGTH(64)"
    then show "bit c i \<longleftrightarrow> bit d i"
      using arg_cong [OF eq, of "\<lambda>w. bit w i"] top
      by (cases "i = 63") (auto simp: bit_or_iff)
  qed
qed simp

lemma ordinal_no_tag: "n < 2 ^ 63 \<Longrightarrow> \<not> bit (of_nat n :: u64) 63"
  by (intro small_no_tag) (simp add: word_less_nat_alt unat_of_nat)

lemma ordinals_ok_fresh:
  assumes "ordinals_ok m n" and "n < 2 ^ 63"
  shows "of_nat n \<notin> ran m" and "m c = Some k \<Longrightarrow> \<not> bit k 63"
    and "m c = None \<Longrightarrow> ordinals_ok (m(c \<mapsto> of_nat n)) (Suc n)"
proof -
  have inj: "of_nat i = (of_nat n :: u64) \<longleftrightarrow> i = n" if "i \<le> n" for i
    using that assms(2) by (auto simp: word_unat_eq_iff unat_of_nat)
  then show fresh: "of_nat n \<notin> ran m" using assms(1) inj by (auto simp: ordinals_ok_def) (metis less_irrefl less_imp_le)
  show "\<not> bit k 63" if "m c = Some k"
  proof -
    have "k \<in> of_nat ` {..<n}" using assms(1) that by (auto simp: ordinals_ok_def intro: ranI)
    then show ?thesis using ordinal_no_tag assms(2) by auto
  qed
  show "ordinals_ok (m(c \<mapsto> of_nat n)) (Suc n)" if "m c = None"
  proof -
    have "inj_on (m(c \<mapsto> of_nat n)) (insert c (dom m))"
      using assms(1) fresh that by (intro inj_on_map_fresh) (auto simp: ordinals_ok_def)
    moreover have "ran (m(c \<mapsto> of_nat n)) = of_nat ` {..<Suc n}"
      using assms(1) that by (auto simp: ordinals_ok_def lessThan_Suc)
    ultimately show ?thesis by (simp add: ordinals_ok_def)
  qed
qed

lemma ordinals_ok_inj: "ordinals_ok m n \<Longrightarrow> m c = Some k \<Longrightarrow> m d = Some k \<Longrightarrow> c = d"
  unfolding ordinals_ok_def inj_on_def by (metis domI)

lemma matched_ordinals_total:
  assumes "ordinals_ok m1 n" and "ordinals_ok m2 n" and "m1 c = Some k"
  shows "\<exists>d. (c, d) \<in> matched_ordinals m1 m2 \<and> m2 d = Some k"
proof -
  have "k \<in> ran m2" using assms by (metis ordinals_ok_def ranI)
  then show ?thesis using assms(3) by (auto simp: ran_def matched_ordinals_def)
qed

lemma matched_ordinals_converse: "(c, d) \<in> matched_ordinals m1 m2 \<longleftrightarrow> (d, c) \<in> matched_ordinals m2 m1"
  by (auto simp: matched_ordinals_def)

lemma matched_ordinals_insert:
  assumes ok: "ordinals_ok m1 n" "ordinals_ok m2 n" and n: "n < 2 ^ 63" and new: "m1 c = None" "m2 d = None"
  shows "matched_ordinals (m1(c \<mapsto> of_nat n)) (m2(d \<mapsto> of_nat n)) = insert (c, d) (matched_ordinals m1 m2)"
proof -
  have "m1 x \<noteq> Some (of_nat n)" "m2 x \<noteq> Some (of_nat n)" for x
    using ordinals_ok_fresh(1) [OF ok(1) n] ordinals_ok_fresh(1) [OF ok(2) n] by (auto dest: ranI)
  then show ?thesis using new by (auto simp: matched_ordinals_def split: if_splits)
qed

lemma one_to_one_clash:
  "(c, d) \<in> S \<Longrightarrow> (c, d') \<in> S \<Longrightarrow> d \<noteq> d' \<Longrightarrow> \<not> one_to_one S"
  "(c, d) \<in> S \<Longrightarrow> (c', d) \<in> S \<Longrightarrow> c \<noteq> c' \<Longrightarrow> \<not> one_to_one S"
  unfolding one_to_one_def by blast+

lemma matched_one_to_one:
  "ordinals_ok m1 n \<Longrightarrow> ordinals_ok m2 n \<Longrightarrow> one_to_one (matched_ordinals m1 m2)"
  unfolding one_to_one_def matched_ordinals_def
  by (auto dest: ordinals_ok_inj)

lemma canonical_from_eq_iff:
  assumes "length xs = length ys" and "ordinals_ok m1 n" and "ordinals_ok m2 n" and "n + length xs < 2 ^ 63"
    and "list_all (token_code \<circ> snd) xs" and "list_all (token_code \<circ> snd) ys"
  shows "canonical_from m1 n xs = canonical_from m2 n ys \<longleftrightarrow>
    same_shape xs ys \<and> one_to_one (matched_ordinals m1 m2 \<union> renamed_pairs xs ys)"
  using assms
proof (induction xs ys arbitrary: m1 m2 n rule: list_induct2)
  case Nil
  then show ?case using matched_one_to_one by simp
next
  case (Cons x xs y ys)
  obtain t c u d where xy: "x = (t, c)" "y = (u, d)" by fastforce
  have n: "n < 2 ^ 63" using Cons.prems(3) by simp
  note ok = Cons.prems(1,2)
  note tag1 = ordinals_ok_fresh(2) [OF ok(1) n] and tag2 = ordinals_ok_fresh(2) [OF ok(2) n]
  have tags: "m1 c = Some k \<Longrightarrow> k \<noteq> Bit_Operations.or z STRUCT_TAG" "m2 d = Some k \<Longrightarrow> Bit_Operations.or z STRUCT_TAG \<noteq> k"
    "of_nat n \<noteq> Bit_Operations.or z STRUCT_TAG" "Bit_Operations.or z STRUCT_TAG \<noteq> of_nat n" for k z
    using tag1 tag2 struct_tag_bit [of z] ordinal_no_tag [OF n] by metis+
  have codes: "token_code c" "token_code d" using Cons.prems(4,5) xy by auto
  have IH: "canonical_from k1 l xs = canonical_from k2 l ys \<longleftrightarrow>
      same_shape xs ys \<and> one_to_one (matched_ordinals k1 k2 \<union> renamed_pairs xs ys)"
    if "ordinals_ok k1 l" "ordinals_ok k2 l" "l \<le> Suc n" for k1 k2 l
    using Cons.IH [OF that(1,2)] Cons.prems(3-5) that(3) by simp
  show ?case
  proof (cases "is_renameable t \<and> is_renameable u")
    case False
    then show ?thesis
      using IH [OF ok] tags or_tag_inject [OF codes] by (auto simp: xy split: option.splits)
  next
    case True
    consider (both) k l where "m1 c = Some k" "m2 d = Some l" | (left) k where "m1 c = Some k" "m2 d = None"
      | (right) l where "m1 c = None" "m2 d = Some l" | (new) "m1 c = None" "m2 d = None"
      by (cases "m1 c"; cases "m2 d") auto
    then show ?thesis
    proof cases
      case both
      show ?thesis
      proof (cases "k = l")
        case True
        then have "(c, d) \<in> matched_ordinals m1 m2" using both by (auto simp: matched_ordinals_def)
        then show ?thesis using \<open>is_renameable t \<and> is_renameable u\<close> True both IH [OF ok]
          by (simp add: xy insert_absorb)
      next
        case False
        obtain d' where "(c, d') \<in> matched_ordinals m1 m2" "m2 d' = Some k"
          using matched_ordinals_total [OF ok both(1)] by blast
        then have "\<not> one_to_one (matched_ordinals m1 m2 \<union> insert (c, d) (renamed_pairs xs ys))"
          using False both(2) by (intro one_to_one_clash(1) [of c d' _ d]) auto
        then show ?thesis using \<open>is_renameable t \<and> is_renameable u\<close> False both by (simp add: xy)
      qed
    next
      case left
      obtain d' where "(c, d') \<in> matched_ordinals m1 m2" "m2 d' = Some k"
        using matched_ordinals_total [OF ok left(1)] by blast
      then have "\<not> one_to_one (matched_ordinals m1 m2 \<union> insert (c, d) (renamed_pairs xs ys))"
        using left(2) by (intro one_to_one_clash(1) [of c d' _ d]) auto
      moreover have "k \<noteq> of_nat n" using ordinals_ok_fresh(1) [OF ok(1) n] left(1) by (auto intro: ranI)
      ultimately show ?thesis using True left by (simp add: xy)
    next
      case right
      obtain c' where "(d, c') \<in> matched_ordinals m2 m1" "m1 c' = Some l"
        using matched_ordinals_total [OF ok(2,1) right(2)] by blast
      then have "\<not> one_to_one (matched_ordinals m1 m2 \<union> insert (c, d) (renamed_pairs xs ys))"
        using right(1) matched_ordinals_converse [of d c' m2 m1]
        by (intro one_to_one_clash(2) [of c' d _ c]) auto
      moreover have "of_nat n \<noteq> l" using ordinals_ok_fresh(1) [OF ok(2) n] right(2) by (auto intro: ranI)
      ultimately show ?thesis using True right by (simp add: xy)
    next
      case new
      then show ?thesis
        using True IH [OF ordinals_ok_fresh(3) [OF ok(1) n new(1)] ordinals_ok_fresh(3) [OF ok(2) n new(2)]]
          matched_ordinals_insert [OF ok n new] by (simp add: xy)
    qed
  qed
qed

lemma canonical_from_length: "length (canonical_from m n xs) = length xs"
  by (induction xs arbitrary: m n) (auto split: option.splits)

section \<open>Properties\<close>

text \<open>C17: Two functions get the same canonical key exactly when they have the same shape (the same
  structural and operator codes, renameable tokens at the same places) and the codes at the
  renameable places correspond one to one, that is, a consistent renaming maps one onto the other.\<close>

theorem canonical_key_iff_rename:
  assumes "list_all (token_code \<circ> snd) xs" and "list_all (token_code \<circ> snd) ys" and "length xs < 2 ^ 63"
  shows "canonical_key xs = canonical_key ys \<longleftrightarrow> same_shape xs ys \<and> one_to_one (renamed_pairs xs ys)"
proof (cases "length xs = length ys")
  case True
  have "ordinals_ok Map.empty 0" by (simp add: ordinals_ok_def)
  from canonical_from_eq_iff [OF True this this] assms show ?thesis
    by (simp add: canonical_key_def matched_ordinals_def)
next
  case False
  then have "canonical_key xs \<noteq> canonical_key ys"
    unfolding canonical_key_def by (metis canonical_from_length)
  then show ?thesis using False by (auto simp: same_shape_def dest: list_all2_lengthD)
qed

theorem canonical_key_iff_rename_witness:
  "canonical_key [(GenericIdentifier, 20), (Call, 10), (GenericIdentifier, 20)] \<noteq>
   canonical_key [(GenericIdentifier, 30), (Call, 10), (GenericLiteral, 31)]"
  by (subst canonical_key_iff_rename)
     (simp_all add: token_code_def one_to_one_def)

end
