(* ===== verification/Consolidate.thy ===== *)
theory Consolidate
  imports Report
begin

text \<open>
  Reported line ranges: overlap suppression and the dedup key of
  \<open>src/noze/duplication/mod.rs\<close>, and the folding of clone classes into wider ones of
  \<open>src/noze/duplication/consolidate.rs\<close>. The file hasher is a parameter of the dedup key.
  \<open>ledger\<close> is the specification of folding: what is kept plus what is recorded as absorbed.
\<close>

section \<open>Overlaps\<close>

definition overlaps :: "clone_occurrence \<Rightarrow> clone_occurrence \<Rightarrow> bool" where
  "overlaps a b \<longleftrightarrow> oc_file a = oc_file b \<and> oc_start_row a \<le> oc_end_row b \<and> oc_start_row b \<le> oc_end_row a"

fun suppress_from :: "clone_occurrence list \<Rightarrow> clone_occurrence list \<Rightarrow> clone_occurrence list" where
  "suppress_from kept [] = kept"
| "suppress_from kept (occ # rest) =
     (if kept \<noteq> [] \<and> oc_file (last kept) = oc_file occ \<and> oc_start_row occ \<le> oc_end_row (last kept)
      then suppress_from kept rest else suppress_from (kept @ [occ]) rest)"

definition suppress_overlaps :: "clone_occurrence list \<Rightarrow> clone_occurrence list" where
  "suppress_overlaps occ = suppress_from [] (sort_key (\<lambda>o'. (oc_file o', oc_start_row o')) occ)"

definition dedup_key :: "(path \<times> usize \<Rightarrow> u64) \<Rightarrow> clone_occurrence list \<Rightarrow> usize \<Rightarrow> u64" where
  "dedup_key fx occ len =
     (let combined = fold (\<lambda>o' acc. Bit_Operations.xor acc (fx (oc_file o', oc_start_row o'))) occ 0
      in Bit_Operations.xor (word_rotl 1 combined) (of_nat len))"

definition row_ordered :: "clone_occurrence \<Rightarrow> bool" where
  "row_ordered o' \<longleftrightarrow> oc_start_row o' \<le> oc_end_row o'"

definition start_le :: "clone_occurrence \<Rightarrow> clone_occurrence \<Rightarrow> bool" where
  "start_le a b \<longleftrightarrow> (oc_file a, oc_start_row a) \<le> (oc_file b, oc_start_row b)"

definition apart :: "clone_occurrence \<Rightarrow> clone_occurrence \<Rightarrow> bool" where
  "apart a b \<longleftrightarrow> start_le a b \<and> (oc_file a = oc_file b \<longrightarrow> oc_end_row a < oc_start_row b)"

lemma apart_not_overlaps: "apart a b \<Longrightarrow> \<not> overlaps a b"
  by (auto simp: apart_def overlaps_def)

lemma apart_trans:
  "apart a b \<Longrightarrow> apart b c \<Longrightarrow> row_ordered b \<Longrightarrow> apart a c"
  by (auto simp: apart_def start_le_def row_ordered_def)

lemma start_le_same: "start_le a b \<Longrightarrow> oc_file a = oc_file b \<Longrightarrow> oc_start_row a \<le> oc_start_row b"
  by (auto simp: start_le_def)

lemma suppress_from_inv:
  assumes "sorted_wrt apart kept" and "sorted_wrt start_le occ"
    and "\<forall>k \<in> set kept. \<forall>o' \<in> set occ. start_le k o'"
    and "\<forall>o' \<in> set kept \<union> set occ. row_ordered o'"
  shows "sorted_wrt apart (suppress_from kept occ) \<and> set kept \<subseteq> set (suppress_from kept occ)
    \<and> set (suppress_from kept occ) \<subseteq> set kept \<union> set occ
    \<and> (\<forall>o' \<in> set occ. \<exists>k \<in> set (suppress_from kept occ). overlaps k o')"
  using assms
proof (induction kept occ rule: suppress_from.induct)
  case (2 kept o' rest)
  let ?drop = "kept \<noteq> [] \<and> oc_file (last kept) = oc_file o' \<and> oc_start_row o' \<le> oc_end_row (last kept)"
  show ?case
  proof (cases ?drop)
    case True
    have "overlaps (last kept) o'"
      using True "2.prems"(3,4) start_le_same [of "last kept" o'] by (auto simp: overlaps_def row_ordered_def)
    moreover have "last kept \<in> set kept" using True by simp
    moreover have IH: "sorted_wrt apart (suppress_from kept rest) \<and> set kept \<subseteq> set (suppress_from kept rest)
      \<and> set (suppress_from kept rest) \<subseteq> set kept \<union> set rest
      \<and> (\<forall>o' \<in> set rest. \<exists>k \<in> set (suppress_from kept rest). overlaps k o')"
      using "2.IH"(1) [OF True] "2.prems" by auto
    ultimately have "\<exists>k \<in> set (suppress_from kept rest). overlaps k o'" by blast
    then show ?thesis using IH True by auto
  next
    case False
    have "apart k o'" if "k \<in> set kept" for k
    proof (cases "k = last kept")
      case True
      then show ?thesis using False "2.prems"(3) that by (fastforce simp: apart_def)
    next
      case other: False
      have "kept \<noteq> []" using that by auto
      then obtain ks where ks: "kept = ks @ [last kept]" by (metis append_butlast_last_id)
      then have "k \<in> set ks" using that other by (metis Un_iff empty_set list.set(1,2) set_append singletonD)
      then have "apart k (last kept)" using "2.prems"(1) ks by (metis list.set_intros(1) sorted_wrt_append)
      moreover have "apart (last kept) o'"
        using False "2.prems"(3) \<open>kept \<noteq> []\<close> by (fastforce simp: apart_def)
      moreover have "row_ordered (last kept)" using "2.prems"(4) \<open>kept \<noteq> []\<close> by simp
      ultimately show ?thesis by (rule apart_trans)
    qed
    then have sorted: "sorted_wrt apart (kept @ [o'])" using "2.prems"(1) by (simp add: sorted_wrt_append)
    moreover have "overlaps o' o'" using "2.prems"(4) by (simp add: overlaps_def row_ordered_def)
    ultimately show ?thesis using "2.IH"(2) [OF False sorted] "2.prems" False by auto
  qed
qed simp

lemma suppress_overlaps_inv:
  assumes "list_all row_ordered occ"
  shows "sorted_wrt apart (suppress_overlaps occ)" and "set (suppress_overlaps occ) \<subseteq> set occ"
    and "\<forall>o' \<in> set occ. \<exists>k \<in> set (suppress_overlaps occ). overlaps k o'"
proof -
  have "sorted_wrt start_le (sort_key (\<lambda>o'. (oc_file o', oc_start_row o')) occ)"
    using sorted_sort_key [of "\<lambda>o'. (oc_file o', oc_start_row o')" occ]
    by (simp add: sorted_map start_le_def [abs_def])
  from suppress_from_inv [OF _ this, of "[]"] assms
  show "sorted_wrt apart (suppress_overlaps occ)" "set (suppress_overlaps occ) \<subseteq> set occ"
    "\<forall>o' \<in> set occ. \<exists>k \<in> set (suppress_overlaps occ). overlaps k o'"
    by (auto simp: suppress_overlaps_def list_all_iff)
qed

section \<open>Folding classes\<close>

fun cover_from :: "clone_occurrence list \<Rightarrow> usize list \<Rightarrow> clone_occurrence list \<Rightarrow> usize list option" where
  "cover_from host slots [] = Some slots"
| "cover_from host slots (occ # rest) =
     (case find (\<lambda>idx. idx \<notin> set slots \<and> overlaps (host ! idx) occ) [0..<length host] of
        None \<Rightarrow> None
      | Some slot \<Rightarrow> cover_from host (slots @ [slot]) rest)"

definition cover :: "clone_class \<Rightarrow> clone_class \<Rightarrow> usize list option" where
  "cover host cls = cover_from (cl_occurrences host) [] (cl_occurrences cls)"

definition widen :: "clone_occurrence \<Rightarrow> clone_occurrence \<Rightarrow> clone_occurrence" where
  "widen target occ = target\<lparr>oc_start_row := min (oc_start_row target) (oc_start_row occ),
     oc_end_row := max (oc_end_row target) (oc_end_row occ)\<rparr>"

definition widen_all :: "clone_occurrence list \<Rightarrow> (clone_occurrence \<times> usize) list \<Rightarrow> clone_occurrence list" where
  "widen_all host pairs = fold (\<lambda>(occ, slot) os. os[slot := widen (os ! slot) occ]) pairs host"

definition absorb :: "clone_class \<Rightarrow> clone_class \<Rightarrow> usize list \<Rightarrow> clone_class" where
  "absorb host cls slots =
     host\<lparr>cl_occurrences := widen_all (cl_occurrences host) (zip (cl_occurrences cls) slots),
       cl_absorbed := cl_absorbed host @ [\<lparr>ab_detector = cl_detector cls,
         ab_token_length = cl_token_length cls, ab_copies = length slots\<rparr>]\<rparr>"

text \<open>The first kept class that covers the new one absorbs it.\<close>

fun absorb_first :: "clone_class \<Rightarrow> clone_class list \<Rightarrow> clone_class list option" where
  "absorb_first cls [] = None"
| "absorb_first cls (host # kept) =
     (case cover host cls of
        Some slots \<Rightarrow> Some (absorb host cls slots # kept)
      | None \<Rightarrow> map_option (Cons host) (absorb_first cls kept))"

definition consolidate_step :: "clone_class list \<Rightarrow> clone_class \<Rightarrow> clone_class list" where
  "consolidate_step kept cls = (case absorb_first cls kept of Some kept' \<Rightarrow> kept' | None \<Rightarrow> kept @ [cls])"

definition consolidate :: "clone_class list \<Rightarrow> clone_class list" where
  "consolidate classes = foldl consolidate_step []
     (sort_key (\<lambda>c. (Reverse (length (cl_occurrences c)), cl_detector c, Reverse (cl_token_length c))) classes)"

section \<open>Nothing is lost\<close>

definition contained :: "clone_occurrence \<Rightarrow> clone_occurrence \<Rightarrow> bool" where
  "contained occ target \<longleftrightarrow> oc_file occ = oc_file target
     \<and> oc_start_row target \<le> oc_start_row occ \<and> oc_end_row occ \<le> oc_end_row target"

definition covered :: "clone_class list \<Rightarrow> clone_occurrence \<Rightarrow> bool" where
  "covered kept occ \<longleftrightarrow> list_ex (\<lambda>k. list_ex (contained occ) (cl_occurrences k)) kept"

definition entry_of :: "clone_class \<Rightarrow> clone_detector \<times> usize \<times> usize" where
  "entry_of c = (cl_detector c, cl_token_length c, length (cl_occurrences c))"

definition absorbed_entry :: "absorbed_clone \<Rightarrow> clone_detector \<times> usize \<times> usize" where
  "absorbed_entry a = (ab_detector a, ab_token_length a, ab_copies a)"

definition ledger :: "clone_class list \<Rightarrow> (clone_detector \<times> usize \<times> usize) list" where
  "ledger kept = concat (map (\<lambda>c. entry_of c # map absorbed_entry (cl_absorbed c)) kept)"

lemma contained_refl [simp]: "contained a a"
  by (simp add: contained_def)

lemma contained_trans: "contained a b \<Longrightarrow> contained b c \<Longrightarrow> contained a c"
  by (auto simp: contained_def)

lemma contained_widen: "contained target (widen target occ)"
  by (simp add: contained_def widen_def)

lemma contained_widen_occ: "oc_file target = oc_file occ \<Longrightarrow> contained occ (widen target occ)"
  by (simp add: contained_def widen_def)

lemma widen_file [simp]: "oc_file (widen target occ) = oc_file target"
  by (simp add: widen_def)

lemma widen_all_length [simp]: "length (widen_all host pairs) = length host"
  unfolding widen_all_def by (induction pairs arbitrary: host) auto

lemma widen_all_Cons: "widen_all host ((occ, slot) # pairs) = widen_all (host[slot := widen (host ! slot) occ]) pairs"
  by (simp add: widen_all_def)

lemma widen_all_mono:
  "i < length host \<Longrightarrow> contained (host ! i) (widen_all host pairs ! i)"
proof (induction pairs arbitrary: host)
  case (Cons p pairs)
  obtain occ slot where p: "p = (occ, slot)" by fastforce
  have "contained (host ! i) (host[slot := widen (host ! slot) occ] ! i)"
    using Cons.prems by (cases "i = slot") (auto simp: contained_widen)
  with Cons.IH [of "host[slot := widen (host ! slot) occ]"] Cons.prems show ?case
    by (auto simp: p widen_all_Cons intro: contained_trans)
qed (simp add: widen_all_def)

lemma widen_all_covers:
  assumes "(occ, slot) \<in> set pairs" and "\<forall>(occ, slot) \<in> set pairs. slot < length host \<and> oc_file (host ! slot) = oc_file occ"
  shows "contained occ (widen_all host pairs ! slot)"
  using assms
proof (induction pairs arbitrary: host)
  case (Cons p pairs)
  obtain o' s' where p: "p = (o', s')" by fastforce
  let ?host = "host[s' := widen (host ! s') o']"
  have ok: "\<forall>(occ, slot) \<in> set pairs. slot < length ?host \<and> oc_file (?host ! slot) = oc_file occ"
    using Cons.prems(2) p by (auto simp: nth_list_update)
  show ?case
  proof (cases "(occ, slot) = (o', s')")
    case True
    then have "contained occ (?host ! slot)" using Cons.prems(2) p by (auto simp: contained_widen_occ)
    moreover have "contained (?host ! slot) (widen_all ?host pairs ! slot)"
      using True Cons.prems(2) p by (intro widen_all_mono) auto
    ultimately show ?thesis by (auto simp: p widen_all_Cons intro: contained_trans)
  next
    case False
    then show ?thesis using Cons.IH [OF _ ok] Cons.prems(1) p by (auto simp: widen_all_Cons)
  qed
qed simp

lemma cover_from_sound:
  assumes "cover_from host slots occs = Some res"
  shows "\<exists>new. res = slots @ new \<and> list_all2 (\<lambda>occ slot. slot < length host \<and> overlaps (host ! slot) occ) occs new
    \<and> (distinct slots \<longrightarrow> distinct res)"
  using assms
proof (induction host slots occs rule: cover_from.induct)
  case (2 host slots occ rest)
  then obtain slot where f: "find (\<lambda>idx. idx \<notin> set slots \<and> overlaps (host ! idx) occ) [0..<length host] = Some slot"
      and rec: "cover_from host (slots @ [slot]) rest = Some res"
    by (auto split: option.splits)
  have slot: "slot < length host" "slot \<notin> set slots" "overlaps (host ! slot) occ"
    using find_SomeD [OF f] by auto
  from "2.IH" [OF f rec] obtain new where "res = (slots @ [slot]) @ new"
      "list_all2 (\<lambda>occ slot. slot < length host \<and> overlaps (host ! slot) occ) rest new"
      "distinct (slots @ [slot]) \<longrightarrow> distinct res"
    by blast
  with slot show ?case by (intro exI [of _ "slot # new"]) auto
qed simp

lemma cover_sound:
  assumes "cover host cls = Some slots"
  shows "list_all2 (\<lambda>occ slot. slot < length (cl_occurrences host) \<and> overlaps (cl_occurrences host ! slot) occ)
      (cl_occurrences cls) slots" and "distinct slots" and "length slots = length (cl_occurrences cls)"
proof -
  from cover_from_sound [OF assms [unfolded cover_def]]
  show *: "list_all2 (\<lambda>occ slot. slot < length (cl_occurrences host) \<and> overlaps (cl_occurrences host ! slot) occ)
      (cl_occurrences cls) slots" and "distinct slots" by auto
  show "length slots = length (cl_occurrences cls)" using list_all2_lengthD [OF *] by simp
qed

lemma absorb_covers:
  assumes "cover host cls = Some slots"
  shows "occ \<in> set (cl_occurrences cls) \<Longrightarrow> covered [absorb host cls slots] occ"
    and "covered [host] occ \<Longrightarrow> covered [absorb host cls slots] occ"
proof -
  let ?os = "cl_occurrences host" and ?pairs = "zip (cl_occurrences cls) slots"
  note sound = cover_sound [OF assms]
  have ok: "\<forall>(occ, slot) \<in> set ?pairs. slot < length ?os \<and> oc_file (?os ! slot) = oc_file occ"
    using sound(1) by (auto simp: list_all2_conv_all_nth set_zip overlaps_def)
  show "covered [absorb host cls slots] occ" if here: "occ \<in> set (cl_occurrences cls)"
  proof -
    obtain slot where mem: "(occ, slot) \<in> set ?pairs"
      using here sound(3) by (metis in_set_impl_in_set_zip1)
    then have "slot < length ?os" using ok by blast
    with widen_all_covers [OF mem ok] show ?thesis
      by (auto simp: covered_def absorb_def list_ex_iff intro!: bexI [of _ "widen_all ?os ?pairs ! slot"])
  qed
  show "covered [absorb host cls slots] occ" if here: "covered [host] occ"
  proof -
    obtain i where "i < length ?os" "contained occ (?os ! i)"
      using here by (auto simp: covered_def list_ex_iff in_set_conv_nth)
    then have "contained occ (widen_all ?os ?pairs ! i)"
      using widen_all_mono contained_trans by blast
    then show ?thesis using \<open>i < length ?os\<close>
      by (auto simp: covered_def absorb_def list_ex_iff intro!: bexI [of _ "widen_all ?os ?pairs ! i"])
  qed
qed

lemma absorb_first_sound:
  assumes "absorb_first cls kept = Some kept'"
  shows "occ \<in> set (cl_occurrences cls) \<Longrightarrow> covered kept' occ" and "covered kept occ \<Longrightarrow> covered kept' occ"
    and "mset (ledger kept') = add_mset (entry_of cls) (mset (ledger kept))"
proof -
  have "(occ \<in> set (cl_occurrences cls) \<longrightarrow> covered kept' occ) \<and> (covered kept occ \<longrightarrow> covered kept' occ)
    \<and> mset (ledger kept') = add_mset (entry_of cls) (mset (ledger kept))"
    using assms
  proof (induction kept arbitrary: kept')
    case (Cons host kept)
    show ?case
    proof (cases "cover host cls")
      case None
      then obtain rest where "absorb_first cls kept = Some rest" "kept' = host # rest"
        using Cons.prems by auto
      with Cons.IH [of rest] show ?thesis
        by (auto simp: covered_def ledger_def)
    next
      case (Some slots)
      then have kept': "kept' = absorb host cls slots # kept" using Cons.prems by simp
      have "mset (ledger kept') = add_mset (entry_of cls) (mset (ledger (host # kept)))"
        using cover_sound(3) [OF Some]
        by (simp add: kept' ledger_def absorb_def entry_of_def absorbed_entry_def)
      then show ?thesis
        using absorb_covers [OF Some, of occ] by (auto simp: kept' covered_def)
    qed
  qed simp
  then show "occ \<in> set (cl_occurrences cls) \<Longrightarrow> covered kept' occ" "covered kept occ \<Longrightarrow> covered kept' occ"
    "mset (ledger kept') = add_mset (entry_of cls) (mset (ledger kept))" by auto
qed

lemma consolidate_step_sound:
  "occ \<in> set (cl_occurrences cls) \<Longrightarrow> covered (consolidate_step kept cls) occ"
  "covered kept occ \<Longrightarrow> covered (consolidate_step kept cls) occ"
  "cl_absorbed cls = [] \<Longrightarrow> mset (ledger (consolidate_step kept cls)) = add_mset (entry_of cls) (mset (ledger kept))"
  using absorb_first_sound [of cls kept]
  by (auto simp: consolidate_step_def ledger_def covered_def list_ex_iff split: option.splits
      intro!: bexI [of _ occ])

lemma consolidate_fold:
  "covered kept occ \<or> (\<exists>c \<in> set cs. occ \<in> set (cl_occurrences c)) \<Longrightarrow> covered (foldl consolidate_step kept cs) occ"
proof (induction cs arbitrary: kept)
  case (Cons c cs)
  then show ?case using consolidate_step_sound(1) [of occ c kept] consolidate_step_sound(2) [of kept occ c] by auto
qed simp

lemma consolidate_fold_ledger:
  "list_all (\<lambda>c. cl_absorbed c = []) cs \<Longrightarrow>
   mset (ledger (foldl consolidate_step kept cs)) = mset (map entry_of cs) + mset (ledger kept)"
  by (induction cs arbitrary: kept) (auto simp: consolidate_step_sound(3))

section \<open>Properties\<close>

text \<open>C18: Suppression keeps reported ranges of a clone apart and drops only what overlaps: kept
  occurrences come in file and row order, no two of them overlap, and every occurrence given is kept
  or overlaps a kept one.\<close>

theorem suppress_overlaps_disjoint:
  assumes "list_all row_ordered occ"
  shows "sorted_wrt (\<lambda>a b. start_le a b \<and> \<not> overlaps a b) (suppress_overlaps occ)
    \<and> set (suppress_overlaps occ) \<subseteq> set occ
    \<and> (\<forall>o' \<in> set occ. \<exists>k \<in> set (suppress_overlaps occ). overlaps k o')"
  using suppress_overlaps_inv [OF assms]
  by (auto simp: apart_def overlaps_def elim!: sorted_wrt_mono_rel [rotated])

theorem suppress_overlaps_disjoint_witness:
  "suppress_overlaps [sample_occurrence ''b'' 1 5, sample_occurrence ''a'' 4 9, sample_occurrence ''a'' 1 4]
     = [sample_occurrence ''a'' 1 4, sample_occurrence ''b'' 1 5]
   \<and> overlaps (sample_occurrence ''a'' 1 4) (sample_occurrence ''a'' 4 9)"
proof -
  let ?occ = "[sample_occurrence ''b'' 1 5, sample_occurrence ''a'' 4 9, sample_occurrence ''a'' 1 4]"
  have eq: "suppress_overlaps ?occ = [sample_occurrence ''a'' 1 4, sample_occurrence ''b'' 1 5]" by code_simp
  have "list_all row_ordered ?occ" by code_simp
  from suppress_overlaps_disjoint [OF this] have
    "\<exists>k \<in> set (suppress_overlaps ?occ). overlaps k (sample_occurrence ''a'' 4 9)" by auto
  then show ?thesis unfolding eq by (auto simp: overlaps_def sample_occurrence_def)
qed

text \<open>C19: Folding loses no location: every reported line range of every class lies inside a range of
  a class that is kept.\<close>

theorem consolidate_covers:
  "list_all (\<lambda>c. list_all (covered (consolidate classes)) (cl_occurrences c)) classes"
  using consolidate_fold [of "[]" _ "sort_key _ classes"]
  by (auto simp: consolidate_def list_all_iff)

text \<open>C20: Folding is exact bookkeeping: each class is either kept or recorded as absorbed with its
  detector, length and number of copies, exactly once.\<close>

theorem consolidate_ledger:
  assumes "list_all (\<lambda>c. cl_absorbed c = []) classes"
  shows "mset (ledger (consolidate classes)) = mset (map entry_of classes)"
proof -
  let ?s = "sort_key (\<lambda>c. (Reverse (length (cl_occurrences c)), cl_detector c, Reverse (cl_token_length c))) classes"
  have "list_all (\<lambda>c. cl_absorbed c = []) ?s" using assms by (simp add: list_all_iff)
  from consolidate_fold_ledger [OF this, of "[]"] show ?thesis
    by (simp add: consolidate_def ledger_def)
qed

theorem consolidate_ledger_witness:
  "mset (ledger (consolidate [sample_clone [sample_occurrence ''a'' 1 9] 30, sample_clone [sample_occurrence ''a'' 5 12] 20]))
     = {#(Structural, 30, 1), (Structural, 20, 1)#}"
  by (subst consolidate_ledger) (simp_all add: sample_clone_def entry_of_def)

end
