(* ===== verification/ClassShapes.thy ===== *)
theory ClassShapes
  imports Spine
begin

text \<open>
  Class-shape duplication, \<open>src/noze/duplication/class_shapes.rs\<close>: classes of one name in
  several places and pairs of classes that share typed properties. A \<open>BTreeMap\<close> or
  \<open>BTreeSet\<close> is walked in key order; the profiles' clone family is a parameter.
\<close>

type_synonym property_key = "string \<times> string"

record class_shape =
  sh_family :: language
  sh_name :: string
  sh_occurrence :: clone_occurrence
  sh_properties :: "property_key list"

text \<open>\<open>property_map\<close>: the keys of the map, in key order (the lines it stores are never read).\<close>

definition property_map :: "class_property list \<Rightarrow> property_key list" where
  "property_map properties = sort (remdups (map (\<lambda>p. (cp_name p, cp_type_name p))
     (filter (\<lambda>p. \<not> (cp_name p = [] \<or> cp_type_name p = [])) properties)))"

definition collect_classes :: "(language \<Rightarrow> language) \<Rightarrow> parsed_file list \<Rightarrow> class_shape list" where
  "collect_classes family files = concat (map (\<lambda>file.
     map (\<lambda>c. \<lparr>sh_family = family (pf_language file), sh_name = cu_name c,
           sh_occurrence = \<lparr>oc_file = pf_path file, oc_start_row = cu_start_line c, oc_end_row = cu_end_line c\<rparr>,
           sh_properties = property_map (cu_properties c)\<rparr>)
       (filter (\<lambda>c. cu_name c \<noteq> []) (wk_classes (pf_walked file)))) files)"

definition shape_location :: "class_shape \<Rightarrow> path \<times> usize" where
  "shape_location c = (oc_file (sh_occurrence c), oc_start_row (sh_occurrence c))"

definition distinct_locations :: "class_shape list \<Rightarrow> usize" where
  "distinct_locations grp = length (remdups (map shape_location grp))"

definition same_name_class :: "class_shape list \<Rightarrow> clone_class" where
  "same_name_class grp = \<lparr>cl_action = Info, cl_token_length = 0, cl_occurrences = map sh_occurrence grp,
     cl_hint = Some (''class name `'' @ sh_name (grp ! 0) @ ''` appears in multiple places''),
     cl_detector = ClassShape, cl_absorbed = []\<rparr>"

definition same_name_findings :: "class_shape list \<Rightarrow> clone_class list" where
  "same_name_findings classes =
     (let keys = sort (remdups (map (\<lambda>c. (sh_family c, sh_name c)) classes))
      in map same_name_class (filter (\<lambda>grp. distinct_locations grp \<ge> 2)
           (map (\<lambda>k. filter (\<lambda>c. (sh_family c, sh_name c) = k) classes) keys)))"

definition shared_keys :: "class_shape \<Rightarrow> class_shape \<Rightarrow> property_key list" where
  "shared_keys left right = filter (\<lambda>k. k \<in> set (sh_properties right)) (sh_properties left)"

definition shared_properties :: "class_shape \<Rightarrow> class_shape \<Rightarrow> string list" where
  "shared_properties left right = map (\<lambda>(n, t). n @ '': '' @ t) (shared_keys left right)"

definition pair_key :: "class_shape \<Rightarrow> class_shape \<Rightarrow> (path \<times> usize) \<times> (path \<times> usize)" where
  "pair_key left right = (let a = shape_location left; b = shape_location right
     in if a \<le> b then (a, b) else (b, a))"

definition overlap_class :: "class_shape \<Rightarrow> class_shape \<Rightarrow> clone_class" where
  "overlap_class left right = (let shared = shared_properties left right in
     \<lparr>cl_action = Advisory, cl_token_length = length shared,
      cl_occurrences = [sh_occurrence left, sh_occurrence right],
      cl_hint = Some (''class property overlap: '' @ nat_text (length shared)
        @ '' shared typed properties ('' @ join_with '', '' shared @ '')''),
      cl_detector = ClassShape, cl_absorbed = []\<rparr>)"

text \<open>The inner loop over the classes after \<open>left\<close>, then the outer one.\<close>

fun overlap_with ::
  "usize \<Rightarrow> class_shape \<Rightarrow> class_shape list \<Rightarrow> ((path \<times> usize) \<times> (path \<times> usize)) set \<times> clone_class list
    \<Rightarrow> ((path \<times> usize) \<times> (path \<times> usize)) set \<times> clone_class list" where
  "overlap_with min_overlap left [] st = st"
| "overlap_with min_overlap left (right # rest) (seen, out) = overlap_with min_overlap left rest
     (if sh_family left \<noteq> sh_family right \<or> length (sh_properties right) < min_overlap then (seen, out)
      else if length (shared_properties left right) < min_overlap \<or> pair_key left right \<in> seen then (seen, out)
      else (insert (pair_key left right) seen, out @ [overlap_class left right]))"

fun overlap_pairs ::
  "usize \<Rightarrow> class_shape list \<Rightarrow> ((path \<times> usize) \<times> (path \<times> usize)) set \<times> clone_class list
    \<Rightarrow> ((path \<times> usize) \<times> (path \<times> usize)) set \<times> clone_class list" where
  "overlap_pairs min_overlap [] st = st"
| "overlap_pairs min_overlap (left # rest) st = overlap_pairs min_overlap rest
     (if length (sh_properties left) < min_overlap then st else overlap_with min_overlap left rest st)"

definition property_overlap_findings :: "class_shape list \<Rightarrow> usize \<Rightarrow> clone_class list" where
  "property_overlap_findings classes min_overlap = snd (overlap_pairs min_overlap classes ({}, []))"

definition class_shapes_detect ::
  "(language \<Rightarrow> language) \<Rightarrow> parsed_file list \<Rightarrow> bool \<Rightarrow> usize \<Rightarrow> clone_class list" where
  "class_shapes_detect family files class_name_duplicates min_overlap =
     (let classes = collect_classes family files;
          out = (if class_name_duplicates then same_name_findings classes else [])
      in if min_overlap > 0 then out @ property_overlap_findings classes min_overlap else out)"

section \<open>Overlapping pairs\<close>

definition shape_overlap :: "usize \<Rightarrow> class_shape \<Rightarrow> class_shape \<Rightarrow> bool" where
  "shape_overlap m left right \<longleftrightarrow> sh_family left = sh_family right \<and> m \<le> length (shared_keys left right)"

lemma property_map_distinct [simp]: "distinct (property_map ps)"
  by (simp add: property_map_def)

lemma shared_keys_commute:
  "distinct (sh_properties a) \<Longrightarrow> distinct (sh_properties b) \<Longrightarrow> length (shared_keys a b) = length (shared_keys b a)"
proof -
  assume "distinct (sh_properties a)" and "distinct (sh_properties b)"
  then have "distinct (shared_keys a b)" "distinct (shared_keys b a)" by (simp_all add: shared_keys_def)
  moreover have "set (shared_keys a b) = set (shared_keys b a)" by (auto simp: shared_keys_def)
  ultimately show ?thesis by (metis distinct_card)
qed

lemma shared_properties_length [simp]: "length (shared_properties a b) = length (shared_keys a b)"
  by (simp add: shared_properties_def)

lemma shared_keys_le:
  "length (shared_keys a b) \<le> length (sh_properties a)"
  "distinct (sh_properties a) \<Longrightarrow> distinct (sh_properties b) \<Longrightarrow> length (shared_keys a b) \<le> length (sh_properties b)"
  using shared_keys_commute [of a b] by (auto simp: shared_keys_def)

lemma collect_classes_distinct: "c \<in> set (collect_classes family files) \<Longrightarrow> distinct (sh_properties c)"
  by (auto simp: collect_classes_def)

text \<open>What the inner loop reports, given that the size tests are implied by the shared count.\<close>

lemma overlap_with_sound:
  assumes "distinct (sh_properties left)" and "\<forall>r \<in> set rs. distinct (sh_properties r)"
  shows "fst (overlap_with m left rs (seen, out)) = seen \<union> pair_key left ` {r \<in> set rs. shape_overlap m left r}
    \<and> length (snd (overlap_with m left rs (seen, out))) = length out + card (fst (overlap_with m left rs (seen, out)) - seen)"
  using assms(2)
proof (induction rs arbitrary: seen out)
  case (Cons r rs)
  have small: "shape_overlap m left r \<Longrightarrow> \<not> length (sh_properties r) < m"
    using shared_keys_le(2) [of left r] Cons.prems assms(1) by (auto simp: shape_overlap_def)
  let ?k = "pair_key left r"
  show ?case
  proof (cases "shape_overlap m left r \<and> ?k \<notin> seen")
    case True
    let ?rec = "overlap_with m left rs (insert ?k seen, out @ [overlap_class left r])"
    have step: "overlap_with m left (r # rs) (seen, out) = ?rec"
      using True small by (auto simp: shape_overlap_def)
    note IH = Cons.IH [of "insert ?k seen" "out @ [overlap_class left r]"]
    have fst_rec: "fst ?rec = insert ?k seen \<union> pair_key left ` {r \<in> set rs. shape_overlap m left r}"
      using IH Cons.prems by simp
    have "fst ?rec - seen = insert ?k (fst ?rec - insert ?k seen)" using True fst_rec by auto
    moreover have "finite (fst ?rec - insert ?k seen)" unfolding fst_rec by (rule finite_subset [of _ "pair_key left ` set rs"]) auto
    ultimately have "card (fst ?rec - seen) = Suc (card (fst ?rec - insert ?k seen))"
      by (metis DiffD2 card_insert_disjoint insertI1)
    moreover have "seen \<union> pair_key left ` {x \<in> set (r # rs). shape_overlap m left x} =
        insert ?k seen \<union> pair_key left ` {x \<in> set rs. shape_overlap m left x}"
      using True by auto
    ultimately show ?thesis unfolding step using IH Cons.prems by simp
  next
    case False
    have step: "overlap_with m left (r # rs) (seen, out) = overlap_with m left rs (seen, out)"
      using False small by (auto simp: shape_overlap_def)
    have "seen \<union> pair_key left ` {x \<in> set (r # rs). shape_overlap m left x} =
        seen \<union> pair_key left ` {x \<in> set rs. shape_overlap m left x}"
      using False by auto
    then show ?thesis unfolding step using Cons.IH [of seen out] Cons.prems by simp
  qed
qed simp

lemma overlap_with_mem:
  "c \<in> set (snd (overlap_with m left rs (seen, out))) \<Longrightarrow>
     c \<in> set out \<or> (\<exists>r \<in> set rs. c = overlap_class left r \<and> shape_overlap m left r)"
proof (induction rs arbitrary: seen out)
  case (Cons r rs)
  then show ?case by (fastforce simp: shape_overlap_def split: if_splits)
qed simp

text \<open>The pairs of the whole walk.\<close>

fun overlap_keys :: "usize \<Rightarrow> class_shape list \<Rightarrow> ((path \<times> usize) \<times> (path \<times> usize)) set" where
  "overlap_keys m [] = {}"
| "overlap_keys m (left # rest) = pair_key left ` {r \<in> set rest. shape_overlap m left r} \<union> overlap_keys m rest"

definition reported_pair :: "usize \<Rightarrow> class_shape list \<Rightarrow> clone_class \<Rightarrow> bool" where
  "reported_pair m classes c \<longleftrightarrow> (\<exists>l \<in> set classes. \<exists>r \<in> set classes.
     cl_occurrences c = [sh_occurrence l, sh_occurrence r] \<and> shape_overlap m l r)"

lemma reported_pair_mono: "reported_pair m cs c \<Longrightarrow> reported_pair m (l # cs) c"
  by (auto simp: reported_pair_def)

lemma overlap_keys_finite [simp]: "finite (overlap_keys m cs)"
  by (induction cs) auto

lemma overlap_pairs_sound:
  assumes "\<forall>c \<in> set cs. distinct (sh_properties c)"
  shows "fst (overlap_pairs m cs (seen, out)) = seen \<union> overlap_keys m cs
    \<and> length (snd (overlap_pairs m cs (seen, out))) = length out + card (overlap_keys m cs - seen)
    \<and> (\<forall>c \<in> set (snd (overlap_pairs m cs (seen, out))). c \<in> set out \<or> reported_pair m cs c)"
  using assms
proof (induction cs arbitrary: seen out)
  case (Cons left cs)
  have d: "distinct (sh_properties left)" "\<forall>r \<in> set cs. distinct (sh_properties r)" using Cons.prems by auto
  define st1 where "st1 = (if length (sh_properties left) < m then (seen, out) else overlap_with m left cs (seen, out))"
  let ?new = "pair_key left ` {r \<in> set cs. shape_overlap m left r}"
  have none: "shape_overlap m left r \<Longrightarrow> \<not> length (sh_properties left) < m" for r
    using shared_keys_le(1) [of left r] by (auto simp: shape_overlap_def)
  note W = overlap_with_sound [OF d, of m seen out]
  have none': "length (sh_properties left) < m \<Longrightarrow> ?new = {}" using none by blast
  have fst1: "fst st1 = seen \<union> ?new" using W none' by (auto simp: st1_def)
  have len1: "length (snd st1) = length out + card (?new - seen)"
  proof (cases "length (sh_properties left) < m")
    case True
    show ?thesis unfolding none' [OF True] using True by (simp add: st1_def)
  next
    case False
    then show ?thesis using W by (simp add: st1_def Un_Diff)
  qed
  have mem1: "c \<in> set out \<or> reported_pair m (left # cs) c" if "c \<in> set (snd st1)" for c
    using overlap_with_mem [of c m left cs seen out] that by (fastforce simp: st1_def reported_pair_def overlap_class_def Let_def split: if_splits)
  have rec: "overlap_pairs m (left # cs) (seen, out) = overlap_pairs m cs (fst st1, snd st1)"
    by (simp add: st1_def)
  note IH = Cons.IH [OF d(2), of "fst st1" "snd st1"]
  have "card (overlap_keys m (left # cs) - seen) = card ((?new - seen) \<union> (overlap_keys m cs - (seen \<union> ?new)))"
    by (rule arg_cong [of _ _ card]) auto
  also have "\<dots> = card (?new - seen) + card (overlap_keys m cs - (seen \<union> ?new))"
    by (rule card_Un_disjoint) auto
  finally have "card (overlap_keys m (left # cs) - seen) = card (?new - seen) + card (overlap_keys m cs - fst st1)"
    by (simp only: fst1)
  moreover have "c \<in> set out \<or> reported_pair m (left # cs) c"
    if "c \<in> set (snd (overlap_pairs m cs (fst st1, snd st1)))" for c
    using IH mem1 that reported_pair_mono by blast
  ultimately show ?case
    unfolding rec using IH len1 fst1 by (simp add: Un_assoc)
qed simp

section \<open>Properties\<close>


end
