(* ===== verification/SourceScope.thy ===== *)
theory SourceScope
  imports Spine
begin

text \<open>
  Which files the source-level pillars analyse, \<open>src/noze/source_scope.rs\<close>. Glob matching (the
  crate \<open>globset\<close>) and the profiles' test-file patterns are parameters: \<open>globs ps\<close> is the
  matcher compiled from the patterns \<open>ps\<close>.
\<close>

datatype inclusion = Skip | Include

fun inclusion_from_flag :: "bool \<Rightarrow> inclusion" where
  "inclusion_from_flag True = Include"
| "inclusion_from_flag False = Skip"

datatype skip_reason = ConfigExclude | Test | Generated

record source_scope =
  sc_excluded :: "path \<Rightarrow> bool"
  sc_tests :: inclusion
  sc_generated :: inclusion

definition scope_new :: "(string list \<Rightarrow> path \<Rightarrow> bool) \<Rightarrow> string list \<Rightarrow> inclusion \<Rightarrow> inclusion \<Rightarrow> source_scope" where
  "scope_new globs exclude tests generated =
     \<lparr>sc_excluded = globs exclude, sc_tests = tests, sc_generated = generated\<rparr>"

definition scope_for_smells :: "(string list \<Rightarrow> path \<Rightarrow> bool) \<Rightarrow> string list \<Rightarrow> bool \<Rightarrow> source_scope" where
  "scope_for_smells globs exclude include_tests =
     scope_new globs exclude (inclusion_from_flag include_tests) Skip"

definition scope_for_duplication ::
  "(string list \<Rightarrow> path \<Rightarrow> bool) \<Rightarrow> string list \<Rightarrow> bool \<Rightarrow> bool \<Rightarrow> source_scope" where
  "scope_for_duplication globs exclude include_tests include_generated =
     scope_new globs exclude (inclusion_from_flag include_tests) (inclusion_from_flag include_generated)"

definition test_layouts :: "string list" where
  "test_layouts = [''**/tests/**'', ''**/test/**'']"

definition is_test_file ::
  "(string list \<Rightarrow> path \<Rightarrow> bool) \<Rightarrow> (language \<Rightarrow> path \<Rightarrow> bool) \<Rightarrow> parsed_file \<Rightarrow> bool" where
  "is_test_file globs profile_test file \<longleftrightarrow>
     globs test_layouts (pf_path file) \<or> profile_test (pf_language file) (pf_path file)"

definition scope_skip_reason :: "(parsed_file \<Rightarrow> bool) \<Rightarrow> source_scope \<Rightarrow> parsed_file \<Rightarrow> skip_reason option" where
  "scope_skip_reason is_test sc file =
     (if sc_excluded sc (pf_path file) then Some ConfigExclude
      else if sc_tests sc = Skip \<and> is_test file then Some Test
      else if sc_generated sc = Skip \<and> pf_is_generated file then Some Generated
      else None)"

definition scope_includes :: "(parsed_file \<Rightarrow> bool) \<Rightarrow> source_scope \<Rightarrow> parsed_file \<Rightarrow> bool" where
  "scope_includes is_test sc file \<longleftrightarrow> scope_skip_reason is_test sc file = None"

fun count_skip :: "skip_reason \<Rightarrow> skip_counts \<Rightarrow> skip_counts" where
  "count_skip ConfigExclude c = c\<lparr>sk_config_exclude := sk_config_exclude c + 1\<rparr>"
| "count_skip Test c = c\<lparr>sk_tests := sk_tests c + 1\<rparr>"
| "count_skip Generated c = c\<lparr>sk_generated := sk_generated c + 1\<rparr>"

definition scope_skip_counts :: "(parsed_file \<Rightarrow> bool) \<Rightarrow> source_scope \<Rightarrow> parsed_file list \<Rightarrow> skip_counts" where
  "scope_skip_counts is_test sc files =
     fold count_skip (List.map_filter (scope_skip_reason is_test sc) files) no_skips"

lemma fold_count_skip:
  "sk_config_exclude (fold count_skip rs c) = sk_config_exclude c + length (filter (\<lambda>r. r = ConfigExclude) rs)"
  "sk_tests (fold count_skip rs c) = sk_tests c + length (filter (\<lambda>r. r = Test) rs)"
  "sk_generated (fold count_skip rs c) = sk_generated c + length (filter (\<lambda>r. r = Generated) rs)"
proof (induction rs arbitrary: c)
  case (Cons r rs)
  { case 1 show ?case using Cons.IH(1) by (cases r) auto }
  { case 2 show ?case using Cons.IH(2) by (cases r) auto }
  { case 3 show ?case using Cons.IH(3) by (cases r) auto }
qed auto

lemma map_filter_count:
  "length (filter P (List.map_filter f xs)) = length (filter (\<lambda>x. \<exists>y. f x = Some y \<and> P y) xs)"
  by (induction xs) (auto simp: List.map_filter_simps split: option.splits)

section \<open>Properties\<close>


end
