(* ===== verification/Duplication.thy ===== *)
theory Duplication
  imports CloneSpec Gapped NearMiss Consolidate ClassShapes SourceScope
begin

text \<open>
  The duplication pillar, \<open>src/noze/duplication/mod.rs\<close> with \<open>advice.rs\<close>: one cohort of
  files per clone family goes through the master buffer, the extraction, the stitching and the
  mapping back to line ranges; near-miss classes are added, classes are folded and described.
  The build modelled is the one without the \<open>eyez\<close> feature, so there is no semantic pass and
  no issue. The crates and the profile registry are the fields of \<open>dup_externs\<close>.
\<close>

section \<open>The code\<close>

record dup_externs =
  ex_libsais :: "int list \<Rightarrow> string + int list"
  ex_bio :: "nat list \<Rightarrow> nat list"
  ex_hash :: "path \<times> usize \<Rightarrow> u64"
  ex_family :: "language \<Rightarrow> language"

record duplication_config =
  dp_exclude :: "string list"
  dp_include_tests :: bool
  dp_include_generated :: bool
  dp_threshold :: usize
  dp_max_gap :: usize
  dp_near_miss :: bool
  dp_class_name_duplicates :: bool
  dp_class_property_overlap_min :: usize

text \<open>Whether the node of token \<open>t\<close> ends before the token after the match \<open>[start, end)\<close>.\<close>

definition closes_within :: "token_span list \<Rightarrow> usize \<Rightarrow> usize \<Rightarrow> usize \<Rightarrow> bool" where
  "closes_within spans start end t \<longleftrightarrow>
     (if end < length spans \<and> sp_file_id (spans ! end) = sp_file_id (spans ! start)
      then sp_end_byte (spans ! t) \<le> sp_start_byte (spans ! end) else True)"

definition last_closed_row :: "token_span list \<Rightarrow> usize \<Rightarrow> usize \<Rightarrow> u32 option" where
  "last_closed_row spans start end =
     (let rows = map (\<lambda>t. sp_end_row (spans ! t)) (filter (closes_within spans start end) [start..<end])
      in if rows = [] then None else Some (Max (set rows)))"

definition vec_get :: "'a list \<Rightarrow> usize \<Rightarrow> 'a option" where
  "vec_get xs i = (if i < length xs then Some (xs ! i) else None)"

definition occurrence ::
  "parsed_file list \<Rightarrow> token_span list \<Rightarrow> usize \<Rightarrow> usize \<Rightarrow> clone_occurrence option" where
  "occurrence files spans start end =
     (case vec_get spans start of None \<Rightarrow> None | Some first \<Rightarrow>
      (case vec_get spans (end - 1) of None \<Rightarrow> None | Some last_span \<Rightarrow>
       if sp_file_id first = NON_TOKEN \<or> sp_file_id last_span = NON_TOKEN then None
       else (case vec_get files (unat (sp_file_id first)) of None \<Rightarrow> None | Some file \<Rightarrow>
         Some \<lparr>oc_file = pf_path file, oc_start_row = unat (sp_start_row first),
           oc_end_row = unat (case last_closed_row spans start end of
             Some row \<Rightarrow> row | None \<Rightarrow> sp_start_row last_span)\<rparr>)))"

text \<open>The tail of both loops of \<open>detect_partition\<close>: overlaps out, two places at least, each
  set of places once.\<close>

definition push_class ::
  "dup_externs \<Rightarrow> clone_class \<Rightarrow> u64 set \<times> clone_class list \<Rightarrow> u64 set \<times> clone_class list" where
  "push_class ex cls st = (case st of (seen, out) \<Rightarrow>
     let occs = suppress_overlaps (cl_occurrences cls) in
     if length occs < 2 then (seen, out)
     else let key = dedup_key (ex_hash ex) occs (cl_token_length cls) in
       if key \<in> seen then (seen, out)
       else (insert key seen, out @ [cls\<lparr>cl_action := Advisory, cl_occurrences := occs\<rparr>]))"

definition cluster_class :: "parsed_file list \<Rightarrow> token_span list \<Rightarrow> cluster \<Rightarrow> clone_class" where
  "cluster_class files spans c = \<lparr>cl_action = Advisory, cl_token_length = ck_matched c,
     cl_occurrences = List.map_filter (\<lambda>(s, e). occurrence files spans s e) (ck_occ c),
     cl_hint = None, cl_detector = Structural, cl_absorbed = []\<rparr>"

definition partition_clusters :: "dup_externs \<Rightarrow> parsed_file list \<Rightarrow> duplication_config \<Rightarrow> cluster list" where
  "partition_clusters ex files cfg =
     (let master = build_master files;
          (seed, nest) = gap_seed (dp_threshold cfg) (dp_max_gap cfg);
          groups = extract_groups (ex_libsais ex) (ex_bio ex) (ma_text master) seed nest;
          clusters = stitch groups (ma_spans master) (dp_max_gap cfg)
      in filter (\<lambda>c. ck_matched c \<ge> dp_threshold cfg)
           (map (\<lambda>c. close_tails c (ma_spans master)) clusters))"

definition partition_classes :: "dup_externs \<Rightarrow> parsed_file list \<Rightarrow> duplication_config \<Rightarrow> clone_class list" where
  "partition_classes ex files cfg =
     snd (fold (push_class ex)
       (map (cluster_class files (ma_spans (build_master files))) (partition_clusters ex files cfg)
        @ near_miss_detect files (min_tokens (dp_near_miss cfg) (dp_threshold cfg))) ({}, []))"

text \<open>\<open>advice.rs\<close>; the dashes are their UTF-8 bytes.\<close>

definition em_dash :: string where "em_dash = [CHR 0xE2, CHR 0x80, CHR 0x94]"
definition en_dash :: string where "en_dash = [CHR 0xE2, CHR 0x80, CHR 0x93]"

fun clone_advice :: "clone_detector \<Rightarrow> string" where
  "clone_advice (Semantic SameIntentDifferentCode) = ''keep one implementation''"
| "clone_advice _ = ''extract a shared helper''"

definition widest_tokens :: "clone_class \<Rightarrow> usize" where
  "widest_tokens cls = fold max (map ab_token_length (cl_absorbed cls)) (cl_token_length cls)"

definition tokens_text :: "clone_class \<Rightarrow> string" where
  "tokens_text cls =
     (if widest_tokens cls > cl_token_length cls
      then nat_text (cl_token_length cls) @ en_dash @ nat_text (widest_tokens cls) @ '' tokens''
      else nat_text (widest_tokens cls) @ '' tokens'')"

definition overlaps_text :: "usize \<Rightarrow> string" where
  "overlaps_text n = (if n = 0 then [] else if n = 1 then '' (+1 overlapping clone)''
     else '' (+'' @ nat_text n @ '' overlapping clones)'')"

definition describe :: "clone_class \<Rightarrow> clone_class" where
  "describe cls = cls\<lparr>cl_hint := Some
     ((case cl_hint cls of Some label \<Rightarrow> label | None \<Rightarrow> ''structural clone'') @ '': '' @ tokens_text cls @ '', ''
      @ nat_text (length (cl_occurrences cls)) @ '' copies '' @ em_dash @ '' '' @ clone_advice (cl_detector cls)
      @ overlaps_text (length (cl_absorbed cls)))\<rparr>"

definition detect_partition :: "dup_externs \<Rightarrow> parsed_file list \<Rightarrow> duplication_config \<Rightarrow> clone_class list" where
  "detect_partition ex files cfg = map describe (consolidate (partition_classes ex files cfg))"

definition family_partitions :: "(language \<Rightarrow> language) \<Rightarrow> parsed_file list \<Rightarrow> parsed_file list list" where
  "family_partitions family files =
     map (\<lambda>l. filter (\<lambda>f. family (pf_language f) = l) files)
       (sort (remdups (map (\<lambda>f. family (pf_language f)) files)))"

definition duplication_detect ::
  "dup_externs \<Rightarrow> (parsed_file \<Rightarrow> bool) \<Rightarrow> parsed_file list \<Rightarrow> duplication_config \<Rightarrow> source_scope \<Rightarrow> clone_class list" where
  "duplication_detect ex is_test files cfg scope =
     (if files = [] \<or> dp_threshold cfg = 0 then []
      else
        let kept = filter (scope_includes is_test scope) files;
            found = concat (map (\<lambda>part. detect_partition ex part cfg) (family_partitions (ex_family ex) kept));
            shapes = class_shapes_detect (ex_family ex) kept (dp_class_name_duplicates cfg)
              (dp_class_property_overlap_min cfg)
        in sort_key (\<lambda>c. (cl_action c, Reverse (cl_token_length c * length (cl_occurrences c)))) (found @ shapes))"

section \<open>The buffer and its clusters\<close>

lemma file_stream_id:
  "i < length (file_stream k f) \<Longrightarrow> sp_file_id (snd (file_stream k f ! i)) =
     (if Suc i < length (file_stream k f) then of_nat k else NON_TOKEN)"
  by (auto simp: file_stream_def nth_append non_token_span_def less_Suc_eq split: prod.splits)

lemma stream_file_ids:
  assumes "i < length (stream k files)" and "sp_file_id (snd (stream k files ! i)) \<noteq> NON_TOKEN"
  shows "\<exists>j. k \<le> j \<and> j < k + length files \<and> sp_file_id (snd (stream k files ! i)) = of_nat j"
  using assms
proof (induction files arbitrary: k i)
  case (Cons f files)
  show ?case
  proof (cases "i < length (file_stream k f)")
    case True
    then show ?thesis
      using Cons.prems(2) file_stream_id [OF True]
      by (intro exI [of _ k]) (auto simp: nth_append split: if_splits)
  next
    case False
    then have "\<exists>j. Suc k \<le> j \<and> j < Suc k + length files \<and> sp_file_id (snd (stream k (f # files) ! i)) = of_nat j"
      using Cons.IH [of "i - length (file_stream k f)" "Suc k"] Cons.prems by (simp add: nth_append)
    then obtain j where "Suc k \<le> j" "j < Suc k + length files"
        "sp_file_id (snd (stream k (f # files) ! i)) = of_nat j" by blast
    then show ?thesis by (intro exI [of _ j]) auto
  qed
qed (simp add: non_token_span_def)

lemma stream_blocks:
  assumes "i \<le> j" and "j \<le> l" and "l < length (stream k files)" and "k + length files < 2 ^ 32 - 1"
    and "sp_file_id (snd (stream k files ! i)) = sp_file_id (snd (stream k files ! l))"
    and "sp_file_id (snd (stream k files ! i)) \<noteq> NON_TOKEN"
  shows "sp_file_id (snd (stream k files ! j)) = sp_file_id (snd (stream k files ! i))"
  using assms
proof (induction files arbitrary: k i j l)
  case (Cons f files)
  define m where "m = length (file_stream k f)"
  consider "l < m" | "m \<le> i" | "i < m" "m \<le> l" by linarith
  then show ?case
  proof cases
    case 1
    then have "Suc l < m" "j < m" "i < m"
      using Cons.prems file_stream_id [of l k f] file_stream_id [of i k f]
      by (auto simp: nth_append m_def [symmetric] split: if_splits)
    then show ?thesis
      using Cons.prems(1,2) by (auto simp: nth_append file_stream_id m_def)
  next
    case 2
    then have "sp_file_id (snd (stream (Suc k) files ! (j - m))) = sp_file_id (snd (stream (Suc k) files ! (i - m)))"
      using Cons.prems by (intro Cons.IH [of "i - m" "j - m" "l - m" "Suc k"]) (auto simp: nth_append m_def)
    then show ?thesis using 2 Cons.prems(1,2) by (auto simp: nth_append m_def)
  next
    case 3
    have "sp_file_id (snd (stream k (f # files) ! i)) = of_nat k"
      using 3(1) Cons.prems(6) file_stream_id [of i k f] by (auto simp: nth_append m_def split: if_splits)
    moreover have "\<exists>j. Suc k \<le> j \<and> j < Suc k + length files \<and> sp_file_id (snd (stream k (f # files) ! l)) = of_nat j"
      using stream_file_ids [of "l - m" "Suc k" files] 3(2) Cons.prems(3,5,6)
      by (simp add: nth_append m_def less_diff_conv2)
    then obtain j' where "Suc k \<le> j'" "j' < Suc k + length files"
        "sp_file_id (snd (stream k (f # files) ! l)) = of_nat j'" by blast
    ultimately have "unat (of_nat k :: u32) = unat (of_nat j' :: u32)" "k < j'" "j' < 2 ^ 32"
      using Cons.prems(4,5) by auto
    then show ?thesis by (simp add: unat_of_nat)
  qed
qed simp

lemma build_master_blocks: "valid_cohort files \<Longrightarrow> file_blocks (ma_spans (build_master files))"
proof -
  assume v: "valid_cohort files"
  have "ma_spans (build_master files) = map snd (stream 0 files)"
    using build_master_relabels [of files] by blast
  moreover have "0 + length files < 2 ^ 32 - 1" using v by (simp add: valid_cohort_def)
  ultimately show ?thesis
    unfolding file_blocks_def
    by (intro allI impI, elim conjE) (use stream_blocks [of _ _ _ 0 files] in simp)
qed

text \<open>What is extracted from the buffer lies in single files.\<close>

lemma extracted_group_ok:
  assumes v: "valid_cohort files"
    and sa: "is_suffix_array (ma_text (build_master files)) (build_suffix_array libsais bio (ma_text (build_master files)))"
    and g: "g \<in> set (extract_groups libsais bio (ma_text (build_master files)) m nest)" and m: "0 < m"
  shows "group_ok (ma_spans (build_master files)) g"
proof -
  let ?buf = "ma_text (build_master files)" and ?sp = "ma_spans (build_master files)"
  note gs = group_sound [OF sa g]
  have len: "length ?sp = length ?buf" by simp
  have pair: "p + rg_len g \<le> length ?buf \<and> take (rg_len g) (drop p ?buf) = take (rg_len g) (drop q ?buf)"
    if "p \<in> set (rg_positions g)" "q \<in> set (rg_positions g)" for p q
  proof -
    have "q \<in> sharing ?buf (rg_len g) p" using gs(4) [OF that(1)] that(2) by simp
    then have "rg_len g \<le> common (drop p ?buf) (drop q ?buf)" by (simp add: sharing_def)
    moreover have "p < length ?buf" using gs(4) [OF that(2)] that(1) by (auto simp: sharing_def)
    ultimately show ?thesis by (auto simp: le_common_iff)
  qed
  have "one_file_run ?sp p (rg_len g)" if p: "p \<in> set (rg_positions g)" for p
  proof -
    obtain q where q: "q \<in> set (rg_positions g)" "p \<noteq> q"
      using left_diverse_two [OF gs(6)] by metis
    show ?thesis
      using pair [OF p q(1)] pair [OF q(1) p] by (intro shared_run_in_one_file' [OF v q(2)]) auto
  qed
  then show ?thesis
    using gs(1,3) m pair len by (auto simp: group_ok_def list_all_iff)
qed

section \<open>Ranges resolve\<close>

abbreviation sorter_ok :: "dup_externs \<Rightarrow> parsed_file list \<Rightarrow> bool" where
  "sorter_ok ex files \<equiv> is_suffix_array (ma_text (build_master files))
     (build_suffix_array (ex_libsais ex) (ex_bio ex) (ma_text (build_master files)))"

lemma master_file_id:
  assumes "valid_cohort files" and "i < length (ma_spans (build_master files))"
    and "sp_file_id (ma_spans (build_master files) ! i) \<noteq> NON_TOKEN"
  shows "unat (sp_file_id (ma_spans (build_master files) ! i)) < length files"
proof -
  have "ma_spans (build_master files) = map snd (stream 0 files)"
    using build_master_relabels [of files] by blast
  then obtain j where "j < length files" "sp_file_id (ma_spans (build_master files) ! i) = of_nat j"
    using stream_file_ids [of i 0 files] assms(2,3) by auto
  moreover have "j < 2 ^ 32" using assms(1) \<open>j < length files\<close> by (simp add: valid_cohort_def)
  ultimately show ?thesis by (simp add: unat_of_nat)
qed

lemma occurrence_total:
  assumes v: "valid_cohort files" and ok: "occ_ok (ma_spans (build_master files)) m (s, e)"
  shows "\<exists>o'. occurrence files (ma_spans (build_master files)) s e = Some o'"
proof -
  let ?sp = "ma_spans (build_master files)"
  have se: "s < e" "e \<le> length ?sp" and run: "one_file_run ?sp s (e - s)" using ok by (auto simp: occ_ok_def)
  have "s \<in> {s..<e}" "e - 1 \<in> {s..<e}" using se by auto
  moreover have "\<forall>t \<in> {s..<e}. sp_file_id (?sp ! t) \<noteq> NON_TOKEN \<and> sp_file_id (?sp ! t) = sp_file_id (?sp ! s)"
    by (rule iffD1 [OF one_file_run_iff run]) (use se in simp_all)
  ultimately have "sp_file_id (?sp ! s) \<noteq> NON_TOKEN" "sp_file_id (?sp ! (e - 1)) \<noteq> NON_TOKEN" by blast+
  moreover have "s < length ?sp" "e - 1 < length ?sp" using se by auto
  ultimately show ?thesis
    using master_file_id [OF v, of s] by (simp add: occurrence_def vec_get_def)
qed

lemma map_filter_set: "y \<in> set (List.map_filter f xs) \<longleftrightarrow> (\<exists>x \<in> set xs. f x = Some y)"
  by (induction xs) (auto simp: List.map_filter_simps split: option.splits)

lemma map_filter_total:
  "\<forall>x \<in> set xs. \<exists>y. f x = Some y \<Longrightarrow> length (List.map_filter f xs) = length xs"
  by (induction xs) (auto simp: List.map_filter_simps)

lemma gap_seed_pos: "0 < threshold \<Longrightarrow> 0 < fst (gap_seed threshold max_gap)"
  by (auto simp: gap_seed_def MIN_SEED_def)

lemma partition_clusters_ok:
  assumes v: "valid_cohort files" and sa: "sorter_ok ex files" and t: "0 < dp_threshold cfg"
    and c: "c \<in> set (partition_clusters ex files cfg)"
  shows "cluster_ok (ma_spans (build_master files)) c" and "dp_threshold cfg \<le> ck_matched c"
proof -
  let ?sp = "ma_spans (build_master files)"
  obtain seed nest where seed: "gap_seed (dp_threshold cfg) (dp_max_gap cfg) = (seed, nest)" by fastforce
  let ?groups = "extract_groups (ex_libsais ex) (ex_bio ex) (ma_text (build_master files)) seed nest"
  have "0 < seed" using gap_seed_pos [OF t, of "dp_max_gap cfg"] seed by simp
  then have "list_all (group_ok ?sp) ?groups"
    using extracted_group_ok [OF v sa] by (auto simp: list_all_iff)
  from stitch_inv [OF build_master_blocks [OF v] this, of "dp_max_gap cfg"]
  have ok: "list_all (cluster_ok ?sp) (stitch ?groups ?sp (dp_max_gap cfg))"
    by (auto simp: clusters_inv_def list_all_iff)
  obtain d where d: "d \<in> set (stitch ?groups ?sp (dp_max_gap cfg))" "c = close_tails d ?sp"
    using c by (auto simp: partition_clusters_def seed Let_def)
  show t': "dp_threshold cfg \<le> ck_matched c"
    using c by (auto simp: partition_clusters_def seed Let_def)
  show "cluster_ok ?sp c"
    using close_tails_ok [of ?sp d] ok d t t' by (auto simp: list_all_iff)
qed

section \<open>Rows are ordered\<close>

text \<open>What a walker produces: tokens in row order that end no earlier than they start.\<close>

definition wf_file :: "parsed_file \<Rightarrow> bool" where
  "wf_file f \<longleftrightarrow> sorted (map sp_start_row (pf_spans f))
     \<and> list_all (\<lambda>sp. sp_start_row sp \<le> sp_end_row sp) (pf_spans f)
     \<and> list_all (\<lambda>fn. fu_start_line fn \<le> fu_end_line fn) (wk_functions (pf_walked f))"

lemma file_stream_rows:
  assumes "wf_file f" and "i \<le> j" and "Suc j < length (file_stream k f)"
  shows "sp_start_row (snd (file_stream k f ! i)) \<le> sp_start_row (snd (file_stream k f ! j))"
    and "sp_start_row (snd (file_stream k f ! j)) \<le> sp_end_row (snd (file_stream k f ! j))"
proof -
  have row: "snd (file_stream k f ! l) = (pf_spans f ! l)\<lparr>sp_file_id := of_nat k\<rparr>" "l < length (pf_spans f)"
    if "Suc l < length (file_stream k f)" for l
    using that by (auto simp: file_stream_def nth_append split: prod.splits)
  have i: "Suc i < length (file_stream k f)" using assms(2,3) by simp
  show "sp_start_row (snd (file_stream k f ! i)) \<le> sp_start_row (snd (file_stream k f ! j))"
    using assms(1,2) row(1) [OF i] row [OF assms(3)] sorted_nth_mono [of "map sp_start_row (pf_spans f)" i j]
    by (simp add: wf_file_def)
  show "sp_start_row (snd (file_stream k f ! j)) \<le> sp_end_row (snd (file_stream k f ! j))"
    using assms(1) row [OF assms(3)] by (simp add: wf_file_def list_all_length)
qed

lemma stream_rows:
  assumes "list_all wf_file files" and "i \<le> j" and "j < length (stream k files)" and "k + length files < 2 ^ 32 - 1"
    and "sp_file_id (snd (stream k files ! i)) = sp_file_id (snd (stream k files ! j))"
    and "sp_file_id (snd (stream k files ! i)) \<noteq> NON_TOKEN"
  shows "sp_start_row (snd (stream k files ! i)) \<le> sp_start_row (snd (stream k files ! j))
    \<and> sp_start_row (snd (stream k files ! j)) \<le> sp_end_row (snd (stream k files ! j))"
  using assms
proof (induction files arbitrary: k i j)
  case (Cons f files)
  define m where "m = length (file_stream k f)"
  consider "j < m" | "m \<le> i" | "i < m" "m \<le> j" by linarith
  then show ?case
  proof cases
    case 1
    then have "Suc j < m" "i < m"
      using Cons.prems file_stream_id [of j k f] by (auto simp: nth_append m_def [symmetric] split: if_splits)
    then show ?thesis
      using Cons.prems(1,2) 1 file_stream_rows [of f i j k] by (simp add: nth_append m_def)
  next
    case 2
    then have "sp_start_row (snd (stream (Suc k) files ! (i - m))) \<le> sp_start_row (snd (stream (Suc k) files ! (j - m)))
        \<and> sp_start_row (snd (stream (Suc k) files ! (j - m))) \<le> sp_end_row (snd (stream (Suc k) files ! (j - m)))"
      using Cons.prems by (intro Cons.IH) (auto simp: nth_append m_def)
    then show ?thesis using 2 Cons.prems(2) by (simp add: nth_append m_def)
  next
    case 3
    have "sp_file_id (snd (stream k (f # files) ! i)) = of_nat k"
      using 3(1) Cons.prems(6) file_stream_id [of i k f] by (auto simp: nth_append m_def split: if_splits)
    moreover have "\<exists>l. Suc k \<le> l \<and> l < Suc k + length files \<and> sp_file_id (snd (stream k (f # files) ! j)) = of_nat l"
      using stream_file_ids [of "j - m" "Suc k" files] 3 Cons.prems(3,5,6)
      by (simp add: nth_append m_def less_diff_conv2)
    then obtain l where "Suc k \<le> l" "l < Suc k + length files"
        "sp_file_id (snd (stream k (f # files) ! j)) = of_nat l" by blast
    ultimately have "unat (of_nat k :: u32) = unat (of_nat l :: u32)" "k < l" "l < 2 ^ 32"
      using Cons.prems(4,5) by auto
    then show ?thesis by (simp add: unat_of_nat)
  qed
qed (simp add: non_token_span_def)

lemma occurrence_row_ordered:
  assumes v: "valid_cohort files" and wf: "list_all wf_file files"
    and ok: "occ_ok (ma_spans (build_master files)) m (s, e)"
    and oc: "occurrence files (ma_spans (build_master files)) s e = Some o'"
  shows "row_ordered o'"
proof -
  let ?sp = "ma_spans (build_master files)"
  have sp: "?sp = map snd (stream 0 files)" using build_master_relabels [of files] by blast
  have se: "s < e" "e \<le> length ?sp" and run: "one_file_run ?sp s (e - s)" using ok by (auto simp: occ_ok_def)
  have ids: "\<forall>t \<in> {s..<e}. sp_file_id (?sp ! t) \<noteq> NON_TOKEN \<and> sp_file_id (?sp ! t) = sp_file_id (?sp ! s)"
    by (rule iffD1 [OF one_file_run_iff run]) (use se in simp_all)
  have rows: "sp_start_row (?sp ! s) \<le> sp_start_row (?sp ! t) \<and> sp_start_row (?sp ! t) \<le> sp_end_row (?sp ! t)"
    if t: "t \<in> {s..<e}" for t
  proof -
    have "s \<in> {s..<e}" using se by simp
    with ids t have "sp_file_id (?sp ! s) = sp_file_id (?sp ! t)" "sp_file_id (?sp ! s) \<noteq> NON_TOKEN" by metis+
    then show ?thesis
      using stream_rows [OF wf, of s t 0] v t se unfolding sp by (simp add: valid_cohort_def)
  qed
  have start: "oc_start_row o' = unat (sp_start_row (?sp ! s))"
    using oc by (auto simp: occurrence_def vec_get_def split: option.splits if_splits)
  have "sp_start_row (?sp ! s) \<le> (case last_closed_row ?sp s e of Some row \<Rightarrow> row | None \<Rightarrow> sp_start_row (?sp ! (e - 1)))"
  proof (cases "filter (closes_within ?sp s e) [s..<e]")
    case Nil
    then show ?thesis using rows [of "e - 1"] se by (simp add: last_closed_row_def)
  next
    case (Cons t ts)
    then have "t \<in> set (filter (closes_within ?sp s e) [s..<e])" by simp
    then have "t \<in> {s..<e}" by simp
    then have "sp_start_row (?sp ! s) \<le> sp_end_row (?sp ! t)" using rows order_trans by blast
    moreover have "sp_end_row (?sp ! t) \<le> Max (set (map (\<lambda>t. sp_end_row (?sp ! t)) (filter (closes_within ?sp s e) [s..<e])))"
      using Cons by (intro Max_ge) auto
    moreover have "last_closed_row ?sp s e = Some (Max (set (map (\<lambda>t. sp_end_row (?sp ! t)) (filter (closes_within ?sp s e) [s..<e]))))"
      using Cons by (simp add: last_closed_row_def Let_def)
    ultimately show ?thesis by (simp only: option.case order_trans)
  qed
  moreover have "oc_end_row o' = unat (case last_closed_row ?sp s e of Some row \<Rightarrow> row | None \<Rightarrow> sp_start_row (?sp ! (e - 1)))"
    using oc by (auto simp: occurrence_def vec_get_def split: if_splits option.splits)
  ultimately show ?thesis
    by (simp only: row_ordered_def start word_le_nat_alt)
qed

section \<open>Reported classes\<close>

definition clone_key :: "dup_externs \<Rightarrow> clone_class \<Rightarrow> u64" where
  "clone_key ex c = dedup_key (ex_hash ex) (cl_occurrences c) (cl_token_length c)"

definition reportable :: "clone_class \<Rightarrow> bool" where
  "reportable c \<longleftrightarrow> 2 \<le> length (cl_occurrences c) \<and> sorted_wrt (\<lambda>a b. \<not> overlaps a b) (cl_occurrences c)
     \<and> cl_action c = Advisory"

definition push_inv :: "dup_externs \<Rightarrow> u64 set \<times> clone_class list \<Rightarrow> bool" where
  "push_inv ex st = (case st of (seen, out) \<Rightarrow>
     seen = set (map (clone_key ex) out) \<and> distinct (map (clone_key ex) out) \<and> list_all reportable out)"

lemma push_class_inv:
  assumes "push_inv ex st" and "list_all row_ordered (cl_occurrences c)"
  shows "push_inv ex (push_class ex c st)"
proof -
  have "sorted_wrt (\<lambda>a b. \<not> overlaps a b) (suppress_overlaps (cl_occurrences c))"
    using suppress_overlaps_inv(1) [OF assms(2)] apart_not_overlaps by (rule sorted_wrt_mono_rel [rotated])
  then show ?thesis
    using assms(1) by (auto simp: push_inv_def push_class_def reportable_def clone_key_def Let_def split: prod.splits)
qed

lemma push_fold_inv:
  "push_inv ex st \<Longrightarrow> list_all (\<lambda>c. list_all row_ordered (cl_occurrences c)) cs
    \<Longrightarrow> push_inv ex (fold (push_class ex) cs st)"
  by (induction cs arbitrary: st) (auto simp: push_class_inv)

lemma near_miss_rows:
  assumes "list_all wf_file files" and "c \<in> set (near_miss_detect files n)"
  shows "list_all row_ordered (cl_occurrences c)"
proof -
  let ?entries = "concat (map (\<lambda>file. file_members file n) files)"
  have entry: "row_ordered (mb_occ m)" if "(k, m) \<in> set ?entries" for k m
    using that assms(1)
    by (fastforce simp: file_members_def row_ordered_def wf_file_def list_all_iff top_level_functions_def Let_def
        split: if_splits)
  obtain key where key: "key \<in> set (map fst ?entries)" "near_miss_class (the (group_entries ?entries key)) = Some c"
    using assms(2) unfolding near_miss_detect_def Let_def map_filter_set set_sort set_remdups by blast
  then obtain ms where ms: "group_entries ?entries key = Some ms"
    by (auto simp: group_entries_apply split: if_splits)
  have "row_ordered (mb_occ m)" if "m \<in> set ms" for m
    using entry [of key m] group_entries_SomeD [OF ms, of m] that by simp
  then show ?thesis
    using key(2) ms by (auto simp: near_miss_class_def list_all_iff split: if_splits)
qed

lemma partition_classes_inv:
  assumes v: "valid_cohort files" and wf: "list_all wf_file files" and sa: "sorter_ok ex files"
    and t: "0 < dp_threshold cfg"
  shows "distinct (map (clone_key ex) (partition_classes ex files cfg)) \<and> list_all reportable (partition_classes ex files cfg)"
proof -
  let ?sp = "ma_spans (build_master files)"
  have "list_all row_ordered (cl_occurrences (cluster_class files ?sp c))" if "c \<in> set (partition_clusters ex files cfg)" for c
    using partition_clusters_ok(1) [OF v sa t that] occurrence_row_ordered [OF v wf]
    by (fastforce simp: cluster_class_def cluster_ok_def list_all_iff List.map_filter_def)
  then have "list_all (\<lambda>c. list_all row_ordered (cl_occurrences c))
      (map (cluster_class files ?sp) (partition_clusters ex files cfg)
       @ near_miss_detect files (min_tokens (dp_near_miss cfg) (dp_threshold cfg)))"
    using near_miss_rows [OF wf] by (auto simp: list_all_iff)
  from push_fold_inv [OF _ this, of ex "({}, [])"] show ?thesis
    by (auto simp: partition_classes_def push_inv_def split: prod.splits)
qed

lemma concat_filter_mset:
  "distinct ls \<Longrightarrow> set (map g xs) \<subseteq> set ls \<Longrightarrow> mset (concat (map (\<lambda>l. filter (\<lambda>x. g x = l) xs) ls)) = mset xs"
proof (induction ls arbitrary: xs)
  case (Cons l ls)
  let ?rest = "filter (\<lambda>x. g x \<noteq> l) xs"
  have eq: "map (\<lambda>l'. filter (\<lambda>x. g x = l') ?rest) ls = map (\<lambda>l'. filter (\<lambda>x. g x = l') xs) ls"
    using Cons.prems(1) by (auto intro!: filter_cong)
  have "mset (concat (map (\<lambda>l'. filter (\<lambda>x. g x = l') ?rest) ls)) = mset ?rest"
    using Cons.prems by (intro Cons.IH) auto
  then have "mset (concat (map (\<lambda>l'. filter (\<lambda>x. g x = l') xs) ls)) = mset ?rest"
    by (simp only: eq)
  moreover have "mset (filter (\<lambda>x. g x = l) xs) + mset ?rest = mset xs"
    by (simp flip: multiset_partition)
  ultimately show ?case by simp
qed simp

section \<open>Properties\<close>

text \<open>C12: Every range of every cluster that reaches reporting resolves to a file and rows: the
  defensive exits of \<open>occurrence\<close> (no such position, a separator, no such file) are never
  taken, the matched tokens fit the range and reach the threshold.\<close>

theorem cluster_ranges_resolve:
  assumes "valid_cohort files" and "sorter_ok ex files" and "0 < dp_threshold cfg"
    and "c \<in> set (partition_clusters ex files cfg)"
  shows "length (cl_occurrences (cluster_class files (ma_spans (build_master files)) c)) = length (ck_occ c)
    \<and> cluster_ok (ma_spans (build_master files)) c \<and> dp_threshold cfg \<le> cl_token_length (cluster_class files (ma_spans (build_master files)) c)"
proof -
  note ok = partition_clusters_ok [OF assms]
  have "\<forall>x \<in> set (ck_occ c). \<exists>y. (case x of (s, e) \<Rightarrow> occurrence files (ma_spans (build_master files)) s e) = Some y"
    using ok(1) occurrence_total [OF assms(1)] by (auto simp: cluster_ok_def list_all_iff)
  from map_filter_total [OF this] ok show ?thesis by (simp add: cluster_class_def)
qed

text \<open>C13: Every class of a cohort, before folding, names at least two places, no two of which
  overlap, and no two classes have the same key of places and length.\<close>

theorem partition_classes_reportable:
  assumes "valid_cohort files" and "list_all wf_file files" and "sorter_ok ex files" and "0 < dp_threshold cfg"
  shows "list_all reportable (partition_classes ex files cfg)
    \<and> distinct (map (clone_key ex) (partition_classes ex files cfg))"
  using partition_classes_inv [OF assms] by blast


text \<open>Two files that repeat five tokens.\<close>

definition sample_externs :: dup_externs where
  "sample_externs = \<lparr>ex_libsais = sample_sorter, ex_bio = id, ex_hash = (\<lambda>(p, r). of_nat (r + length p)), ex_family = id\<rparr>"

definition sample_dup_config :: duplication_config where
  "sample_dup_config = \<lparr>dp_exclude = [], dp_include_tests = True, dp_include_generated = True, dp_threshold = 3,
     dp_max_gap = 0, dp_near_miss = False, dp_class_name_duplicates = False, dp_class_property_overlap_min = 0\<rparr>"

definition sample_cohort :: "parsed_file list" where
  "sample_cohort = [sample_file [20, 21, 22], (sample_file [20, 21, 22])\<lparr>pf_path := [Normal ''b'']\<rparr>]"

lemma sample_cohort_ok: "valid_cohort sample_cohort" "list_all wf_file sample_cohort"
  by (simp_all add: valid_cohort_def sample_cohort_def sample_file_def token_code_def wf_file_def empty_walked_def upt_rec)

lemma sample_cohort_sorter: "sorter_ok sample_externs sample_cohort"
  by code_simp

lemma sample_clusters:
  "partition_clusters sample_externs sample_cohort sample_dup_config = [\<lparr>ck_matched = 3, ck_occ = [(0, 3), (4, 7)]\<rparr>]"
  by code_simp

theorem cluster_ranges_resolve_witness:
  "length (cl_occurrences (cluster_class sample_cohort (ma_spans (build_master sample_cohort))
     \<lparr>ck_matched = 3, ck_occ = [(0, 3), (4, 7)]\<rparr>)) = 2"
  using cluster_ranges_resolve [OF sample_cohort_ok(1) sample_cohort_sorter, of sample_dup_config, unfolded sample_clusters]
  by (simp add: sample_dup_config_def)

theorem partition_classes_reportable_witness:
  "length (partition_classes sample_externs sample_cohort sample_dup_config) = 1
   \<and> list_all reportable (partition_classes sample_externs sample_cohort sample_dup_config)"
proof -
  have "length (partition_classes sample_externs sample_cohort sample_dup_config) = 1" by code_simp
  then show ?thesis
    using partition_classes_reportable [OF sample_cohort_ok sample_cohort_sorter, of sample_dup_config]
    by (simp add: sample_dup_config_def)
qed

end
