(* ===== verification/Cycles.thy ===== *)
theory Cycles
  imports Graph Rust_Std Report
begin

text \<open>
  Circular imports, \<open>src/noze/cycles.rs\<close>: the strongly connected components of the graph of
  cycle edges, each reported with a shortest closed import path through its smallest module.
  \<open>tarjan_scc\<close> (petgraph) and the compiled glob set are parameters. \<open>expect\<close> in \<open>unwind\<close> is a
  missing value; so is a walk back that would never reach the start.
\<close>

record cycles_config =
  cc_exclude :: "string list"
  cc_include_type_only :: bool

definition RUNTIME :: "import_phase list" where "RUNTIME = [Runtime]"
definition TYPE_LEVEL :: "import_phase list" where "TYPE_LEVEL = [Runtime, TypeOnly]"

definition is_cycle_edge :: "edge_reference \<Rightarrow> import_phase list \<Rightarrow> bool" where
  "is_cycle_edge edge phases = (case edge of (e, s, t, import) \<Rightarrow>
     s \<noteq> t \<and> \<not> im_is_inline import \<and> \<not> im_is_module_decl import \<and> im_phase import \<in> set phases)"

definition is_reportable_scc :: "codebase_graph \<Rightarrow> node_index list \<Rightarrow> (path \<Rightarrow> bool) \<Rightarrow> bool" where
  "is_reportable_scc cg scc excluded = list_ex (\<lambda>n. \<not> excluded (mn_file_path (cg_nodes cg ! n))) scc"

definition filter_reportable_sccs :: "codebase_graph \<Rightarrow> node_index list list \<Rightarrow> (path \<Rightarrow> bool) \<Rightarrow> node_index list list" where
  "filter_reportable_sccs cg sccs excluded = filter (\<lambda>scc. is_reportable_scc cg scc excluded) sccs"

section \<open>The shortest closed path\<close>

definition edge_id :: "edge_reference \<Rightarrow> edge_index" where "edge_id = fst"
definition edge_target :: "edge_reference \<Rightarrow> node_index" where "edge_target = (\<lambda>(e, s, t, w). t)"

text \<open>The inner loop: the closing edge, or the nodes newly reached with the edge that reached them.\<close>

fun scan_edges :: "node_index \<Rightarrow> edge_reference list \<Rightarrow> (node_index \<rightharpoonup> edge_index) \<times> node_index list
    \<Rightarrow> (edge_index \<times> (node_index \<rightharpoonup> edge_index)) + ((node_index \<rightharpoonup> edge_index) \<times> node_index list)" where
  "scan_edges start [] (prev, queue) = Inr (prev, queue)"
| "scan_edges start (edge # edges) (prev, queue) =
     (if edge_target edge = start then Inl (edge_id edge, prev)
      else scan_edges start edges
        (if prev (edge_target edge) = None
         then (prev(edge_target edge \<mapsto> edge_id edge), queue @ [edge_target edge])
         else (prev, queue)))"

text \<open>The edges followed from a node: cycle edges to members of the component.\<close>

definition scc_edges :: "codebase_graph \<Rightarrow> edge_order \<Rightarrow> node_index list \<Rightarrow> import_phase list \<Rightarrow> node_index \<Rightarrow> edge_reference list" where
  "scc_edges cg od scc phases node =
     filter (\<lambda>e. edge_target e \<in> set scc \<and> is_cycle_edge e phases) (edges_directed cg od Outgoing node)"

text \<open>\<open>prev\<close> as distances: where it has an entry, the inner loop is one breadth-first expansion.\<close>

lemma scan_edges_new:
  assumes "scan_edges start edges (prev, queue) = Inr (prev', queue')"
  shows "start \<notin> edge_target ` set edges
    \<and> (\<exists>new. queue' = queue @ new \<and> distinct new \<and> set new = {n \<in> edge_target ` set edges. prev n = None}
        \<and> (\<forall>n. n \<notin> set new \<longrightarrow> prev' n = prev n)
        \<and> (\<forall>n \<in> set new. \<exists>edge \<in> set edges. edge_target edge = n \<and> prev' n = Some (edge_id edge)))"
  using assms
proof (induction start edges "(prev, queue)" arbitrary: prev queue rule: scan_edges.induct)
  case (2 start edge edges prev queue)
  let ?t = "edge_target edge"
  have t: "?t \<noteq> start" using "2.prems" by auto
  show ?case
  proof (cases "prev ?t")
    case None
    then have "scan_edges start edges (prev(?t \<mapsto> edge_id edge), queue @ [?t]) = Inr (prev', queue')"
      using "2.prems" t by simp
    from "2.hyps" [OF t _ this] None obtain new where ns: "start \<notin> edge_target ` set edges"
        "queue' = (queue @ [?t]) @ new" "distinct new"
        "set new = {n \<in> edge_target ` set edges. (prev(?t \<mapsto> edge_id edge)) n = None}"
        "\<And>n. n \<notin> set new \<Longrightarrow> prev' n = (prev(?t \<mapsto> edge_id edge)) n"
        "\<And>n. n \<in> set new \<Longrightarrow> \<exists>edge \<in> set edges. edge_target edge = n \<and> prev' n = Some (edge_id edge)"
      by auto
    have tn: "?t \<notin> set new" using ns(4) by simp
    show ?thesis
    proof (intro conjI exI [of _ "?t # new"])
      show "start \<notin> edge_target ` set (edge # edges)" using ns(1) t by auto
      show "queue' = queue @ ?t # new" using ns(2) by simp
      show "distinct (?t # new)" using ns(3) tn by simp
      show "set (?t # new) = {n \<in> edge_target ` set (edge # edges). prev n = None}"
        using ns(4) None by (auto split: if_splits)
      show "\<forall>n. n \<notin> set (?t # new) \<longrightarrow> prev' n = prev n" using ns(5) by auto
      show "\<forall>n \<in> set (?t # new). \<exists>e \<in> set (edge # edges). edge_target e = n \<and> prev' n = Some (edge_id e)"
        using ns(6) ns(5) [OF tn] by auto
    qed
  next
    case (Some e)
    then have "scan_edges start edges (prev, queue) = Inr (prev', queue')" using "2.prems" t by simp
    from "2.hyps" [OF t _ this] Some obtain new where ns: "start \<notin> edge_target ` set edges"
        "queue' = queue @ new" "distinct new" "set new = {n \<in> edge_target ` set edges. prev n = None}"
        "\<forall>n. n \<notin> set new \<longrightarrow> prev' n = prev n"
        "\<forall>n \<in> set new. \<exists>edge \<in> set edges. edge_target edge = n \<and> prev' n = Some (edge_id edge)"
      by auto
    then show ?thesis using t Some by (intro conjI exI [of _ new]) auto
  qed
qed auto

lemma scc_edges_ends: "e \<in> set (scc_edges cg od scc phases node) \<Longrightarrow> edge_target e \<in> edge_ends cg"
  by (cases e) (auto simp: scc_edges_def edge_target_def dest: edges_directed_ends)

lemma scan_edges_measure:
  assumes "scan_edges start (scc_edges cg od scc phases node) (prev, queue) = Inr (prev', queue')"
  shows "card (edge_ends cg - dom prev') < card (edge_ends cg - dom prev)
    \<or> card (edge_ends cg - dom prev') = card (edge_ends cg - dom prev) \<and> queue' = queue"
proof -
  let ?ts = "edge_target ` set (scc_edges cg od scc phases node)"
  from scan_edges_new [OF assms] obtain new where q: "queue' = queue @ new"
      and new: "set new = {n \<in> ?ts. prev n = None}" and same: "\<forall>n. n \<notin> set new \<longrightarrow> prev' n = prev n"
      and added: "\<forall>n \<in> set new. \<exists>edge \<in> set (scc_edges cg od scc phases node). edge_target edge = n \<and> prev' n = Some (edge_id edge)"
    by (elim conjE exE) (rule that)
  have dom: "dom prev' = dom prev \<union> set new"
  proof (intro set_eqI)
    show "n \<in> dom prev' \<longleftrightarrow> n \<in> dom prev \<union> set new" for n
      using same added by (cases "n \<in> set new") (auto simp: dom_def)
  qed
  show ?thesis
  proof (cases new)
    case Nil
    then show ?thesis using q dom by simp
  next
    case (Cons m ms)
    then have "m \<in> set new" by simp
    then have "m \<in> ?ts" and m: "prev m = None" unfolding new by auto
    then have "m \<in> edge_ends cg - dom prev" using scc_edges_ends by (auto simp: dom_def)
    then have "edge_ends cg - dom prev' \<subset> edge_ends cg - dom prev" using dom Cons by auto
    then show ?thesis by (simp add: psubset_card_mono)
  qed
qed

function bfs_closing :: "codebase_graph \<Rightarrow> edge_order \<Rightarrow> node_index list \<Rightarrow> import_phase list \<Rightarrow> node_index
    \<Rightarrow> (node_index \<rightharpoonup> edge_index) \<Rightarrow> node_index list \<Rightarrow> (edge_index \<times> (node_index \<rightharpoonup> edge_index)) option" where
  "bfs_closing cg od scc phases start prev [] = None"
| "bfs_closing cg od scc phases start prev (node # queue) =
     (case scan_edges start (scc_edges cg od scc phases node) (prev, queue) of
        Inl found \<Rightarrow> Some found
      | Inr (prev', queue') \<Rightarrow> bfs_closing cg od scc phases start prev' queue')"
  by pat_completeness auto
termination
proof (relation "measures [\<lambda>(cg, od, scc, phases, start, prev, queue). card (edge_ends cg - dom prev),
                           \<lambda>(cg, od, scc, phases, start, prev, queue). length queue]", goal_cases)
  case 1
  then show ?case by simp
next
  case prems: (2 cg od scc phases start prev node queue st prev' queue')
  from scan_edges_measure [OF prems(1) [unfolded prems(2) [symmetric]]] show ?case by auto
qed

text \<open>\<open>unwind\<close>: from the closing edge back along \<open>prev\<close> to the start.\<close>

partial_function (option) unwind_from :: "codebase_graph \<Rightarrow> (node_index \<rightharpoonup> edge_index) \<Rightarrow> node_index \<Rightarrow> node_index option
    \<Rightarrow> edge_index list \<Rightarrow> edge_index list option" where
  "unwind_from cg prev start node es =
     (case node of
        None \<Rightarrow> Some es
      | Some current \<Rightarrow>
          if current = start then Some es
          else (case prev current of
                  None \<Rightarrow> None
                | Some edge \<Rightarrow> unwind_from cg prev start (map_option fst (edge_endpoints cg edge)) (es @ [edge])))"

definition cycle_edge_of :: "codebase_graph \<Rightarrow> edge_index \<Rightarrow> cycle_edge option" where
  "cycle_edge_of cg edge = (case edge_ref cg edge of
     None \<Rightarrow> None
   | Some (e, from_node, to_node, import) \<Rightarrow>
       Some \<lparr>ce_from_module = mn_module_name (cg_nodes cg ! from_node),
             ce_to_module = mn_module_name (cg_nodes cg ! to_node),
             ce_file = mn_file_path (cg_nodes cg ! from_node), ce_line = im_line import\<rparr>)"

definition unwind :: "codebase_graph \<Rightarrow> (node_index \<rightharpoonup> edge_index) \<Rightarrow> edge_index \<Rightarrow> node_index \<Rightarrow> cycle_edge list option" where
  "unwind cg prev closing start =
     map_option (\<lambda>path. List.map_filter (cycle_edge_of cg) (rev path))
       (unwind_from cg prev start (map_option fst (edge_endpoints cg closing)) [closing])"

definition shortest_cycle :: "codebase_graph \<Rightarrow> edge_order \<Rightarrow> node_index list \<Rightarrow> import_phase list \<Rightarrow> cycle_edge list option" where
  "shortest_cycle cg od scc phases =
     (case min_by_key (\<lambda>n. mn_module_name (cg_nodes cg ! n)) scc of
        None \<Rightarrow> Some []
      | Some start \<Rightarrow>
          (case bfs_closing cg od scc phases start Map.empty [start] of
             None \<Rightarrow> Some []
           | Some (closing, prev) \<Rightarrow> unwind cg prev closing start))"

section \<open>Detection\<close>

definition has_type_only_internal_edge :: "codebase_graph \<Rightarrow> edge_order \<Rightarrow> node_index list \<Rightarrow> bool" where
  "has_type_only_internal_edge cg od scc =
     list_ex (\<lambda>node. list_ex (\<lambda>edge. edge_target edge \<in> set scc
         \<and> (case edge of (e, s, t, w) \<Rightarrow> im_phase w = TypeOnly) \<and> is_cycle_edge edge TYPE_LEVEL)
       (edges_directed cg od Outgoing node)) scc"

definition scc_key :: "codebase_graph \<Rightarrow> node_index list \<Rightarrow> string" where
  "scc_key cg scc = join_with ''|'' (sort (map (\<lambda>n. mn_module_name (cg_nodes cg ! n)) scc))"

definition findings_for :: "codebase_graph \<Rightarrow> edge_order \<Rightarrow> node_index list list \<Rightarrow> action_level \<Rightarrow> string option
    \<Rightarrow> import_phase list \<Rightarrow> cycle_finding list option" where
  "findings_for cg od sccs action hint phases =
     those (map (\<lambda>scc. map_option (\<lambda>edges.
       \<lparr>cy_action = action, cy_modules = map (\<lambda>n. mn_module_name (cg_nodes cg ! n)) scc, cy_hint = hint, cy_edges = edges\<rparr>)
       (shortest_cycle cg od scc phases)) sccs)"

definition finding_for :: "codebase_graph \<Rightarrow> edge_order \<Rightarrow> node_index list \<Rightarrow> action_level \<Rightarrow> string option
    \<Rightarrow> import_phase list \<Rightarrow> cycle_finding option" where
  "finding_for cg od scc action hint phases =
     map_option (\<lambda>fs. if fs = [] then \<lparr>cy_action = action, cy_modules = [], cy_hint = None, cy_edges = []\<rparr> else last fs)
       (findings_for cg od [scc] action hint phases)"

definition type_only_hint :: string where
  "type_only_hint = ''type-only cycle: may indicate type coupling and dependent abstractions''"

definition cycles_detect :: "(codebase_graph \<Rightarrow> (edge_reference \<Rightarrow> bool) \<Rightarrow> node_index list list) \<Rightarrow> (string list \<Rightarrow> path \<Rightarrow> bool)
    \<Rightarrow> codebase_graph \<Rightarrow> edge_order \<Rightarrow> cycles_config \<Rightarrow> cycle_finding list option" where
  "cycles_detect tarjan globs cg od config =
     (let excluded = globs (cc_exclude config);
          sccs = (\<lambda>phases. filter_reportable_sccs cg
            (filter (\<lambda>scc. 2 \<le> length scc) (tarjan cg (\<lambda>edge. is_cycle_edge edge phases))) excluded);
          runtime_sccs = sccs RUNTIME
      in Option.bind (findings_for cg od runtime_sccs Warning None RUNTIME) (\<lambda>findings.
           if \<not> cc_include_type_only config then Some findings
           else let runtime_keys = map (scc_key cg) runtime_sccs
                in map_option (\<lambda>more. findings @ more)
                     (those (map (\<lambda>scc. finding_for cg od scc Info (Some type_only_hint) TYPE_LEVEL)
                       (filter (has_type_only_internal_edge cg od)
                         (filter (\<lambda>scc. scc_key cg scc \<notin> set runtime_keys) (sccs TYPE_LEVEL)))))))"

section \<open>Closed walks\<close>

text \<open>A walk along edges of the component, by edge ids.\<close>

fun walk :: "codebase_graph \<Rightarrow> node_index list \<Rightarrow> import_phase list \<Rightarrow> node_index \<Rightarrow> edge_index list \<Rightarrow> node_index \<Rightarrow> bool" where
  "walk cg scc phases n [] m \<longleftrightarrow> n = m"
| "walk cg scc phases n (e # es) m \<longleftrightarrow>
     (case edge_ref cg e of
        None \<Rightarrow> False
      | Some (i, s, t, w) \<Rightarrow> s = n \<and> is_cycle_edge (i, s, t, w) phases \<and> t \<in> set scc \<and> walk cg scc phases t es m)"

definition cycle_steps :: "codebase_graph \<Rightarrow> node_index list \<Rightarrow> import_phase list \<Rightarrow> (node_index \<times> node_index) set" where
  "cycle_steps cg scc phases = {(n, m). \<exists>e. walk cg scc phases n [e] m}"

lemma walk_append: "walk cg scc phases n (es @ fs) m \<longleftrightarrow> (\<exists>x. walk cg scc phases n es x \<and> walk cg scc phases x fs m)"
  by (induction es arbitrary: n) (auto split: option.splits prod.splits)

lemma walk_relpow: "(n, m) \<in> cycle_steps cg scc phases ^^ k \<longleftrightarrow> (\<exists>es. length es = k \<and> walk cg scc phases n es m)"
proof (induction k arbitrary: m)
  case (Suc k)
  show ?case
  proof
    assume "(n, m) \<in> cycle_steps cg scc phases ^^ Suc k"
    then obtain x where x: "(n, x) \<in> cycle_steps cg scc phases ^^ k" "(x, m) \<in> cycle_steps cg scc phases" by auto
    from x(1) obtain es where es: "length es = k" "walk cg scc phases n es x" using Suc.IH by blast
    from x(2) obtain e where "walk cg scc phases x [e] m" by (auto simp: cycle_steps_def)
    then have "walk cg scc phases n (es @ [e]) m" using es(2) walk_append by blast
    then show "\<exists>es. length es = Suc k \<and> walk cg scc phases n es m" using es(1) by (intro exI [of _ "es @ [e]"]) simp
  next
    assume "\<exists>es. length es = Suc k \<and> walk cg scc phases n es m"
    then obtain es e where es: "length es = k" "walk cg scc phases n (es @ [e]) m"
      by (metis length_Suc_conv_rev)
    then obtain x where x: "walk cg scc phases n es x" "walk cg scc phases x [e] m" by (auto simp only: walk_append)
    have "(n, x) \<in> cycle_steps cg scc phases ^^ k" using x(1) es(1) Suc.IH by blast
    moreover have "(x, m) \<in> cycle_steps cg scc phases" using x(2) unfolding cycle_steps_def by blast
    ultimately show "(n, m) \<in> cycle_steps cg scc phases ^^ Suc k" by auto
  qed
qed auto

lemma walk_rtrancl: "(n, m) \<in> (cycle_steps cg scc phases)\<^sup>* \<longleftrightarrow> (\<exists>es. walk cg scc phases n es m)"
  by (metis rtrancl_power walk_relpow)

lemma walk_one: "walk cg scc phases n [e] m \<longleftrightarrow> (\<exists>w. e < length (cg_edges cg) \<and> cg_edges cg ! e = (n, m, w)
    \<and> is_cycle_edge (e, n, m, w) phases \<and> m \<in> set scc)"
  by (auto simp: edge_ref_def split: prod.splits)

lemma scc_edges_steps:
  assumes "petgraph_ok cg od"
  shows "edge_target ` set (scc_edges cg od scc phases n) = cycle_steps cg scc phases `` {n}"
proof (intro set_eqI iffI)
  fix m
  assume "m \<in> edge_target ` set (scc_edges cg od scc phases n)"
  then obtain e s w where "(e, s, m, w) \<in> set (edges_directed cg od Outgoing n)" "m \<in> set scc" "is_cycle_edge (e, s, m, w) phases"
    by (auto simp: scc_edges_def edge_target_def)
  then have "walk cg scc phases n [e] m"
    unfolding edges_directed_mem [OF assms] walk_one by simp
  then show "m \<in> cycle_steps cg scc phases `` {n}" unfolding cycle_steps_def by blast
next
  fix m
  assume "m \<in> cycle_steps cg scc phases `` {n}"
  then have "\<exists>e. walk cg scc phases n [e] m" unfolding cycle_steps_def by blast
  then obtain e w where e: "e < length (cg_edges cg)" "cg_edges cg ! e = (n, m, w)" "is_cycle_edge (e, n, m, w) phases" "m \<in> set scc"
    unfolding walk_one by blast
  then have "(e, n, m, w) \<in> set (edges_directed cg od Outgoing n)" unfolding edges_directed_mem [OF assms] by simp
  then have "(e, n, m, w) \<in> set (scc_edges cg od scc phases n)" using e by (simp add: scc_edges_def edge_target_def)
  then show "m \<in> edge_target ` set (scc_edges cg od scc phases n)" by (force simp: edge_target_def image_iff)
qed

lemma scc_edge_walk:
  assumes "petgraph_ok cg od" and "edge \<in> set (scc_edges cg od scc phases n)"
  shows "walk cg scc phases n [edge_id edge] (edge_target edge)"
proof -
  obtain e s t w where edge: "edge = (e, s, t, w)" by (metis surj_pair)
  then have mem: "(e, s, t, w) \<in> set (edges_directed cg od Outgoing n)" "t \<in> set scc" "is_cycle_edge (e, s, t, w) phases"
    using assms(2) by (simp_all add: scc_edges_def edge_target_def)
  from mem(1) have "e < length (cg_edges cg)" "cg_edges cg ! e = (s, t, w)" "s = n"
    unfolding edges_directed_mem [OF assms(1)] by simp_all
  then show ?thesis using mem(2,3) edge unfolding walk_one edge_id_def edge_target_def by simp
qed

interpretation cyc: search_space "\<lambda>n. cycle_steps cg scc phases `` {n} - {start}" "{start}"
  for cg scc phases start
proof unfold_locales
  have "m \<in> set scc" if "(n, m) \<in> cycle_steps cg scc phases" for n m
    using that unfolding cycle_steps_def walk_one by blast
  then have "(\<Union>n. cycle_steps cg scc phases `` {n} - {start}) \<subseteq> set scc" by blast
  then show "finite (\<Union>n. cycle_steps cg scc phases `` {n} - {start})" by (rule finite_subset) simp
qed simp

text \<open>The state of the search with the distances that \<open>prev\<close> stands for.\<close>

definition cyc_state :: "codebase_graph \<Rightarrow> node_index list \<Rightarrow> import_phase list \<Rightarrow> node_index
    \<Rightarrow> (node_index \<rightharpoonup> edge_index) \<Rightarrow> (node_index \<rightharpoonup> nat) \<Rightarrow> bool" where
  "cyc_state cg scc phases start prev d \<longleftrightarrow> dom d = insert start (dom prev) \<and> prev start = None \<and> d start = Some 0
     \<and> (\<forall>n e. prev n = Some e \<longrightarrow> (\<exists>s k. walk cg scc phases s [e] n \<and> d s = Some k \<and> d n = Some (Suc k)))"

lemma cyc_stateD:
  assumes "cyc_state cg scc phases start prev d"
  shows "dom d = insert start (dom prev)" and "prev start = None" and "d start = Some 0"
    and "prev n = Some e \<Longrightarrow> \<exists>s k. walk cg scc phases s [e] n \<and> d s = Some k \<and> d n = Some (Suc k)"
  using assms by (simp_all add: cyc_state_def)

text \<open>From any reached node, \<open>unwind\<close> walks back to the start in as many steps as its distance.\<close>

lemma walk_endpoints: "walk cg scc phases s [e] n \<Longrightarrow> map_option fst (edge_endpoints cg e) = Some s"
  by (auto simp: edge_endpoints_def split: option.splits prod.splits)

lemma unwind_from_reached:
  assumes st: "cyc_state cg scc phases start prev d" and "d n = Some k" and "walk cg scc phases n (rev es) m"
  shows "\<exists>fs. unwind_from cg prev start (Some n) es = Some (es @ fs) \<and> length fs = k
    \<and> walk cg scc phases start (rev (es @ fs)) m"
  using assms(2,3)
proof (induction k arbitrary: n es)
  case 0
  have "n = start"
  proof (rule ccontr)
    assume "n \<noteq> start"
    moreover have "n \<in> insert start (dom prev)" using 0 cyc_stateD(1) [OF st] by (metis domI)
    ultimately obtain e where "prev n = Some e" by auto
    then show False using cyc_stateD(4) [OF st] 0 by fastforce
  qed
  then show ?case using 0 by (subst unwind_from.simps) (auto intro!: exI [of _ "[]"])
next
  case (Suc k)
  have "n \<noteq> start" using Suc.prems cyc_stateD(3) [OF st] by auto
  moreover have "n \<in> insert start (dom prev)" using Suc.prems cyc_stateD(1) [OF st] by (metis domI)
  ultimately obtain e where e: "prev n = Some e" by auto
  then obtain s where s: "walk cg scc phases s [e] n" "d s = Some k"
    using cyc_stateD(4) [OF st e] Suc.prems(1) by auto
  have "walk cg scc phases s ([e] @ rev es) m" unfolding walk_append using s(1) Suc.prems(2) by blast
  then have "walk cg scc phases s (rev (es @ [e])) m" by simp
  from Suc.IH [OF s(2) this] obtain fs where "unwind_from cg prev start (Some s) (es @ [e]) = Some ((es @ [e]) @ fs)"
      "length fs = k" "walk cg scc phases start (rev ((es @ [e]) @ fs)) m" by blast
  then show ?case
    using e \<open>n \<noteq> start\<close> walk_endpoints [OF s(1)] by (subst unwind_from.simps) (auto intro!: exI [of _ "e # fs"])
qed

lemma scan_edges_state:
  assumes od: "petgraph_ok cg od" and st: "cyc_state cg scc phases start prev d"
    and inv: "cyc.bfs_inv cg scc phases start d (n # q)" and k: "d n = Some k"
    and scan: "scan_edges start (scc_edges cg od scc phases n) (prev, q) = Inr (prev', q')"
  shows "\<exists>d'. cyc_state cg scc phases start prev' d' \<and> cyc.bfs_inv cg scc phases start d' q'
    \<and> (\<forall>m. d m \<noteq> None \<longrightarrow> d' m = d m) \<and> (\<forall>m. d m = None \<longrightarrow> d' m \<noteq> None \<longrightarrow> m \<in> set q') \<and> set q \<subseteq> set q'
    \<and> (n, start) \<notin> cycle_steps cg scc phases"
proof -
  let ?es = "scc_edges cg od scc phases n"
  note steps = scc_edges_steps [OF od]
  from scan_edges_new [OF scan] obtain new where closed: "start \<notin> edge_target ` set ?es"
      and q': "q' = q @ new" and dist: "distinct new" and new: "set new = {m \<in> edge_target ` set ?es. prev m = None}"
      and same: "\<forall>m. m \<notin> set new \<longrightarrow> prev' m = prev m"
      and added: "\<forall>m \<in> set new. \<exists>edge \<in> set ?es. edge_target edge = m \<and> prev' m = Some (edge_id edge)"
    by (elim conjE exE) (rule that)
  let ?succ = "cycle_steps cg scc phases `` {n} - {start}"
  define d' where "d' = (\<lambda>m. if d m = None \<and> m \<in> ?succ then Some (Suc k) else d m)"
  have none: "d m = None \<longleftrightarrow> m \<noteq> start \<and> prev m = None" for m
    using cyc_stateD(1) [OF st] by (metis domIff insertE insertI1 insertI2)
  have new': "set new = {m \<in> ?succ. d m = None}" using new closed unfolding steps none by auto
  have "cyc.bfs_inv cg scc phases start d' q'"
    by (rule cyc.bfs_grow [OF inv k _ q' new' dist]) (simp add: d'_def)
  moreover have "cyc_state cg scc phases start prev' d'"
    unfolding cyc_state_def
  proof (intro conjI allI impI)
    show "d' start = Some 0" using cyc_stateD(3) [OF st] by (simp add: d'_def)
    have "start \<notin> set new" using new' by simp
    then show "prev' start = None" using same cyc_stateD(2) [OF st] by simp
    have "m \<in> dom d' \<longleftrightarrow> m \<in> insert start (dom prev')" for m
    proof (cases "m \<in> set new")
      case True
      then show ?thesis using added new' by (auto simp: d'_def dom_def)
    next
      case False
      then have "d' m = d m" using new' by (auto simp: d'_def)
      then show ?thesis using False same cyc_stateD(1) [OF st] by (metis domIff insert_iff)
    qed
    then show "dom d' = insert start (dom prev')" by blast
    show "\<exists>s j. walk cg scc phases s [e] m \<and> d' s = Some j \<and> d' m = Some (Suc j)" if e: "prev' m = Some e" for m e
    proof (cases "m \<in> set new")
      case True
      then obtain edge where "edge \<in> set ?es" "edge_target edge = m" "e = edge_id edge" using added e by auto
      then have "walk cg scc phases n [e] m" using scc_edge_walk [OF od] by blast
      moreover have "d' n = Some k" "d' m = Some (Suc k)" using k True new' by (auto simp: d'_def)
      ultimately show ?thesis by blast
    next
      case False
      then have "prev m = Some e" using e same by simp
      then obtain s j where "walk cg scc phases s [e] m" "d s = Some j" "d m = Some (Suc j)" using cyc_stateD(4) [OF st] by blast
      then show ?thesis by (auto simp: d'_def)
    qed
  qed
  moreover have "\<forall>m. d m = None \<longrightarrow> d' m \<noteq> None \<longrightarrow> m \<in> set q'" using new' by (auto simp: d'_def q')
  moreover have "(n, start) \<notin> cycle_steps cg scc phases" using closed steps by blast
  ultimately show ?thesis by (intro exI [of _ d']) (auto simp: d'_def q')
qed

text \<open>The closing edge: the nodes reached on the way to it extend the state.\<close>

lemma scan_edges_closing:
  assumes "scan_edges start edges (prev, queue) = Inl (closing, prev')"
  shows "(\<exists>edge \<in> set edges. edge_target edge = start \<and> closing = edge_id edge) \<and> prev' start = prev start
    \<and> (\<forall>m e. prev' m = Some e \<longrightarrow> prev m = Some e \<or> (\<exists>edge \<in> set edges. edge_target edge = m \<and> e = edge_id edge \<and> prev m = None))
    \<and> (\<forall>m. prev m \<noteq> None \<longrightarrow> prev' m = prev m)"
  using assms
proof (induction start edges "(prev, queue)" arbitrary: prev queue rule: scan_edges.induct)
  case (2 start edge edges prev queue)
  show ?case
  proof (cases "edge_target edge = start")
    case True
    then show ?thesis using "2.prems" by auto
  next
    case t: False
    show ?thesis
    proof (cases "prev (edge_target edge)")
      case None
      then have run: "scan_edges start edges (prev(edge_target edge \<mapsto> edge_id edge), queue @ [edge_target edge]) = Inl (closing, prev')"
        using "2.prems" t by simp
      let ?prev = "prev(edge_target edge \<mapsto> edge_id edge)"
      have ih: "(\<exists>edge \<in> set edges. edge_target edge = start \<and> closing = edge_id edge) \<and> prev' start = ?prev start
          \<and> (\<forall>m e. prev' m = Some e \<longrightarrow> ?prev m = Some e \<or> (\<exists>edge \<in> set edges. edge_target edge = m \<and> e = edge_id edge \<and> ?prev m = None))
          \<and> (\<forall>m. ?prev m \<noteq> None \<longrightarrow> prev' m = ?prev m)"
        using "2.hyps" [OF t _ run] None by simp
      show ?thesis
      proof (intro conjI allI impI)
        show "\<exists>e \<in> set (edge # edges). edge_target e = start \<and> closing = edge_id e" using ih by auto
        show "prev' start = prev start" using ih t by (metis fun_upd_other)
        show "prev m = Some e \<or> (\<exists>edge \<in> set (edge # edges). edge_target edge = m \<and> e = edge_id edge \<and> prev m = None)"
          if "prev' m = Some e" for m e
        proof (cases "m = edge_target edge")
          case True
          then have "?prev m \<noteq> None" by simp
          then have "e = edge_id edge" using ih that True by (metis fun_upd_same option.inject)
          then show ?thesis using True None by simp
        next
          case False
          then have "?prev m = prev m" by simp
          then show ?thesis using ih that by (metis list.set_intros(2))
        qed
        show "prev' m = prev m" if "prev m \<noteq> None" for m
          using ih that None by (metis fun_upd_other)
      qed
    next
      case (Some e)
      then have run: "scan_edges start edges (prev, queue) = Inl (closing, prev')" using "2.prems" t by simp
      show ?thesis using "2.hyps" [OF t _ run] Some by auto
    qed
  qed
qed simp

lemma closing_state:
  assumes od: "petgraph_ok cg od" and st: "cyc_state cg scc phases start prev d" and k: "d n = Some k"
    and scan: "scan_edges start (scc_edges cg od scc phases n) (prev, q) = Inl (closing, prev')"
  shows "walk cg scc phases n [closing] start \<and> (\<exists>d'. cyc_state cg scc phases start prev' d' \<and> d' n = Some k)"
proof -
  from scan_edges_closing [OF scan]
  have c: "\<exists>edge \<in> set (scc_edges cg od scc phases n). edge_target edge = start \<and> closing = edge_id edge"
    and start: "prev' start = prev start"
    and new: "\<And>m e. prev' m = Some e \<Longrightarrow> prev m = Some e \<or>
      (\<exists>edge \<in> set (scc_edges cg od scc phases n). edge_target edge = m \<and> e = edge_id edge \<and> prev m = None)"
    and old: "\<And>m. prev m \<noteq> None \<Longrightarrow> prev' m = prev m" by blast+
  define d' where "d' = (\<lambda>m. if d m = None \<and> prev' m \<noteq> None then Some (Suc k) else d m)"
  have none: "d m = None \<longleftrightarrow> m \<noteq> start \<and> prev m = None" for m
    using cyc_stateD(1) [OF st] by (metis domIff insertE insertI1 insertI2)
  have keep: "d m \<noteq> None \<Longrightarrow> d' m = d m" for m by (simp add: d'_def)
  have "cyc_state cg scc phases start prev' d'"
    unfolding cyc_state_def
  proof (intro conjI allI impI)
    show "d' start = Some 0" using cyc_stateD(3) [OF st] by (simp add: d'_def)
    show "prev' start = None" using start cyc_stateD(2) [OF st] by simp
    have "d' m \<noteq> None \<longleftrightarrow> m = start \<or> prev' m \<noteq> None" for m
      using none [of m] old [of m] by (auto simp: d'_def)
    then show "dom d' = insert start (dom prev')" by (auto simp: dom_def)
    show "\<exists>s j. walk cg scc phases s [e] m \<and> d' s = Some j \<and> d' m = Some (Suc j)" if e: "prev' m = Some e" for m e
      using new [OF e]
    proof
      assume "prev m = Some e"
      then show ?thesis using cyc_stateD(4) [OF st] keep by (metis option.distinct(1))
    next
      assume "\<exists>edge \<in> set (scc_edges cg od scc phases n). edge_target edge = m \<and> e = edge_id edge \<and> prev m = None"
      then have "walk cg scc phases n [e] m" "prev m = None" using scc_edge_walk [OF od] by blast+
      moreover have "m \<noteq> start" using e start cyc_stateD(2) [OF st] by auto
      ultimately have "d' m = Some (Suc k)" "d' n = Some k" using none [of m] e k by (auto simp: d'_def)
      then show ?thesis using \<open>walk cg scc phases n [e] m\<close> by blast
    qed
  qed
  then show ?thesis using c scc_edge_walk [OF od] k keep [of n] by (metis option.distinct(1))
qed

text \<open>A closed walk gives its last node a distance; the front of the queue bounds it from below.\<close>

lemma steps_at_distance: "(start, y) \<in> cycle_steps cg scc phases ^^ k \<Longrightarrow> \<exists>j \<le> k. cyc.at_distance cg scc phases start j y"
proof (induction k arbitrary: y)
  case (Suc k)
  then obtain x where x: "(start, x) \<in> cycle_steps cg scc phases ^^ k" "(x, y) \<in> cycle_steps cg scc phases" by auto
  from Suc.IH [OF x(1)] obtain j where j: "j \<le> k" "cyc.at_distance cg scc phases start j x" by blast
  show ?case
  proof (cases "y = start")
    case True
    then show ?thesis by (intro exI [of _ 0]) simp
  next
    case False
    then have "cyc.at_distance cg scc phases start (Suc j) y" using x(2) j(2) by (auto simp: cyc.at_distance_Suc)
    then show ?thesis using j(1) by (intro exI [of _ "Suc j"]) simp
  qed
qed auto

lemma closed_walk_last:
  assumes "walk cg scc phases start es start" and "es \<noteq> []"
  shows "\<exists>y j. (y, start) \<in> cycle_steps cg scc phases \<and> j < length es \<and> cyc.at_distance cg scc phases start j y"
proof -
  obtain fs e where es: "es = fs @ [e]" using assms(2) by (metis rev_exhaust)
  then obtain y where y: "walk cg scc phases start fs y" "walk cg scc phases y [e] start" using assms(1) by (auto simp only: walk_append)
  have "(start, y) \<in> cycle_steps cg scc phases ^^ length fs" using y(1) walk_relpow by blast
  from steps_at_distance [OF this] obtain j where j: "j \<le> length fs" "cyc.at_distance cg scc phases start j y" by blast
  moreover have "(y, start) \<in> cycle_steps cg scc phases" using y(2) unfolding cycle_steps_def by blast
  ultimately show ?thesis by (intro exI [of _ y] exI [of _ j]) (simp add: es)
qed

lemma front_minimal:
  assumes inv: "cyc.bfs_inv cg scc phases start d (n # q)" and k: "d n = Some k"
    and processed: "\<And>m. d m \<noteq> None \<Longrightarrow> m \<notin> set (n # q) \<Longrightarrow> (m, start) \<notin> cycle_steps cg scc phases"
    and walk: "walk cg scc phases start es start" "es \<noteq> []"
  shows "Suc k \<le> length es"
proof (rule ccontr)
  assume "\<not> Suc k \<le> length es"
  moreover obtain y j where y: "(y, start) \<in> cycle_steps cg scc phases" "j < length es" "cyc.at_distance cg scc phases start j y"
    using closed_walk_last [OF walk] by blast
  ultimately have "j < k" by simp
  then obtain i where i: "i < k" "d y = Some i" using cyc.bfs_closer [OF inv y(3)] k by auto
  have "sorted (map (the \<circ> d) (n # q))" using cyc.bfs_invD(4) [OF inv] unfolding cyc.layered_def by blast
  then have "k \<le> the (d m)" if "m \<in> set (n # q)" for m using that k by auto
  then have "y \<notin> set (n # q)" using i by fastforce
  then show False using processed i(2) y(1) by blast
qed

lemma bfs_closing_finds:
  assumes "petgraph_ok cg od" and "cyc_state cg scc phases start prev d" and "cyc.bfs_inv cg scc phases start d q"
    and "\<And>m. d m \<noteq> None \<Longrightarrow> m \<notin> set q \<Longrightarrow> (m, start) \<notin> cycle_steps cg scc phases"
    and walk: "walk cg scc phases start es start" "es \<noteq> []"
  shows "\<exists>closing prev' n d' k. bfs_closing cg od scc phases start prev q = Some (closing, prev')
    \<and> cyc_state cg scc phases start prev' d' \<and> walk cg scc phases n [closing] start \<and> d' n = Some k
    \<and> (\<forall>fs. walk cg scc phases start fs start \<and> fs \<noteq> [] \<longrightarrow> Suc k \<le> length fs)"
  using assms
proof (induction cg od scc phases start prev q arbitrary: d rule: bfs_closing.induct)
  case (1 cg od scc phases start prev)
  obtain y j where y: "(y, start) \<in> cycle_steps cg scc phases" "cyc.at_distance cg scc phases start j y"
    using closed_walk_last [OF "1.prems"(5,6)] by blast
  then obtain i where "d y = Some i" using cyc.bfs_closer [OF "1.prems"(3)] by blast
  then show ?case using "1.prems"(4) y(1) by auto
next
  case (2 cg od scc phases start prev n q)
  have "n \<in> dom d" using cyc.bfs_invD(4) [OF "2.prems"(3)] by (auto simp: cyc.layered_def)
  then obtain k where k: "d n = Some k" by blast
  show ?case
  proof (cases "scan_edges start (scc_edges cg od scc phases n) (prev, q)")
    case (Inl found)
    obtain closing prev' where found: "found = (closing, prev')" by force
    from closing_state [OF "2.prems"(1,2) k Inl [unfolded found]] obtain d'
      where "walk cg scc phases n [closing] start" "cyc_state cg scc phases start prev' d'" "d' n = Some k" by blast
    moreover have "bfs_closing cg od scc phases start prev (n # q) = Some (closing, prev')"
      by (simp add: Inl found)
    ultimately show ?thesis using front_minimal [OF "2.prems"(3) k "2.prems"(4)] by blast
  next
    case (Inr next_state)
    obtain prev' q' where ns: "next_state = (prev', q')" by force
    note scan = Inr [unfolded ns]
    from scan_edges_state [OF "2.prems"(1-3) k scan] obtain d' where st: "cyc_state cg scc phases start prev' d'"
      and inv: "cyc.bfs_inv cg scc phases start d' q'" and keep: "\<And>m. d m \<noteq> None \<Longrightarrow> d' m = d m"
      and fresh: "\<And>m. d m = None \<Longrightarrow> d' m \<noteq> None \<Longrightarrow> m \<in> set q'" and sub: "set q \<subseteq> set q'"
      and open_n: "(n, start) \<notin> cycle_steps cg scc phases" by blast
    have "(m, start) \<notin> cycle_steps cg scc phases" if "d' m \<noteq> None" "m \<notin> set q'" for m
      using "2.prems"(4) [of m] that fresh sub open_n by (cases "m = n") auto
    from "2.IH" [OF Inr ns [symmetric] "2.prems"(1) st inv this "2.prems"(5,6)]
    show ?thesis by (simp add: scan)
  qed
qed

section \<open>Components\<close>

text \<open>petgraph's documentation of \<open>tarjan_scc\<close> on a filtered graph: each component is a class of
  nodes that reach each other along kept edges, without repetition.\<close>

definition kept_steps :: "codebase_graph \<Rightarrow> (edge_reference \<Rightarrow> bool) \<Rightarrow> (node_index \<times> node_index) set" where
  "kept_steps cg keep = {(s, t). \<exists>e w. e < length (cg_edges cg) \<and> cg_edges cg ! e = (s, t, w) \<and> keep (e, s, t, w)}"

definition is_scc :: "codebase_graph \<Rightarrow> (edge_reference \<Rightarrow> bool) \<Rightarrow> node_index list \<Rightarrow> bool" where
  "is_scc cg keep scc \<longleftrightarrow> distinct scc
     \<and> (\<forall>n \<in> set scc. \<forall>m. m \<in> set scc \<longleftrightarrow> (n, m) \<in> (kept_steps cg keep)\<^sup>* \<and> (m, n) \<in> (kept_steps cg keep)\<^sup>*)"

definition tarjan_ok :: "(codebase_graph \<Rightarrow> (edge_reference \<Rightarrow> bool) \<Rightarrow> node_index list list) \<Rightarrow> codebase_graph \<Rightarrow> bool" where
  "tarjan_ok tarjan cg \<longleftrightarrow> (\<forall>keep. list_all (is_scc cg keep) (tarjan cg keep))"

lemma is_sccD:
  assumes "is_scc cg keep scc"
  shows "distinct scc"
    and "n \<in> set scc \<Longrightarrow> m \<in> set scc \<longleftrightarrow> (n, m) \<in> (kept_steps cg keep)\<^sup>* \<and> (m, n) \<in> (kept_steps cg keep)\<^sup>*"
  using assms by (simp_all add: is_scc_def)

lemma scc_path_inside:
  assumes scc: "is_scc cg (\<lambda>e. is_cycle_edge e phases) scc" and "start \<in> set scc"
    and "(start, a) \<in> (kept_steps cg (\<lambda>e. is_cycle_edge e phases))\<^sup>*"
    and "(a, b) \<in> (kept_steps cg (\<lambda>e. is_cycle_edge e phases))\<^sup>*"
    and "(b, start) \<in> (kept_steps cg (\<lambda>e. is_cycle_edge e phases))\<^sup>*"
  shows "(a, b) \<in> (cycle_steps cg scc phases)\<^sup>*"
  using assms(4,5)
proof (induction rule: rtrancl_induct)
  case (step y z)
  let ?R = "kept_steps cg (\<lambda>e. is_cycle_edge e phases)"
  have "(y, start) \<in> ?R\<^sup>*" using step.hyps(2) step.prems by (rule converse_rtrancl_into_rtrancl)
  then have ay: "(a, y) \<in> (cycle_steps cg scc phases)\<^sup>*" by (rule step.IH)
  have "(start, z) \<in> ?R\<^sup>*" using assms(3) step.hyps by (meson rtrancl.rtrancl_into_rtrancl rtrancl_trans)
  then have "z \<in> set scc" using is_sccD(2) [OF scc assms(2)] step.prems by simp
  then have "(y, z) \<in> cycle_steps cg scc phases"
    using step.hyps(2) unfolding kept_steps_def cycle_steps_def walk_one by blast
  then show ?case using ay by simp
qed simp

lemma scc_closed_walk:
  assumes scc: "is_scc cg (\<lambda>e. is_cycle_edge e phases) scc" and "2 \<le> length scc" and start: "start \<in> set scc"
  shows "\<exists>es. walk cg scc phases start es start \<and> es \<noteq> []"
proof -
  let ?R = "kept_steps cg (\<lambda>e. is_cycle_edge e phases)"
  have "\<exists>m \<in> set scc. m \<noteq> start"
  proof (rule ccontr)
    assume "\<not> ?thesis"
    then have "set scc \<subseteq> {start}" by blast
    then have "card (set scc) \<le> 1" using card_mono [of "{start}" "set scc"] by simp
    then show False using assms(1,2) by (simp add: is_scc_def distinct_card)
  qed
  then obtain m where m: "m \<in> set scc" "m \<noteq> start" by blast
  have r: "(start, m) \<in> ?R\<^sup>*" "(m, start) \<in> ?R\<^sup>*" using is_sccD(2) [OF scc start] m(1) by simp_all
  have "(start, m) \<in> (cycle_steps cg scc phases)\<^sup>*" by (rule scc_path_inside [OF scc start _ r]) simp
  moreover have "(m, start) \<in> (cycle_steps cg scc phases)\<^sup>*" by (rule scc_path_inside [OF scc start r]) simp
  ultimately obtain es fs where "walk cg scc phases start es m" "walk cg scc phases m fs start"
    unfolding walk_rtrancl by blast
  moreover from this have "es \<noteq> []" using m(2) by auto
  ultimately show ?thesis using walk_append by (intro exI [of _ "es @ fs"]) blast
qed

lemma cyc_state_init: "cyc_state cg scc phases start Map.empty [start \<mapsto> 0]"
  by (simp add: cyc_state_def)

lemma unwind_walk:
  assumes "walk cg scc phases s es m"
  shows "List.map_filter (cycle_edge_of cg) es = map (\<lambda>e. the (cycle_edge_of cg e)) es"
  using assms by (induction es arbitrary: s)
    (auto simp: List.map_filter_simps cycle_edge_of_def split: option.splits prod.splits)

lemma shortest_cycle_walk:
  assumes od: "petgraph_ok cg od" and scc: "is_scc cg (\<lambda>e. is_cycle_edge e phases) scc" and len: "2 \<le> length scc"
  shows "\<exists>start es. min_by_key (\<lambda>n. mn_module_name (cg_nodes cg ! n)) scc = Some start
    \<and> shortest_cycle cg od scc phases = Some (map (\<lambda>e. the (cycle_edge_of cg e)) es)
    \<and> walk cg scc phases start es start \<and> es \<noteq> []
    \<and> (\<forall>fs. walk cg scc phases start fs start \<and> fs \<noteq> [] \<longrightarrow> length es \<le> length fs)"
proof -
  have "scc \<noteq> []" using len by auto
  then obtain start where start: "min_by_key (\<lambda>n. mn_module_name (cg_nodes cg ! n)) scc = Some start"
    by (metis min_by_key_None not_Some_eq)
  from min_by_key_Some [OF this] have mem: "start \<in> set scc" by simp
  obtain ws where ws: "walk cg scc phases start ws start" "ws \<noteq> []" using scc_closed_walk [OF scc len mem] by blast
  have "cyc.bfs_inv cg scc phases start [start \<mapsto> 0] [start]"
    using cyc.bfs_init [of "[start]" start cg scc phases] by simp
  from bfs_closing_finds [OF od cyc_state_init this _ ws]
  obtain closing prev n d k where run: "bfs_closing cg od scc phases start Map.empty [start] = Some (closing, prev)"
    and st: "cyc_state cg scc phases start prev d" and c: "walk cg scc phases n [closing] start" and k: "d n = Some k"
    and least: "\<forall>fs. walk cg scc phases start fs start \<and> fs \<noteq> [] \<longrightarrow> Suc k \<le> length fs"
    by (auto split: if_splits)
  have "walk cg scc phases n (rev [closing]) start" using c by simp
  from unwind_from_reached [OF st k this] obtain fs where fs: "unwind_from cg prev start (Some n) [closing] = Some ([closing] @ fs)"
      "length fs = k" "walk cg scc phases start (rev ([closing] @ fs)) start" by blast
  have "shortest_cycle cg od scc phases = Some (List.map_filter (cycle_edge_of cg) (rev ([closing] @ fs)))"
    by (simp only: shortest_cycle_def start run unwind_def walk_endpoints [OF c] fs(1) option.case prod.case option.map)
  then show ?thesis
    using start fs unwind_walk [OF fs(3)] least
    by (intro exI [of _ start] exI [of _ "rev ([closing] @ fs)"]) simp
qed

section \<open>Findings\<close>

definition closed_loop :: "cycle_edge list \<Rightarrow> bool" where
  "closed_loop es \<longleftrightarrow> es \<noteq> [] \<and> ce_to_module (last es) = ce_from_module (hd es)
     \<and> successively (\<lambda>a b. ce_to_module a = ce_from_module b) es"

definition finding_ok :: "cycle_finding \<Rightarrow> bool" where
  "finding_ok f \<longleftrightarrow> 2 \<le> length (cy_modules f) \<and> closed_loop (cy_edges f)
     \<and> list_all (\<lambda>e. ce_from_module e \<in> set (cy_modules f) \<and> ce_to_module e \<in> set (cy_modules f)) (cy_edges f)
     \<and> list_all (\<lambda>m. ce_from_module (hd (cy_edges f)) \<le> m) (cy_modules f)"

lemma walk_loop:
  assumes "walk cg scc phases s es m" and "es \<noteq> []" and "s \<in> set scc"
  shows "(let ces = map (\<lambda>e. the (cycle_edge_of cg e)) es; name = (\<lambda>n. mn_module_name (cg_nodes cg ! n)) in
    ce_from_module (hd ces) = name s \<and> ce_to_module (last ces) = name m
    \<and> successively (\<lambda>a b. ce_to_module a = ce_from_module b) ces
    \<and> list_all (\<lambda>e. ce_from_module e \<in> name ` set scc \<and> ce_to_module e \<in> name ` set scc) ces)"
  using assms
proof (induction es arbitrary: s)
  case (Cons e es)
  then obtain t w where e: "edge_ref cg e = Some (e, s, t, w)" "t \<in> set scc" "walk cg scc phases t es m"
    by (auto simp: edge_ref_def split: if_splits prod.splits)
  show ?case
  proof (cases es)
    case Nil
    then show ?thesis using e Cons.prems(3) by (simp add: cycle_edge_of_def)
  next
    case (Cons f fs)
    then show ?thesis using Cons.IH [OF e(3) _ e(2)] e Cons.prems(3) by (simp add: cycle_edge_of_def Let_def)
  qed
qed simp

lemma those_map_Some: "\<forall>x \<in> set xs. \<exists>y. f x = Some y \<and> P x y \<Longrightarrow> \<exists>ys. those (map f xs) = Some ys \<and> list_all2 P xs ys"
proof (induction xs)
  case (Cons x xs)
  then obtain y where "f x = Some y" "P x y" by auto
  moreover obtain ys where "those (map f xs) = Some ys" "list_all2 P xs ys" using Cons by auto
  ultimately show ?case by (intro exI [of _ "y # ys"]) simp
qed simp

lemma list_all2_origin: "list_all2 P xs ys \<Longrightarrow> y \<in> set ys \<Longrightarrow> \<exists>x \<in> set xs. P x y"
  by (induction xs ys rule: list_all2_induct) auto

definition finding_of :: "codebase_graph \<Rightarrow> action_level \<Rightarrow> node_index list \<Rightarrow> cycle_finding \<Rightarrow> bool" where
  "finding_of cg action scc f \<longleftrightarrow> cy_action f = action \<and> finding_ok f
     \<and> cy_modules f = map (\<lambda>n. mn_module_name (cg_nodes cg ! n)) scc"

lemma findings_for_ok:
  assumes "petgraph_ok cg od" and "\<And>scc. scc \<in> set sccs \<Longrightarrow> is_scc cg (\<lambda>e. is_cycle_edge e phases) scc \<and> 2 \<le> length scc"
  shows "\<exists>fs. findings_for cg od sccs action hint phases = Some fs \<and> list_all2 (finding_of cg action) sccs fs"
  unfolding findings_for_def
proof (rule those_map_Some, rule ballI)
  fix scc
  assume "scc \<in> set sccs"
  then have scc: "is_scc cg (\<lambda>e. is_cycle_edge e phases) scc" "2 \<le> length scc" using assms(2) by auto
  from shortest_cycle_walk [OF assms(1) scc] obtain start es
    where start: "min_by_key (\<lambda>n. mn_module_name (cg_nodes cg ! n)) scc = Some start"
      and run: "shortest_cycle cg od scc phases = Some (map (\<lambda>e. the (cycle_edge_of cg e)) es)"
      and w: "walk cg scc phases start es start" "es \<noteq> []" by blast
  from min_by_key_Some [OF start] have mem: "start \<in> set scc"
    and least: "\<forall>n \<in> set scc. mn_module_name (cg_nodes cg ! start) \<le> mn_module_name (cg_nodes cg ! n)" by auto
  let ?f = "\<lparr>cy_action = action, cy_modules = map (\<lambda>n. mn_module_name (cg_nodes cg ! n)) scc, cy_hint = hint,
    cy_edges = map (\<lambda>e. the (cycle_edge_of cg e)) es\<rparr>"
  have "finding_ok ?f"
    using walk_loop [OF w mem] w(2) scc(2) least by (simp add: finding_ok_def closed_loop_def Let_def list_all_iff)
  then show "\<exists>f. map_option (\<lambda>edges. \<lparr>cy_action = action, cy_modules = map (\<lambda>n. mn_module_name (cg_nodes cg ! n)) scc,
      cy_hint = hint, cy_edges = edges\<rparr>) (shortest_cycle cg od scc phases) = Some f \<and> finding_of cg action scc f"
    by (simp add: run finding_of_def)
qed

lemma finding_for_ok:
  assumes "petgraph_ok cg od" and "is_scc cg (\<lambda>e. is_cycle_edge e phases) scc" and "2 \<le> length scc"
  shows "\<exists>f. finding_for cg od scc action hint phases = Some f \<and> finding_of cg action scc f"
proof -
  obtain fs where "findings_for cg od [scc] action hint phases = Some fs" "list_all2 (finding_of cg action) [scc] fs"
    using findings_for_ok [OF assms(1), of "[scc]" phases action hint] assms(2,3) by auto
  then show ?thesis by (auto simp: finding_for_def list_all2_Cons1)
qed

text \<open>C27: For a component of two modules or more, \<open>shortest_cycle\<close> never panics and always ends: it
  returns the edges of a closed import path through the component's first module by name, inside the
  component and along cycle edges only, and no such closed path is shorter.\<close>

theorem shortest_cycle_is_shortest:
  assumes "petgraph_ok cg od" and "is_scc cg (\<lambda>e. is_cycle_edge e phases) scc" and "2 \<le> length scc"
  shows "\<exists>start es. min_by_key (\<lambda>n. mn_module_name (cg_nodes cg ! n)) scc = Some start
    \<and> shortest_cycle cg od scc phases = Some (map (\<lambda>e. the (cycle_edge_of cg e)) es)
    \<and> walk cg scc phases start es start \<and> es \<noteq> []
    \<and> (\<forall>fs. walk cg scc phases start fs start \<and> fs \<noteq> [] \<longrightarrow> length es \<le> length fs)"
  using assms by (rule shortest_cycle_walk)

lemma cycles_detect_findings:
  assumes "petgraph_ok cg od" and "tarjan_ok tarjan cg"
  shows "\<exists>runtime typed. cycles_detect tarjan globs cg od config = Some (runtime @ typed)
    \<and> list_all2 (finding_of cg Warning)
        (filter (\<lambda>scc. 2 \<le> length scc \<and> is_reportable_scc cg scc (globs (cc_exclude config))) (tarjan cg (\<lambda>e. is_cycle_edge e RUNTIME)))
        runtime
    \<and> list_all (\<lambda>f. list_ex (\<lambda>scc. finding_of cg Info scc f) (tarjan cg (\<lambda>e. is_cycle_edge e TYPE_LEVEL))) typed
    \<and> (typed = [] \<or> cc_include_type_only config)"
proof -
  let ?sccs = "\<lambda>phases. filter_reportable_sccs cg (filter (\<lambda>scc. 2 \<le> length scc) (tarjan cg (\<lambda>edge. is_cycle_edge edge phases))) (globs (cc_exclude config))"
  have scc: "is_scc cg (\<lambda>e. is_cycle_edge e phases) scc \<and> 2 \<le> length scc \<and> scc \<in> set (tarjan cg (\<lambda>e. is_cycle_edge e phases))"
    if "scc \<in> set (?sccs phases)" for scc phases
    using that assms(2) by (auto simp: filter_reportable_sccs_def tarjan_ok_def list_all_iff)
  have eq: "?sccs RUNTIME = filter (\<lambda>scc. 2 \<le> length scc \<and> is_reportable_scc cg scc (globs (cc_exclude config))) (tarjan cg (\<lambda>e. is_cycle_edge e RUNTIME))"
    by (simp add: filter_reportable_sccs_def conj_commute)
  obtain runtime where r: "findings_for cg od (?sccs RUNTIME) Warning None RUNTIME = Some runtime"
      "list_all2 (finding_of cg Warning) (?sccs RUNTIME) runtime"
    using findings_for_ok [OF assms(1), of "?sccs RUNTIME" RUNTIME Warning None] scc by blast
  show ?thesis
  proof (cases "cc_include_type_only config")
    case False
    then show ?thesis using r eq
      by (intro exI [of _ runtime] exI [of _ "[]"]) (simp add: cycles_detect_def Let_def)
  next
    case True
    let ?typed = "filter (has_type_only_internal_edge cg od)
        (filter (\<lambda>scc. scc_key cg scc \<notin> set (map (scc_key cg) (?sccs RUNTIME))) (?sccs TYPE_LEVEL))"
    have "\<forall>s \<in> set ?typed. \<exists>f. finding_for cg od s Info (Some type_only_hint) TYPE_LEVEL = Some f \<and> finding_of cg Info s f"
    proof (rule ballI)
      fix s
      assume "s \<in> set ?typed"
      then have "s \<in> set (?sccs TYPE_LEVEL)" unfolding set_filter by blast
      from scc [OF this] show "\<exists>f. finding_for cg od s Info (Some type_only_hint) TYPE_LEVEL = Some f \<and> finding_of cg Info s f"
        using finding_for_ok [OF assms(1)] by blast
    qed
    from those_map_Some [OF this] obtain typed where ty:
      "those (map (\<lambda>scc. finding_for cg od scc Info (Some type_only_hint) TYPE_LEVEL) ?typed) = Some typed"
      "list_all2 (finding_of cg Info) ?typed typed" by blast
    have "list_ex (\<lambda>scc. finding_of cg Info scc f) (tarjan cg (\<lambda>e. is_cycle_edge e TYPE_LEVEL))" if f: "f \<in> set typed" for f
    proof -
      obtain s where s: "s \<in> set ?typed" "finding_of cg Info s f"
        using list_all2_origin [OF ty(2) f] by blast
      have "s \<in> set (?sccs TYPE_LEVEL)" using s(1) unfolding set_filter by blast
      from scc [OF this] show ?thesis using s(2) unfolding list_ex_iff by blast
    qed
    then show ?thesis using r eq ty True
      by (intro exI [of _ runtime] exI [of _ typed]) (simp add: cycles_detect_def Let_def list_all_iff)
  qed
qed

text \<open>C28: \<open>detect\<close> never panics. It reports, in order, a warning for each runtime component of two modules or
  more that is not wholly excluded, then only type-level components at info; every finding lists the
  component's modules and a closed loop of imports among them that starts at the first module by name.\<close>

theorem cycles_detect_loops:
  assumes "petgraph_ok cg od" and "tarjan_ok tarjan cg"
  shows "\<exists>runtime typed. cycles_detect tarjan globs cg od config = Some (runtime @ typed)
    \<and> list_all2 (finding_of cg Warning)
        (filter (\<lambda>scc. 2 \<le> length scc \<and> is_reportable_scc cg scc (globs (cc_exclude config))) (tarjan cg (\<lambda>e. is_cycle_edge e RUNTIME)))
        runtime
    \<and> list_all (\<lambda>f. list_ex (\<lambda>scc. finding_of cg Info scc f) (tarjan cg (\<lambda>e. is_cycle_edge e TYPE_LEVEL))) typed
    \<and> (typed = [] \<or> cc_include_type_only config)"
  using assms by (rule cycles_detect_findings)

section \<open>A sample\<close>

text \<open>Two modules that import each other.\<close>

definition pair_graph :: codebase_graph where
  "pair_graph = sample_graph [''a'', ''b''] [(0, 1), (1, 0)]"

lemma pair_edges: "cg_edges pair_graph = [(0, 1, sample_import), (1, 0, sample_import)]"
  by (simp add: pair_graph_def sample_graph_def)

definition pair_tarjan :: "codebase_graph \<Rightarrow> (edge_reference \<Rightarrow> bool) \<Rightarrow> node_index list list" where
  "pair_tarjan cg keep = (if keep (0, 0, 1, sample_import) \<and> keep (1, 1, 0, sample_import) then [[0, 1]] else [])"

lemma pair_scc:
  assumes "keep (0, 0, 1, sample_import)" and "keep (1, 1, 0, sample_import)"
  shows "is_scc pair_graph keep [0, 1]"
proof -
  let ?R = "kept_steps pair_graph keep"
  have at: "\<And>e. e < 2 \<Longrightarrow> e = 0 \<or> e = (1::nat)" by auto
  have R: "?R = {(0, 1), (1, 0)}"
    using assms by (auto simp: kept_steps_def pair_edges less_2_cases_iff nth_Cons' split: if_splits)
  have "m \<in> {0, 1}" if "(n, m) \<in> ?R\<^sup>*" "n \<in> {0, 1}" for n m :: nat
    using that by (induction rule: rtrancl_induct) (auto simp: R)
  moreover have "(0, 1) \<in> ?R\<^sup>*" "(1, 0) \<in> ?R\<^sup>*" by (auto simp: R)
  ultimately show ?thesis by (auto simp: is_scc_def)
qed

lemma pair_tarjan_ok: "tarjan_ok pair_tarjan pair_graph"
  using pair_scc by (simp add: tarjan_ok_def pair_tarjan_def)

lemma pair_runtime: "is_cycle_edge (e, s, t, sample_import) RUNTIME \<longleftrightarrow> s \<noteq> t"
  by (simp add: is_cycle_edge_def sample_import_def RUNTIME_def)

theorem shortest_cycle_is_shortest_witness:
  "\<exists>start es. min_by_key (\<lambda>n. mn_module_name (cg_nodes pair_graph ! n)) [0, 1] = Some start
    \<and> shortest_cycle pair_graph (ascending_order pair_graph) [0, 1] RUNTIME = Some (map (\<lambda>e. the (cycle_edge_of pair_graph e)) es)
    \<and> walk pair_graph [0, 1] RUNTIME start es start \<and> es \<noteq> []
    \<and> (\<forall>fs. walk pair_graph [0, 1] RUNTIME start fs start \<and> fs \<noteq> [] \<longrightarrow> length es \<le> length fs)"
  by (rule shortest_cycle_is_shortest [OF ascending_order_ok pair_scc]) (simp_all add: pair_runtime)

theorem cycles_detect_loops_witness:
  "\<exists>runtime typed. cycles_detect pair_tarjan (\<lambda>ps p. False) pair_graph (ascending_order pair_graph)
      \<lparr>cc_exclude = [], cc_include_type_only = True\<rparr> = Some (runtime @ typed)
    \<and> list_all2 (finding_of pair_graph Warning) [[0, 1]] runtime"
  using cycles_detect_loops [OF ascending_order_ok pair_tarjan_ok, of "\<lambda>ps p. False" "\<lparr>cc_exclude = [], cc_include_type_only = True\<rparr>"]
  by (auto simp: pair_tarjan_def pair_runtime is_reportable_scc_def)

end
