(* ===== verification/Reach.thy ===== *)
theory Reach
  imports Graph Rust_Std
begin

text \<open>
  Where the dead-code walk starts and how far it goes: the role of every module
  (\<open>noze/dead_code/roots.rs\<close>), runtime-loaded directories (\<open>loaded_dirs.rs\<close>) and the walk from
  production and test roots (\<open>reach.rs\<close>). A language's rules are the record \<open>rule_set\<close> of
  \<open>noze/dead_code/mod.rs\<close>, with compiled glob sets as predicates; what a profile decides is the
  record \<open>dead_code_profile\<close>. Hash maps over nodes are read in ascending order; every result
  below is a set or a map, for which the order does not matter.
\<close>

section \<open>Rules\<close>

datatype decorator_class = NoDecorator | Neutral | Registration | UnknownDecorator

datatype external_bases = Ignored | ImplyContract

record dead_code_defaults =
  dd_registration_decorators :: "string list"
  dd_entrypoint_names :: "string list"
  dd_method_entrypoint_names :: "string list"
  dd_external_bases :: external_bases
  dd_entrypoint_bases :: "string list"
  dd_entry_globs :: "string list"
  dd_runner_configs :: "string list"
  dd_test_sources :: "string list"
  dd_test_support :: "string list"

record dead_code_profile =
  dp_classify_decorator :: "string list option \<Rightarrow> string set \<Rightarrow> decorator_class"
  dp_is_conventionally_private :: "string \<Rightarrow> bool"
  dp_is_entry_file_stem :: "string \<Rightarrow> bool"
  dp_manages_class_properties :: "class_unit \<Rightarrow> string list option \<Rightarrow> bool"
  dp_manages_property :: "class_property \<Rightarrow> bool"
  dp_requires_property_usage_evidence :: "class_unit \<Rightarrow> bool"
  dp_defaults :: dead_code_defaults
  dp_manifest_entry_files :: "(path \<times> bool) list \<Rightarrow> path list"

record rule_set =
  rs_entrypoints :: "string set"
  rs_entrypoint_names :: "string list"
  rs_method_entrypoint_names :: "string list"
  rs_entry_globs :: "path \<Rightarrow> bool"
  rs_config_globs :: "path \<Rightarrow> bool"
  rs_test_source_globs :: "path \<Rightarrow> bool"
  rs_test_support_globs :: "path \<Rightarrow> bool"
  rs_manifest_entries :: "path set"

type_synonym rule_sets = "language \<rightharpoonup> rule_set"

section \<open>Roles\<close>

datatype role = ProdRoot | TestSource | Module

definition is_prod_root :: "(language \<Rightarrow> dead_code_profile) \<Rightarrow> module_node \<Rightarrow> rule_set \<Rightarrow> string set \<Rightarrow> bool" where
  "is_prod_root prof node rules entry_modules \<longleftrightarrow>
     (let stem = (case path_file_stem (mn_file_path node) of Some s \<Rightarrow> s | None \<Rightarrow> [])
      in dp_is_entry_file_stem (prof (mn_language node)) stem
         \<or> mn_module_name node \<in> entry_modules
         \<or> rs_entry_globs rules (mn_file_path node)
         \<or> rs_config_globs rules (mn_file_path node)
         \<or> mn_file_path node \<in> rs_manifest_entries rules)"

definition role_of :: "(language \<Rightarrow> dead_code_profile) \<Rightarrow> rule_sets \<Rightarrow> string set \<Rightarrow> module_node \<Rightarrow> role option" where
  "role_of prof rule_sets entry_modules node =
     (if mn_is_external node then None
      else case rule_sets (mn_language node) of
             None \<Rightarrow> None
           | Some rules \<Rightarrow> Some (if is_prod_root prof node rules entry_modules then ProdRoot
               else if rs_test_source_globs rules (mn_file_path node) then TestSource
               else Module))"

definition roles_of :: "(language \<Rightarrow> dead_code_profile) \<Rightarrow> codebase_graph \<Rightarrow> rule_sets \<Rightarrow> string set \<Rightarrow> node_index \<rightharpoonup> role" where
  "roles_of prof cg rule_sets entry_modules idx =
     (if idx < length (cg_nodes cg) then role_of prof rule_sets entry_modules (cg_nodes cg ! idx) else None)"

text \<open>The nodes of a role, in ascending order.\<close>

definition with_role :: "codebase_graph \<Rightarrow> (node_index \<rightharpoonup> role) \<Rightarrow> role \<Rightarrow> node_index list" where
  "with_role cg roles role = filter (\<lambda>idx. roles idx = Some role) [0..<length (cg_nodes cg)]"

section \<open>Runtime-loaded directories\<close>

definition MIN_UNIMPORTED :: nat where "MIN_UNIMPORTED = 5"

record dir_count =
  dn_modules :: usize
  dn_unimported :: usize

definition has_runtime_importer :: "codebase_graph \<Rightarrow> edge_order \<Rightarrow> (node_index \<rightharpoonup> role) \<Rightarrow> node_index \<Rightarrow> bool" where
  "has_runtime_importer cg od roles idx =
     list_ex (\<lambda>(e, source, target, w). source \<noteq> idx \<and> \<not> mn_is_external (cg_nodes cg ! source)
         \<and> im_phase w = Runtime \<and> roles source \<noteq> Some TestSource)
       (edges_directed cg od Incoming idx)"

definition count_dir :: "bool \<Rightarrow> path \<Rightarrow> (path \<rightharpoonup> dir_count) \<Rightarrow> (path \<rightharpoonup> dir_count)" where
  "count_dir unimported dir dirs =
     (let dc = (case dirs dir of Some c \<Rightarrow> c | None \<Rightarrow> \<lparr>dn_modules = 0, dn_unimported = 0\<rparr>)
      in dirs(dir \<mapsto> \<lparr>dn_modules = dn_modules dc + 1, dn_unimported = dn_unimported dc + (if unimported then 1 else 0)\<rparr>))"

definition proper_ancestors :: "path \<Rightarrow> path list" where
  "proper_ancestors p = tl (path_ancestors p)"

definition count_dirs :: "codebase_graph \<Rightarrow> (node_index \<times> bool) list \<Rightarrow> path \<rightharpoonup> dir_count" where
  "count_dirs cg unimported =
     fold (\<lambda>(idx, u) dirs. fold (count_dir u) (proper_ancestors (mn_file_path (cg_nodes cg ! idx))) dirs) unimported Map.empty"

definition dir_loaded :: "nat \<Rightarrow> dir_count \<Rightarrow> bool" where
  "dir_loaded share c \<longleftrightarrow> MIN_UNIMPORTED \<le> dn_unimported c \<and> share * dn_modules c \<le> dn_unimported c * 100"

definition promote :: "codebase_graph \<Rightarrow> edge_order \<Rightarrow> (node_index \<rightharpoonup> role) \<Rightarrow> nat \<Rightarrow> (node_index \<rightharpoonup> role)" where
  "promote cg od roles share =
     (if share = 0 then roles
      else let unimported = map (\<lambda>idx. (idx, \<not> has_runtime_importer cg od roles idx)) (with_role cg roles Module);
               dirs = count_dirs cg unimported;
               loaded = (\<lambda>path. list_ex (\<lambda>dir. case dirs dir of Some c \<Rightarrow> dir_loaded share c | None \<Rightarrow> False) (proper_ancestors path));
               promoted = map fst (filter (\<lambda>(idx, u). u \<and> loaded (mn_file_path (cg_nodes cg ! idx))) unimported)
           in fold (\<lambda>idx roles. roles(idx \<mapsto> ProdRoot)) promoted roles)"

section \<open>The walk\<close>

record reach =
  re_prod :: "node_index set"
  re_orphans :: "node_index set"

definition has_internal_importer :: "codebase_graph \<Rightarrow> edge_order \<Rightarrow> node_index \<Rightarrow> bool" where
  "has_internal_importer cg od idx =
     list_ex (\<lambda>(e, source, target, w). source \<noteq> idx \<and> \<not> mn_is_external (cg_nodes cg ! source))
       (edges_directed cg od Incoming idx)"

definition internal_targets :: "codebase_graph \<Rightarrow> edge_order \<Rightarrow> node_index \<Rightarrow> node_index list" where
  "internal_targets cg od idx =
     filter (\<lambda>next. \<not> mn_is_external (cg_nodes cg ! next)) (map (\<lambda>(e, s, t, w). t) (edges_directed cg od Outgoing idx))"

lemma internal_targets_ends: "m \<in> set (internal_targets cg od n) \<Longrightarrow> m \<in> edge_ends cg"
  by (auto simp: internal_targets_def dest: edges_directed_ends)

text \<open>The stack, its top first: \<open>extend\<close> leaves the last new node on top.\<close>

function reach_loop :: "codebase_graph \<Rightarrow> edge_order \<Rightarrow> node_index set \<Rightarrow> node_index list \<Rightarrow> node_index set" where
  "reach_loop cg od seen [] = seen"
| "reach_loop cg od seen (idx # stack) =
     (if idx \<in> seen then reach_loop cg od seen stack
      else let seen' = insert idx seen
           in reach_loop cg od seen' (rev (filter (\<lambda>next. next \<notin> seen') (internal_targets cg od idx)) @ stack))"
  by pat_completeness auto
termination
proof (relation "measures [\<lambda>(cg, od, seen, stack). card ((edge_ends cg \<union> set stack) - seen),
                           \<lambda>(cg, od, seen, stack). length stack]", goal_cases)
  case 1
  then show ?case by simp
next
  case (2 cg od seen idx stack)
  have "(edge_ends cg \<union> set stack) - seen = (edge_ends cg \<union> set (idx # stack)) - seen" using 2 by auto
  then show ?case by simp
next
  case (3 cg od seen idx stack seen')
  let ?new = "rev (filter (\<lambda>next. next \<notin> seen') (internal_targets cg od idx)) @ stack"
  have "(edge_ends cg \<union> set ?new) - seen' \<subset> (edge_ends cg \<union> set (idx # stack)) - seen"
    using 3 internal_targets_ends by auto
  then show ?case by (simp add: psubset_card_mono)
qed

definition reach_from :: "codebase_graph \<Rightarrow> edge_order \<Rightarrow> node_index list \<Rightarrow> node_index set" where
  "reach_from cg od roots = reach_loop cg od {} (rev roots)"

definition reach_walk :: "codebase_graph \<Rightarrow> edge_order \<Rightarrow> (node_index \<rightharpoonup> role) \<Rightarrow> reach" where
  "reach_walk cg od roles =
     (let unimported = filter (\<lambda>idx. \<not> has_internal_importer cg od idx) (with_role cg roles Module);
          prod = reach_from cg od (with_role cg roles ProdRoot @ unimported);
          test = reach_from cg od (with_role cg roles TestSource);
          islands = filter (\<lambda>idx. idx \<notin> prod \<and> idx \<notin> test) (with_role cg roles Module)
      in \<lparr>re_prod = prod \<union> set islands, re_orphans = set unimported \<union> set islands\<rparr>)"

section \<open>Reachability\<close>

definition internal_steps :: "codebase_graph \<Rightarrow> (node_index \<times> node_index) set" where
  "internal_steps cg = {(n, m). \<not> mn_is_external (cg_nodes cg ! m) \<and> (\<exists>w. (n, m, w) \<in> set (cg_edges cg))}"

lemma internal_targets_steps:
  assumes "petgraph_ok cg od"
  shows "set (internal_targets cg od n) = internal_steps cg `` {n}"
proof (intro set_eqI iffI)
  fix m
  assume "m \<in> set (internal_targets cg od n)"
  then obtain e s w where "(e, s, m, w) \<in> set (edges_directed cg od Outgoing n)" "\<not> mn_is_external (cg_nodes cg ! m)"
    by (auto simp: internal_targets_def)
  then have "e < length (cg_edges cg)" "cg_edges cg ! e = (n, m, w)" unfolding edges_directed_mem [OF assms] by simp_all
  then have "(n, m, w) \<in> set (cg_edges cg)" by (metis nth_mem)
  then show "m \<in> internal_steps cg `` {n}" using \<open>\<not> mn_is_external _\<close> by (auto simp: internal_steps_def)
next
  fix m
  assume "m \<in> internal_steps cg `` {n}"
  then obtain w where w: "(n, m, w) \<in> set (cg_edges cg)" "\<not> mn_is_external (cg_nodes cg ! m)" by (auto simp: internal_steps_def)
  then obtain e where "e < length (cg_edges cg)" "cg_edges cg ! e = (n, m, w)" by (auto simp: in_set_conv_nth)
  then have "(e, n, m, w) \<in> set (edges_directed cg od Outgoing n)" unfolding edges_directed_mem [OF assms] by simp
  then show "m \<in> set (internal_targets cg od n)" using w(2) by (force simp: internal_targets_def)
qed

interpretation reach: search_space "\<lambda>n. internal_steps cg `` {n}" "set roots" for cg and roots :: "node_index list"
proof unfold_locales
  have "(\<Union>n. internal_steps cg `` {n}) \<subseteq> edge_ends cg" by (force simp: internal_steps_def edge_ends_def)
  then show "finite (\<Union>n. internal_steps cg `` {n})" by (rule finite_subset) simp
qed simp

lemma reach_reached: "reach.reached cg roots = (internal_steps cg)\<^sup>* `` set roots"
proof -
  have "reach.edge cg = internal_steps cg" by (auto simp: reach.edge_def)
  then show ?thesis by (simp add: reach.reached_def)
qed

lemma reach_loop_inv:
  assumes "petgraph_ok cg od" and "seen \<subseteq> reach.reached cg roots" and "set stack \<subseteq> reach.reached cg roots"
    and "set roots \<subseteq> seen \<union> set stack" and "\<forall>n \<in> seen. internal_steps cg `` {n} \<subseteq> seen \<union> set stack"
  shows "reach_loop cg od seen stack = reach.reached cg roots"
  using assms
proof (induction cg od seen stack rule: reach_loop.induct)
  case (1 cg od seen)
  then show ?case using reach.closed_is_reached [of roots seen cg] by simp
next
  case (2 cg od seen idx stack)
  show ?case
  proof (cases "idx \<in> seen")
    case True
    then show ?thesis using 2 by (simp add: insert_absorb)
  next
    case False
    let ?seen = "insert idx seen"
    let ?new = "rev (filter (\<lambda>next. next \<notin> ?seen) (internal_targets cg od idx)) @ stack"
    have new: "set ?new = (internal_steps cg `` {idx} - ?seen) \<union> set stack"
      using internal_targets_steps [OF "2.prems"(1)] by auto
    have "reach_loop cg od ?seen ?new = reach.reached cg roots"
    proof (rule "2.IH"(2) [OF False refl "2.prems"(1)])
      show "?seen \<subseteq> reach.reached cg roots" using "2.prems"(2,3) by simp
      show "set ?new \<subseteq> reach.reached cg roots"
        unfolding new using "2.prems"(3) reach.reached_step [of idx cg roots] by auto
      show "set roots \<subseteq> ?seen \<union> set ?new" unfolding new using "2.prems"(4) by auto
      show "\<forall>n \<in> ?seen. internal_steps cg `` {n} \<subseteq> ?seen \<union> set ?new" unfolding new using "2.prems"(5) by auto
    qed
    then show ?thesis using False by (simp add: Let_def)
  qed
qed

lemma reach_from_reached:
  assumes "petgraph_ok cg od"
  shows "reach_from cg od roots = (internal_steps cg)\<^sup>* `` set roots"
  unfolding reach_from_def reach_reached [symmetric]
  using reach.reached_roots [of roots cg] by (intro reach_loop_inv [OF assms]) auto

section \<open>Directory counts\<close>

lemma path_ancestors_shorter: "q \<in> set (path_ancestors p) \<Longrightarrow> length q \<le> length p"
proof (induction p rule: path_ancestors.induct)
  case (1 p)
  show ?case
  proof (cases "path_parent p")
    case None
    then show ?thesis using "1.prems" by (subst (asm) path_ancestors.simps) simp
  next
    case (Some r)
    then have "q = p \<or> q \<in> set (path_ancestors r)" using "1.prems" by (subst (asm) path_ancestors.simps) simp
    then show ?thesis using "1.IH" [OF Some] path_parent_shorter [OF Some] by auto
  qed
qed

lemma distinct_path_ancestors: "distinct (path_ancestors p)"
proof (induction p rule: path_ancestors.induct)
  case (1 p)
  then show ?case
    by (subst path_ancestors.simps) (auto split: option.splits dest!: path_parent_shorter path_ancestors_shorter)
qed

lemma distinct_proper_ancestors: "distinct (proper_ancestors p)"
  unfolding proper_ancestors_def by (intro distinct_tl distinct_path_ancestors)

definition bump_count :: "bool \<Rightarrow> dir_count option \<Rightarrow> dir_count" where
  "bump_count u c = (let dc = (case c of Some c \<Rightarrow> c | None \<Rightarrow> \<lparr>dn_modules = 0, dn_unimported = 0\<rparr>)
     in \<lparr>dn_modules = dn_modules dc + 1, dn_unimported = dn_unimported dc + (if u then 1 else 0)\<rparr>)"

lemma fold_count_dir:
  "distinct ds \<Longrightarrow> fold (count_dir u) ds dirs dir = (if dir \<in> set ds then Some (bump_count u (dirs dir)) else dirs dir)"
  by (induction ds arbitrary: dirs) (auto simp: count_dir_def bump_count_def Let_def)

text \<open>The modules below a directory, and those of them that nothing imports at runtime.\<close>

definition below :: "codebase_graph \<Rightarrow> path \<Rightarrow> node_index \<Rightarrow> bool" where
  "below cg dir idx \<longleftrightarrow> dir \<in> set (proper_ancestors (mn_file_path (cg_nodes cg ! idx)))"

definition tally :: "codebase_graph \<Rightarrow> (node_index \<times> bool) list \<Rightarrow> path \<Rightarrow> dir_count" where
  "tally cg entries dir = \<lparr>dn_modules = length (filter (\<lambda>(idx, u). below cg dir idx) entries),
     dn_unimported = length (filter (\<lambda>(idx, u). u \<and> below cg dir idx) entries)\<rparr>"

lemma count_dirs_tally:
  "count_dirs cg entries dir = (if list_ex (\<lambda>(idx, u). below cg dir idx) entries then Some (tally cg entries dir) else None)"
proof (induction entries rule: rev_induct)
  case Nil
  then show ?case by (simp add: count_dirs_def)
next
  case (snoc entry entries)
  obtain idx u where e: "entry = (idx, u)" by force
  have "count_dirs cg (entries @ [entry]) dir
      = (if below cg dir idx then Some (bump_count u (count_dirs cg entries dir)) else count_dirs cg entries dir)"
    by (simp add: count_dirs_def e fold_count_dir [OF distinct_proper_ancestors] below_def)
  moreover have "filter (\<lambda>(idx, u). below cg dir idx) entries = [] \<and> filter (\<lambda>(idx, u). u \<and> below cg dir idx) entries = []"
    if "\<not> list_ex (\<lambda>(idx, u). below cg dir idx) entries"
    using that by (auto simp: list_ex_iff filter_empty_conv)
  ultimately show ?case using snoc by (auto simp: e bump_count_def tally_def Let_def)
qed

lemma fold_set_role:
  "fold (\<lambda>idx roles. roles(idx \<mapsto> r)) ixs roles idx = (if idx \<in> set ixs then Some r else roles idx)"
  by (induction ixs arbitrary: roles) auto

lemma with_role_mem [simp]: "idx \<in> set (with_role cg roles role) \<longleftrightarrow> idx < length (cg_nodes cg) \<and> roles idx = Some role"
  by (auto simp: with_role_def)

lemma distinct_with_role [simp]: "distinct (with_role cg roles role)"
  by (simp add: with_role_def)

section \<open>Properties\<close>

text \<open>A module that some other internal module imports, in the graph.\<close>

definition imported :: "codebase_graph \<Rightarrow> node_index \<Rightarrow> bool" where
  "imported cg n \<longleftrightarrow> (\<exists>s w. (s, n, w) \<in> set (cg_edges cg) \<and> s \<noteq> n \<and> \<not> mn_is_external (cg_nodes cg ! s))"

lemma incoming_ex:
  assumes "petgraph_ok cg od"
  shows "list_ex (\<lambda>(e, s, t, w). P s w) (edges_directed cg od Incoming n) \<longleftrightarrow> (\<exists>s w. (s, n, w) \<in> set (cg_edges cg) \<and> P s w)"
proof
  assume "list_ex (\<lambda>(e, s, t, w). P s w) (edges_directed cg od Incoming n)"
  then obtain e s t w where "(e, s, t, w) \<in> set (edges_directed cg od Incoming n)" "P s w" by (auto simp: list_ex_iff)
  then have "e < length (cg_edges cg)" "cg_edges cg ! e = (s, n, w)" "P s w" unfolding edges_directed_mem [OF assms] by simp_all
  then show "\<exists>s w. (s, n, w) \<in> set (cg_edges cg) \<and> P s w" by (metis nth_mem)
next
  assume "\<exists>s w. (s, n, w) \<in> set (cg_edges cg) \<and> P s w"
  then obtain s w e where "e < length (cg_edges cg)" "cg_edges cg ! e = (s, n, w)" "P s w" by (auto simp: in_set_conv_nth)
  then have "(e, s, n, w) \<in> set (edges_directed cg od Incoming n) \<and> P s w" unfolding edges_directed_mem [OF assms] by simp
  then show "list_ex (\<lambda>(e, s, t, w). P s w) (edges_directed cg od Incoming n)" by (force simp: list_ex_iff)
qed

lemma has_internal_importer_iff: "petgraph_ok cg od \<Longrightarrow> has_internal_importer cg od n \<longleftrightarrow> imported cg n"
  unfolding has_internal_importer_def imported_def
  using incoming_ex [where P = "\<lambda>s w. s \<noteq> n \<and> \<not> mn_is_external (cg_nodes cg ! s)"] by simp

text \<open>A module that production code loads through an import.\<close>

definition loaded_by_import :: "codebase_graph \<Rightarrow> (node_index \<rightharpoonup> role) \<Rightarrow> node_index \<Rightarrow> bool" where
  "loaded_by_import cg roles n \<longleftrightarrow> (\<exists>s w. (s, n, w) \<in> set (cg_edges cg) \<and> s \<noteq> n
     \<and> \<not> mn_is_external (cg_nodes cg ! s) \<and> im_phase w = Runtime \<and> roles s \<noteq> Some TestSource)"

lemma has_runtime_importer_iff: "petgraph_ok cg od \<Longrightarrow> has_runtime_importer cg od roles n \<longleftrightarrow> loaded_by_import cg roles n"
  unfolding has_runtime_importer_def loaded_by_import_def
  using incoming_ex [where P = "\<lambda>s w. s \<noteq> n \<and> \<not> mn_is_external (cg_nodes cg ! s) \<and> im_phase w = Runtime \<and> roles s \<noteq> Some TestSource"] by simp

definition is_role :: "codebase_graph \<Rightarrow> (node_index \<rightharpoonup> role) \<Rightarrow> role \<Rightarrow> node_index \<Rightarrow> bool" where
  "is_role cg roles role n \<longleftrightarrow> n < length (cg_nodes cg) \<and> roles n = Some role"

definition prod_start :: "codebase_graph \<Rightarrow> (node_index \<rightharpoonup> role) \<Rightarrow> node_index \<Rightarrow> bool" where
  "prod_start cg roles n \<longleftrightarrow> is_role cg roles ProdRoot n \<or> is_role cg roles Module n \<and> \<not> imported cg n"

definition reached_by :: "codebase_graph \<Rightarrow> (node_index \<Rightarrow> bool) \<Rightarrow> node_index \<Rightarrow> bool" where
  "reached_by cg P n \<longleftrightarrow> (\<exists>s. P s \<and> (s, n) \<in> (internal_steps cg)\<^sup>*)"

definition idle_module :: "codebase_graph \<Rightarrow> (node_index \<rightharpoonup> role) \<Rightarrow> node_index \<Rightarrow> bool" where
  "idle_module cg roles n \<longleftrightarrow> is_role cg roles Module n \<and> \<not> loaded_by_import cg roles n"

text \<open>C31: The walk of the dead-code pillar. Production is what a production root or an unimported module
  reaches along imports of internal modules, together with the islands that nothing reaches; orphans are
  the unimported modules and the islands; so a module outside production is reached by a test source.\<close>

theorem reach_walk_exact:
  assumes "petgraph_ok cg od"
  shows "re_prod (reach_walk cg od roles)
      = {n. reached_by cg (prod_start cg roles) n \<or> is_role cg roles Module n \<and> \<not> reached_by cg (is_role cg roles TestSource) n}
    \<and> re_orphans (reach_walk cg od roles)
      = {n. is_role cg roles Module n \<and> (\<not> imported cg n
           \<or> \<not> reached_by cg (prod_start cg roles) n \<and> \<not> reached_by cg (is_role cg roles TestSource) n)}
    \<and> {n. is_role cg roles Module n} - re_prod (reach_walk cg od roles)
      = {n. is_role cg roles Module n \<and> reached_by cg (is_role cg roles TestSource) n \<and> \<not> reached_by cg (prod_start cg roles) n}"
proof -
  define U where "U = filter (\<lambda>idx. \<not> has_internal_importer cg od idx) (with_role cg roles Module)"
  define prod where "prod = reach_from cg od (with_role cg roles ProdRoot @ U)"
  have U: "set U = {s. is_role cg roles Module s \<and> \<not> imported cg s}"
    unfolding U_def has_internal_importer_iff [OF assms] by (auto simp: is_role_def)
  have roles_set: "set (with_role cg roles role) = {n. is_role cg roles role n}" for role by (auto simp: is_role_def)
  have starts: "set (with_role cg roles ProdRoot @ U) = {n. prod_start cg roles n}"
    unfolding set_append U roles_set prod_start_def by auto
  have p: "prod = {n. reached_by cg (prod_start cg roles) n}"
    unfolding prod_def reach_from_reached [OF assms] starts reached_by_def by auto
  have t: "reach_from cg od (with_role cg roles TestSource) = {n. reached_by cg (is_role cg roles TestSource) n}"
    unfolding reach_from_reached [OF assms] roles_set reached_by_def by auto
  let ?islands = "{n. is_role cg roles Module n \<and> n \<notin> prod \<and> \<not> reached_by cg (is_role cg roles TestSource) n}"
  have r: "re_prod (reach_walk cg od roles) = prod \<union> ?islands" "re_orphans (reach_walk cg od roles) = set U \<union> ?islands"
    unfolding reach_walk_def Let_def U_def [symmetric] prod_def [symmetric] t by (auto simp: is_role_def)
  show ?thesis unfolding r p U by auto
qed

text \<open>A sample: a root and a module it imports, in a cycle with a third.\<close>

definition walk_sample :: codebase_graph where
  "walk_sample = sample_graph [''a'', ''b'', ''c''] [(0, 1), (1, 2), (2, 1)]"

definition walk_roles :: "node_index \<rightharpoonup> role" where
  "walk_roles = [0 \<mapsto> ProdRoot, 1 \<mapsto> Module, 2 \<mapsto> Module]"

theorem reach_walk_exact_witness:
  "re_orphans (reach_walk walk_sample (ascending_order walk_sample) walk_roles)
      = {n. is_role walk_sample walk_roles Module n \<and> (\<not> imported walk_sample n
           \<or> \<not> reached_by walk_sample (prod_start walk_sample walk_roles) n
             \<and> \<not> reached_by walk_sample (is_role walk_sample walk_roles TestSource) n)}"
  using reach_walk_exact [OF ascending_order_ok, of walk_sample walk_roles] by blast

lemma length_filter_card: "distinct xs \<Longrightarrow> length (filter P xs) = card {x \<in> set xs. P x}"
  by (metis distinct_card distinct_filter set_filter)

text \<open>A directory that counts as runtime-loaded, by the sizes of its sets of modules.\<close>

definition loaded_dir :: "codebase_graph \<Rightarrow> (node_index \<rightharpoonup> role) \<Rightarrow> nat \<Rightarrow> path \<Rightarrow> bool" where
  "loaded_dir cg roles share dir \<longleftrightarrow> 5 \<le> card {m. idle_module cg roles m \<and> below cg dir m}
     \<and> share * card {m. is_role cg roles Module m \<and> below cg dir m} \<le> card {m. idle_module cg roles m \<and> below cg dir m} * 100"

text \<open>C32: \<open>promote\<close> turns exactly those modules into production roots that nothing loads through an import and
  that lie below a directory where at least five modules, and at least the given share of all modules, are
  like them; every other role stays.\<close>

theorem promote_exact:
  assumes "petgraph_ok cg od"
  shows "promote cg od roles share n =
      (if 0 < share \<and> idle_module cg roles n \<and> (\<exists>dir. below cg dir n \<and> loaded_dir cg roles share dir)
       then Some ProdRoot else roles n)"
proof -
  define entries where "entries = map (\<lambda>idx. (idx, \<not> has_runtime_importer cg od roles idx)) (with_role cg roles Module)"
  have tally: "tally cg entries dir = \<lparr>dn_modules = card {m. is_role cg roles Module m \<and> below cg dir m},
      dn_unimported = card {m. idle_module cg roles m \<and> below cg dir m}\<rparr>" for dir
  proof -
    have "{m \<in> set (with_role cg roles Module). below cg dir m} = {m. is_role cg roles Module m \<and> below cg dir m}"
        "{m \<in> set (with_role cg roles Module). \<not> has_runtime_importer cg od roles m \<and> below cg dir m} = {m. idle_module cg roles m \<and> below cg dir m}"
      by (auto simp: is_role_def idle_module_def has_runtime_importer_iff [OF assms])
    then show ?thesis by (simp add: tally_def entries_def filter_map o_def length_filter_card del: with_role_mem)
  qed
  define hit where "hit = (\<lambda>dir. case count_dirs cg entries dir of Some c \<Rightarrow> dir_loaded share c | None \<Rightarrow> False)"
  have hit: "hit dir \<longleftrightarrow> loaded_dir cg roles share dir" if "below cg dir m" "is_role cg roles Module m" for dir m
  proof -
    have "list_ex (\<lambda>(idx, u). below cg dir idx) entries"
      using that by (auto simp: list_ex_iff entries_def is_role_def)
    then show ?thesis by (simp add: hit_def count_dirs_tally tally dir_loaded_def MIN_UNIMPORTED_def loaded_dir_def)
  qed
  let ?promoted = "map fst (filter (\<lambda>(idx, u). u \<and> list_ex hit (proper_ancestors (mn_file_path (cg_nodes cg ! idx)))) entries)"
  have "n \<in> set ?promoted \<longleftrightarrow> is_role cg roles Module n \<and> \<not> has_runtime_importer cg od roles n \<and> (\<exists>dir. below cg dir n \<and> hit dir)"
    by (auto simp: entries_def list_ex_iff below_def image_iff is_role_def)
  then have mem: "n \<in> set ?promoted \<longleftrightarrow> idle_module cg roles n \<and> (\<exists>dir. below cg dir n \<and> loaded_dir cg roles share dir)"
    unfolding idle_module_def has_runtime_importer_iff [OF assms] using hit by blast
  have "promote cg od roles share n = (if 0 < share \<and> n \<in> set ?promoted then Some ProdRoot else roles n)"
    unfolding promote_def Let_def entries_def [symmetric] hit_def [symmetric] fold_set_role by simp
  then show ?thesis unfolding mem .
qed

theorem promote_exact_witness:
  "promote walk_sample (ascending_order walk_sample) walk_roles 50 2 =
     (if 0 < (50::nat) \<and> idle_module walk_sample walk_roles 2
         \<and> (\<exists>dir. below walk_sample dir 2 \<and> loaded_dir walk_sample walk_roles 50 dir)
      then Some ProdRoot else walk_roles 2)"
  by (rule promote_exact [OF ascending_order_ok])

end
