(* ===== verification/Demand.thy ===== *)
theory Demand
  imports Reach
begin

text \<open>
  What a module's importers ask of it, \<open>noze/dead_code/demand.rs\<close>: the names of direct imports, then
  re-exports forwarded to a fixed point. The work list is a \<open>partial_function\<close>, so that not ending
  would be \<open>None\<close>; it is shown to end, with the least demand that the edges require. \<open>absorb\<close>
  compares lengths in the source, which change exactly when a growing set changes. The assertion of
  \<open>forward_side\<close> exists only in debug builds and is left out.
\<close>

record demand =
  dm_names :: "string set"
  dm_all :: bool

record inbound =
  ib_prod :: demand
  ib_test :: demand
  ib_type_star :: bool
  ib_opaque :: bool
  ib_from_config :: bool

definition no_demand :: demand where
  "no_demand = \<lparr>dm_names = {}, dm_all = False\<rparr>"

definition no_inbound :: inbound where
  "no_inbound = \<lparr>ib_prod = no_demand, ib_test = no_demand, ib_type_star = False, ib_opaque = False, ib_from_config = False\<rparr>"

definition demand_contains :: "demand \<Rightarrow> string \<Rightarrow> bool" where
  "demand_contains d name \<longleftrightarrow> dm_all d \<or> name \<in> dm_names d"

definition absorb_demand :: "demand \<Rightarrow> demand \<Rightarrow> demand \<times> bool" where
  "absorb_demand d other =
     (let d' = \<lparr>dm_names = dm_names d \<union> dm_names other, dm_all = dm_all d \<or> dm_all other\<rparr>
      in (d', (dm_all d', dm_names d') \<noteq> (dm_all d, dm_names d)))"

definition absorb_inbound :: "inbound \<Rightarrow> inbound \<Rightarrow> inbound \<times> bool" where
  "absorb_inbound i other =
     (let (pd, pd_new) = absorb_demand (ib_prod i) (ib_prod other);
          (test, test_new) = absorb_demand (ib_test i) (ib_test other);
          i' = \<lparr>ib_prod = pd, ib_test = test, ib_type_star = ib_type_star i \<or> ib_type_star other,
                ib_opaque = ib_opaque i \<or> ib_opaque other, ib_from_config = ib_from_config i \<or> ib_from_config other\<rparr>
      in (i', pd_new \<or> test_new
          \<or> (ib_type_star i, ib_opaque i, ib_from_config i) \<noteq> (ib_type_star i', ib_opaque i', ib_from_config i')))"

datatype test_importers = Count | ReportAsTestOnly

definition counted :: "inbound \<Rightarrow> test_importers \<Rightarrow> demand" where
  "counted i test_support = (if test_support = Count then fst (absorb_demand (ib_prod i) (ib_test i)) else ib_prod i)"

record importers =
  ip_roles :: "node_index \<rightharpoonup> role"
  ip_reach :: reach
  ip_config_files :: "node_index set"

definition importer_is_test :: "importers \<Rightarrow> node_index \<Rightarrow> bool" where
  "importer_is_test ip idx \<longleftrightarrow> ip_roles ip idx = Some TestSource \<or> idx \<notin> re_prod (ip_reach ip)"

definition forwards_everything :: "importers \<Rightarrow> node_index \<Rightarrow> bool" where
  "forwards_everything ip idx \<longleftrightarrow> ip_roles ip idx = Some ProdRoot \<or> idx \<in> re_orphans (ip_reach ip)"

section \<open>Direct imports\<close>

definition is_opaque :: "import_context \<Rightarrow> bool" where
  "is_opaque import \<longleftrightarrow> (im_imported_symbols import = [] \<or> im_bindings import = [])
     \<and> \<not> im_is_module_decl import \<and> ''*'' \<notin> set (im_imported_symbols import)"

definition ask_symbol :: "import_phase \<Rightarrow> string \<Rightarrow> bool \<times> demand \<Rightarrow> bool \<times> demand" where
  "ask_symbol phase symbol st = (case st of (type_star, asked) \<Rightarrow>
     if symbol = ''*'' then (case phase of TypeOnly \<Rightarrow> (True, asked) | Runtime \<Rightarrow> (type_star, asked\<lparr>dm_all := True\<rparr>))
     else (type_star, asked\<lparr>dm_names := insert symbol (dm_names asked)\<rparr>))"

definition add_direct :: "importers \<Rightarrow> node_index \<Rightarrow> import_context \<Rightarrow> inbound \<Rightarrow> inbound" where
  "add_direct ip source import target =
     (case fold (ask_symbol (im_phase import)) (im_imported_symbols import) (ib_type_star target, no_demand) of
        (type_star, asked) \<Rightarrow>
          let target = target\<lparr>ib_type_star := type_star\<rparr>
          in if importer_is_test ip source then target\<lparr>ib_test := fst (absorb_demand (ib_test target) asked)\<rparr>
             else target\<lparr>ib_prod := fst (absorb_demand (ib_prod target) asked),
                         ib_opaque := ib_opaque target \<or> is_opaque import,
                         ib_from_config := ib_from_config target \<or> source \<in> ip_config_files ip\<rparr>)"

section \<open>Re-exports\<close>

definition forward_symbol :: "demand \<Rightarrow> import_context \<Rightarrow> nat \<times> string \<Rightarrow> demand \<Rightarrow> demand" where
  "forward_symbol barrel edge entry asked = (case entry of (index, symbol) \<Rightarrow>
     let binding = (if index < length (im_bindings edge) then Some (im_bindings edge ! index) else None)
     in if symbol = ''*''
        then (case binding of
                Some namespace \<Rightarrow> asked\<lparr>dm_all := dm_all asked \<or> demand_contains barrel namespace\<rparr>
              | None \<Rightarrow> fst (absorb_demand asked barrel))
        else let exported = (case binding of Some e \<Rightarrow> e | None \<Rightarrow> symbol)
             in if demand_contains barrel exported then asked\<lparr>dm_names := insert symbol (dm_names asked)\<rparr> else asked)"

definition forward_side :: "demand \<Rightarrow> import_context \<Rightarrow> demand" where
  "forward_side barrel edge = fold (forward_symbol barrel edge) (enumerate 0 (im_imported_symbols edge)) no_demand"

definition forwarded :: "inbound \<Rightarrow> demand \<Rightarrow> import_context \<Rightarrow> inbound" where
  "forwarded barrel pd edge = \<lparr>ib_prod = forward_side pd edge, ib_test = forward_side (ib_test barrel) edge,
     ib_type_star = ib_type_star barrel, ib_opaque = ib_opaque barrel, ib_from_config = ib_from_config barrel\<rparr>"

definition forward_from :: "importers \<Rightarrow> node_index \<Rightarrow> inbound \<Rightarrow> import_context \<Rightarrow> inbound" where
  "forward_from ip barrel source edge =
     (let pd = (if forwards_everything ip barrel then (ib_prod source)\<lparr>dm_all := True\<rparr> else ib_prod source)
      in forwarded source pd edge)"

definition inbound_at :: "(node_index \<rightharpoonup> inbound) \<Rightarrow> node_index \<Rightarrow> inbound" where
  "inbound_at m n = (case m n of Some i \<Rightarrow> i | None \<Rightarrow> no_inbound)"

definition outgoing_reexports :: "codebase_graph \<Rightarrow> edge_order \<Rightarrow> node_index \<Rightarrow> edge_index list" where
  "outgoing_reexports cg od idx =
     map fst (filter (\<lambda>(e, s, t, w). im_is_reexport w) (edges_directed cg od Outgoing idx))"

text \<open>The first loop, over all edges by index.\<close>

definition direct_step :: "importers \<Rightarrow> edge_index \<times> node_index \<times> node_index \<times> import_context
    \<Rightarrow> (node_index \<rightharpoonup> inbound) \<times> edge_index list \<Rightarrow> (node_index \<rightharpoonup> inbound) \<times> edge_index list" where
  "direct_step ip edge st = (case (edge, st) of ((e, s, t, w), m, reexports) \<Rightarrow>
     if im_is_reexport w then (m, reexports @ [e])
     else (m(t \<mapsto> add_direct ip s w (inbound_at m t)), reexports))"

text \<open>The work list, its top first.\<close>

partial_function (option) forward_loop :: "codebase_graph \<Rightarrow> edge_order \<Rightarrow> importers \<Rightarrow> (node_index \<rightharpoonup> inbound)
    \<Rightarrow> edge_index list \<Rightarrow> (node_index \<rightharpoonup> inbound) option" where
  "forward_loop cg od ip m pending =
     (case pending of
        [] \<Rightarrow> Some m
      | e # rest \<Rightarrow>
          (case edge_ref cg e of
             None \<Rightarrow> forward_loop cg od ip m rest
           | Some (i, barrel, target, w) \<Rightarrow>
               if barrel = target then forward_loop cg od ip m rest
               else let r = absorb_inbound (inbound_at m target) (forward_from ip barrel (inbound_at m barrel) w)
                    in forward_loop cg od ip (m(target \<mapsto> fst r))
                         (if snd r then rev (outgoing_reexports cg od target) @ rest else rest)))"

definition inbound_of :: "codebase_graph \<Rightarrow> edge_order \<Rightarrow> importers \<Rightarrow> (node_index \<rightharpoonup> inbound) option" where
  "inbound_of cg od ip =
     (case fold (direct_step ip) (enumerate 0 (cg_edges cg)) (Map.empty, []) of
        (m, reexports) \<Rightarrow> forward_loop cg od ip m (rev reexports))"

section \<open>Demand as a set of facts\<close>

datatype ask = ProdName string | ProdAll | TestName string | TestAll | TypeStar | Opaque | FromConfig

definition asks :: "inbound \<Rightarrow> ask set" where
  "asks i = ProdName ` dm_names (ib_prod i) \<union> TestName ` dm_names (ib_test i)
     \<union> {f. f = ProdAll \<and> dm_all (ib_prod i) \<or> f = TestAll \<and> dm_all (ib_test i)
          \<or> f = TypeStar \<and> ib_type_star i \<or> f = Opaque \<and> ib_opaque i \<or> f = FromConfig \<and> ib_from_config i}"

lemma asks_mem [simp]:
  "ProdName s \<in> asks i \<longleftrightarrow> s \<in> dm_names (ib_prod i)" "TestName s \<in> asks i \<longleftrightarrow> s \<in> dm_names (ib_test i)"
  "ProdAll \<in> asks i \<longleftrightarrow> dm_all (ib_prod i)" "TestAll \<in> asks i \<longleftrightarrow> dm_all (ib_test i)"
  "TypeStar \<in> asks i \<longleftrightarrow> ib_type_star i" "Opaque \<in> asks i \<longleftrightarrow> ib_opaque i" "FromConfig \<in> asks i \<longleftrightarrow> ib_from_config i"
  by (auto simp: asks_def)

lemma all_ask: "(\<forall>f. P f) \<longleftrightarrow> (\<forall>s. P (ProdName s)) \<and> P ProdAll \<and> (\<forall>s. P (TestName s)) \<and> P TestAll \<and> P TypeStar \<and> P Opaque \<and> P FromConfig"
proof (intro iffI allI)
  fix f
  assume "(\<forall>s. P (ProdName s)) \<and> P ProdAll \<and> (\<forall>s. P (TestName s)) \<and> P TestAll \<and> P TypeStar \<and> P Opaque \<and> P FromConfig"
  then show "P f" by (cases f) simp_all
qed simp

lemma asks_le: "asks i \<subseteq> asks j \<longleftrightarrow> dm_names (ib_prod i) \<subseteq> dm_names (ib_prod j) \<and> dm_names (ib_test i) \<subseteq> dm_names (ib_test j)
    \<and> (dm_all (ib_prod i) \<longrightarrow> dm_all (ib_prod j)) \<and> (dm_all (ib_test i) \<longrightarrow> dm_all (ib_test j))
    \<and> (ib_type_star i \<longrightarrow> ib_type_star j) \<and> (ib_opaque i \<longrightarrow> ib_opaque j) \<and> (ib_from_config i \<longrightarrow> ib_from_config j)"
  unfolding subset_iff [of "asks i"] all_ask asks_mem by blast

lemma asks_eqI: "(\<And>s. ProdName s \<in> A \<longleftrightarrow> ProdName s \<in> B) \<Longrightarrow> (\<And>s. TestName s \<in> A \<longleftrightarrow> TestName s \<in> B)
    \<Longrightarrow> (ProdAll \<in> A \<longleftrightarrow> ProdAll \<in> B) \<Longrightarrow> (TestAll \<in> A \<longleftrightarrow> TestAll \<in> B) \<Longrightarrow> (TypeStar \<in> A \<longleftrightarrow> TypeStar \<in> B)
    \<Longrightarrow> (Opaque \<in> A \<longleftrightarrow> Opaque \<in> B) \<Longrightarrow> (FromConfig \<in> A \<longleftrightarrow> FromConfig \<in> B) \<Longrightarrow> A = B"
  unfolding set_eq_iff all_ask by simp

lemma asks_no_inbound [simp]: "asks no_inbound = {}"
  by (rule asks_eqI) (simp_all add: no_inbound_def no_demand_def)

lemma asks_absorb [simp]: "asks (fst (absorb_inbound i j)) = asks i \<union> asks j"
  by (rule asks_eqI) (simp_all add: absorb_inbound_def absorb_demand_def Let_def)

lemma absorb_changed: "snd (absorb_inbound i j) \<longleftrightarrow> \<not> asks j \<subseteq> asks i"
proof -
  have u: "(A \<union> B \<noteq> A) = (\<not> B \<subseteq> A)" for A B :: "string set" by blast
  show ?thesis unfolding asks_le
    by (simp add: absorb_inbound_def absorb_demand_def Let_def u) blast
qed

section \<open>Direct demand\<close>

lemma fold_ask_symbol:
  "fold (ask_symbol phase) syms (b, d) =
     (b \<or> phase = TypeOnly \<and> ''*'' \<in> set syms,
      \<lparr>dm_names = dm_names d \<union> {s \<in> set syms. s \<noteq> ''*''}, dm_all = dm_all d \<or> phase = Runtime \<and> ''*'' \<in> set syms\<rparr>)"
proof (induction syms arbitrary: b d)
  case (Cons s syms)
  show ?case
  proof (cases "s = ''*''")
    case True
    then show ?thesis using Cons.IH by (cases phase) (auto simp: ask_symbol_def)
  next
    case False
    then show ?thesis using Cons.IH by (auto simp: ask_symbol_def)
  qed
qed simp

definition direct_asks :: "importers \<Rightarrow> node_index \<Rightarrow> import_context \<Rightarrow> ask set" where
  "direct_asks ip source import = asks (add_direct ip source import no_inbound)"

lemma asks_add_direct: "asks (add_direct ip s w i) = asks i \<union> direct_asks ip s w"
  by (rule asks_eqI)
    (auto simp: direct_asks_def add_direct_def fold_ask_symbol Let_def absorb_demand_def no_inbound_def no_demand_def)

text \<open>After the first loop every module has the demand of its direct imports.\<close>

lemma inbound_at_upd [simp]: "inbound_at (m(t \<mapsto> i)) n = (if n = t then i else inbound_at m n)"
  by (simp add: inbound_at_def)

lemma direct_loop:
  assumes "fold (direct_step ip) (zip [k..<k + length es] es) (m, rx) = (m', rx')"
  shows "(\<forall>n. asks (inbound_at m' n) = asks (inbound_at m n)
           \<union> {f. \<exists>s w. (s, n, w) \<in> set es \<and> \<not> im_is_reexport w \<and> f \<in> direct_asks ip s w})
    \<and> set rx' = set rx \<union> {e. k \<le> e \<and> e < k + length es \<and> im_is_reexport (snd (snd (es ! (e - k))))}"
  using assms
proof (induction es arbitrary: k m rx)
  case (Cons edge es)
  obtain s t w where edge: "edge = (s, t, w)" by (metis surj_pair)
  have split_up: "[k..<k + length (edge # es)] = k # [Suc k..<Suc k + length es]"
    using upt_conv_Cons [of k "k + length (edge # es)"] by simp
  have range: "{e. k \<le> e \<and> e < k + length (edge # es) \<and> im_is_reexport (snd (snd ((edge # es) ! (e - k))))}
      = (if im_is_reexport w then {k} else {})
        \<union> {e. Suc k \<le> e \<and> e < Suc k + length es \<and> im_is_reexport (snd (snd (es ! (e - Suc k))))}"
  proof (intro set_eqI)
    show "e \<in> {e. k \<le> e \<and> e < k + length (edge # es) \<and> im_is_reexport (snd (snd ((edge # es) ! (e - k))))}
        \<longleftrightarrow> e \<in> (if im_is_reexport w then {k} else {})
          \<union> {e. Suc k \<le> e \<and> e < Suc k + length es \<and> im_is_reexport (snd (snd (es ! (e - Suc k))))}" for e
      by (cases "e = k") (auto simp: edge nth_Cons' Suc_diff_Suc not_less_eq_eq)
  qed
  show ?case
  proof (cases "im_is_reexport w")
    case True
    then have step: "direct_step ip (k, edge) (m, rx) = (m, rx @ [k])" by (simp add: direct_step_def edge)
    have "fold (direct_step ip) (zip [Suc k..<Suc k + length es] es) (m, rx @ [k]) = (m', rx')"
      using Cons.prems unfolding split_up zip_Cons_Cons fold_simps step .
    from Cons.IH [OF this] show ?thesis unfolding range using True by (auto simp: edge)
  next
    case False
    then have step: "direct_step ip (k, edge) (m, rx) = (m(t \<mapsto> add_direct ip s w (inbound_at m t)), rx)"
      by (simp add: direct_step_def edge)
    have "fold (direct_step ip) (zip [Suc k..<Suc k + length es] es) (m(t \<mapsto> add_direct ip s w (inbound_at m t)), rx) = (m', rx')"
      using Cons.prems unfolding split_up zip_Cons_Cons fold_simps step .
    note ih = Cons.IH [OF this]
    have "asks (inbound_at m' n) = asks (inbound_at m n)
         \<union> {f. \<exists>s w. (s, n, w) \<in> set (edge # es) \<and> \<not> im_is_reexport w \<and> f \<in> direct_asks ip s w}" for n
    proof -
      have "asks (inbound_at m' n) = asks (inbound_at (m(t \<mapsto> add_direct ip s w (inbound_at m t))) n)
         \<union> {f. \<exists>s w. (s, n, w) \<in> set es \<and> \<not> im_is_reexport w \<and> f \<in> direct_asks ip s w}" using ih by blast
      also have "asks (inbound_at (m(t \<mapsto> add_direct ip s w (inbound_at m t))) n)
          = asks (inbound_at m n) \<union> (if n = t then direct_asks ip s w else {})"
        by (simp add: asks_add_direct)
      finally show ?thesis using False by (auto simp: edge)
    qed
    then show ?thesis unfolding range using ih False by auto
  qed
qed auto

section \<open>Forwarding is monotone and stays within the imported names\<close>

definition demand_le :: "demand \<Rightarrow> demand \<Rightarrow> bool" where
  "demand_le d e \<longleftrightarrow> dm_names d \<subseteq> dm_names e \<and> (dm_all d \<longrightarrow> dm_all e)"

lemma demand_le_contains: "demand_le d e \<Longrightarrow> demand_contains d s \<Longrightarrow> demand_contains e s"
  by (auto simp: demand_le_def demand_contains_def)

lemma forward_symbol_mono:
  assumes "demand_le b b'" and "demand_le d d'"
  shows "demand_le (forward_symbol b w entry d) (forward_symbol b' w entry d')"
proof -
  obtain i s where e: "entry = (i, s)" by force
  show ?thesis
    using assms demand_le_contains [OF assms(1)]
    by (auto simp: e forward_symbol_def Let_def demand_le_def absorb_demand_def)
qed

lemma forward_side_mono: "demand_le b b' \<Longrightarrow> demand_le (forward_side b w) (forward_side b' w)"
proof -
  assume b: "demand_le b b'"
  have "demand_le d d' \<Longrightarrow> demand_le (fold (forward_symbol b w) es d) (fold (forward_symbol b' w) es d')" for es d d'
    by (induction es arbitrary: d d') (auto intro: forward_symbol_mono [OF b])
  moreover have "demand_le no_demand no_demand" by (simp add: demand_le_def)
  ultimately show ?thesis by (simp add: forward_side_def)
qed

lemma forward_from_mono:
  assumes "asks i \<subseteq> asks j"
  shows "asks (forward_from ip b i w) \<subseteq> asks (forward_from ip b j w)"
proof -
  have le: "demand_le (ib_prod i) (ib_prod j)" "demand_le (ib_test i) (ib_test j)"
      "demand_le ((ib_prod i)\<lparr>dm_all := True\<rparr>) ((ib_prod j)\<lparr>dm_all := True\<rparr>)"
    using assms unfolding asks_le by (auto simp: demand_le_def)
  show ?thesis
    using assms le [THEN forward_side_mono, where w = w] unfolding asks_le
    by (simp add: forward_from_def forwarded_def Let_def demand_le_def)
qed

definition asks_over :: "string set \<Rightarrow> ask set" where
  "asks_over N = ProdName ` N \<union> TestName ` N \<union> {ProdAll, TestAll, TypeStar, Opaque, FromConfig}"

lemma asks_over_iff: "asks i \<subseteq> asks_over N \<longleftrightarrow> dm_names (ib_prod i) \<subseteq> N \<and> dm_names (ib_test i) \<subseteq> N"
  unfolding subset_iff [of "asks i"] all_ask asks_mem by (auto simp: asks_over_def)

lemma forward_side_names: "dm_names (forward_side b w) \<subseteq> set (im_imported_symbols w) \<union> dm_names b"
proof -
  have "dm_names (fold (forward_symbol b w) es d) \<subseteq> dm_names d \<union> snd ` set es \<union> dm_names b" for es d
  proof (induction es arbitrary: d)
    case (Cons e es)
    obtain i s where e: "e = (i, s)" by force
    have "dm_names (forward_symbol b w e d) \<subseteq> dm_names d \<union> {s} \<union> dm_names b"
      by (auto simp: e forward_symbol_def Let_def absorb_demand_def split: option.splits if_splits)
    then show ?case using Cons.IH [of "forward_symbol b w e d"] by (auto simp: e)
  qed simp
  from this [of "enumerate 0 (im_imported_symbols w)" no_demand] show ?thesis
    by (simp add: forward_side_def no_demand_def flip: set_map)
qed

lemma forward_from_names:
  assumes "asks i \<subseteq> asks_over N" and "set (im_imported_symbols w) \<subseteq> N"
  shows "asks (forward_from ip b i w) \<subseteq> asks_over N"
  using assms forward_side_names [of "ib_test i" w] forward_side_names [of "ib_prod i" w]
    forward_side_names [of "(ib_prod i)\<lparr>dm_all := True\<rparr>" w]
  unfolding asks_over_iff by (auto simp: forward_from_def forwarded_def Let_def)

section \<open>The fixed point\<close>

text \<open>Demand that satisfies every edge: direct imports have what they ask for, and what reaches a
  barrel is passed on along its re-exports.\<close>

definition satisfies :: "codebase_graph \<Rightarrow> importers \<Rightarrow> (node_index \<Rightarrow> inbound) \<Rightarrow> bool" where
  "satisfies cg ip I \<longleftrightarrow> (\<forall>(s, t, w) \<in> set (cg_edges cg).
     (\<not> im_is_reexport w \<longrightarrow> direct_asks ip s w \<subseteq> asks (I t))
     \<and> (im_is_reexport w \<and> s \<noteq> t \<longrightarrow> asks (forward_from ip s (I s) w) \<subseteq> asks (I t)))"

definition below_all :: "codebase_graph \<Rightarrow> importers \<Rightarrow> (node_index \<Rightarrow> inbound) \<Rightarrow> bool" where
  "below_all cg ip I \<longleftrightarrow> (\<forall>J. satisfies cg ip J \<longrightarrow> (\<forall>n. asks (I n) \<subseteq> asks (J n)))"

definition forwarded_except :: "codebase_graph \<Rightarrow> importers \<Rightarrow> (node_index \<Rightarrow> inbound) \<Rightarrow> edge_index set \<Rightarrow> bool" where
  "forwarded_except cg ip I pending \<longleftrightarrow> (\<forall>e s t w. e < length (cg_edges cg) \<and> cg_edges cg ! e = (s, t, w) \<and> im_is_reexport w
     \<and> s \<noteq> t \<and> e \<notin> pending \<longrightarrow> asks (forward_from ip s (I s) w) \<subseteq> asks (I t))"

definition reexport_ids :: "codebase_graph \<Rightarrow> edge_index set" where
  "reexport_ids cg = {e. e < length (cg_edges cg) \<and> im_is_reexport (snd (snd (cg_edges cg ! e)))}"

definition imported_names :: "codebase_graph \<Rightarrow> string set" where
  "imported_names cg = (\<Union>(s, t, w) \<in> set (cg_edges cg). set (im_imported_symbols w))"

definition ask_space :: "codebase_graph \<Rightarrow> (node_index \<times> ask) set" where
  "ask_space cg = edge_ends cg \<times> asks_over (imported_names cg)"

lemma ask_space_finite [simp]: "finite (ask_space cg)"
proof -
  have "finite (imported_names cg)" by (auto simp: imported_names_def)
  then show ?thesis by (simp add: ask_space_def asks_over_def)
qed

definition ask_facts :: "(node_index \<rightharpoonup> inbound) \<Rightarrow> (node_index \<times> ask) set" where
  "ask_facts m = {(n, f). f \<in> asks (inbound_at m n)}"

lemma outgoing_reexports_mem:
  assumes "petgraph_ok cg od"
  shows "set (outgoing_reexports cg od n) = {e \<in> reexport_ids cg. fst (cg_edges cg ! e) = n}"
proof (intro set_eqI iffI)
  fix e
  assume "e \<in> set (outgoing_reexports cg od n)"
  then obtain s t w where "(e, s, t, w) \<in> set (edges_directed cg od Outgoing n)" "im_is_reexport w"
    by (auto simp: outgoing_reexports_def)
  then have "e < length (cg_edges cg)" "cg_edges cg ! e = (n, t, w)" "im_is_reexport w"
    unfolding edges_directed_mem [OF assms] by simp_all
  then show "e \<in> {e \<in> reexport_ids cg. fst (cg_edges cg ! e) = n}" by (simp add: reexport_ids_def)
next
  fix e
  assume e: "e \<in> {e \<in> reexport_ids cg. fst (cg_edges cg ! e) = n}"
  obtain s t w where edge: "cg_edges cg ! e = (s, t, w)" by (metis surj_pair)
  then have "e < length (cg_edges cg)" "s = n" "im_is_reexport w" using e by (simp_all add: reexport_ids_def)
  then have "(e, n, t, w) \<in> set (edges_directed cg od Outgoing n)" "im_is_reexport w"
    using edge unfolding edges_directed_mem [OF assms] by simp_all
  then show "e \<in> set (outgoing_reexports cg od n)" by (force simp: outgoing_reexports_def)
qed

lemma forward_loop_fixpoint:
  assumes od: "petgraph_ok cg od"
    and "set pending \<subseteq> reexport_ids cg" and "forwarded_except cg ip (inbound_at m) (set pending)"
    and "below_all cg ip (inbound_at m)" and "\<forall>n. asks (inbound_at m n) \<subseteq> asks_over (imported_names cg)"
  shows "\<exists>m'. forward_loop cg od ip m pending = Some m' \<and> forwarded_except cg ip (inbound_at m') {}
    \<and> below_all cg ip (inbound_at m') \<and> (\<forall>n. asks (inbound_at m n) \<subseteq> asks (inbound_at m' n))"
  using assms(2-5)
proof (induction "(m, pending)" arbitrary: m pending
    rule: wf_induct_rule [OF wf_measures [of "[\<lambda>(m, pending). card (ask_space cg - ask_facts m), \<lambda>(m, pending). length pending]"]])
  case less: (1 m pending)
  show ?case
  proof (cases pending)
    case Nil
    then show ?thesis using less.prems by (subst forward_loop.simps) auto
  next
    case (Cons e rest)
    obtain s t w where edge: "cg_edges cg ! e = (s, t, w)" by (metis surj_pair)
    have e: "e < length (cg_edges cg)" "im_is_reexport w"
      using less.prems(1) Cons edge by (auto simp: reexport_ids_def)
    then have ref: "edge_ref cg e = Some (e, s, t, w)" by (simp add: edge_ref_def edge)
    have mem: "(s, t, w) \<in> set (cg_edges cg)" using e(1) edge by (metis nth_mem)
    let ?I = "inbound_at m"
    let ?fwd = "forward_from ip s (?I s) w"
    let ?r = "absorb_inbound (?I t) ?fwd"
    show ?thesis
    proof (cases "s = t \<or> asks ?fwd \<subseteq> asks (?I t)")
      case True
      let ?m = "if s = t then m else m(t \<mapsto> fst ?r)"
      have same: "asks (inbound_at ?m n) = asks (?I n)" for n using True by auto
      have "forwarded_except cg ip (inbound_at ?m) (set rest)"
        unfolding forwarded_except_def
      proof (intro allI impI)
        fix e' s' t' w'
        assume a: "e' < length (cg_edges cg) \<and> cg_edges cg ! e' = (s', t', w') \<and> im_is_reexport w' \<and> s' \<noteq> t' \<and> e' \<notin> set rest"
        have "asks (forward_from ip s' (inbound_at ?m s') w') \<subseteq> asks (forward_from ip s' (?I s') w')"
          by (rule forward_from_mono) (simp only: same subset_refl)
        moreover have "asks (forward_from ip s' (?I s') w') \<subseteq> asks (?I t')"
        proof (cases "e' = e")
          case True
          then show ?thesis using a edge \<open>s = t \<or> _\<close> by simp
        next
          case False
          then show ?thesis using a less.prems(2) Cons unfolding forwarded_except_def by (metis set_ConsD)
        qed
        ultimately show "asks (forward_from ip s' (inbound_at ?m s') w') \<subseteq> asks (inbound_at ?m t')"
          unfolding same by (rule subset_trans)
      qed
      moreover have "below_all cg ip (inbound_at ?m)" using less.prems(3) unfolding below_all_def same .
      moreover have "set rest \<subseteq> reexport_ids cg" using less.prems(1) Cons by simp
      moreover have "\<forall>n. asks (inbound_at ?m n) \<subseteq> asks_over (imported_names cg)" using less.prems(4) unfolding same .
      moreover have "ask_facts ?m = ask_facts m" unfolding ask_facts_def same ..
      then have "((?m, rest), (m, pending)) \<in> measures [\<lambda>(m, pending). card (ask_space cg - ask_facts m), \<lambda>(m, pending). length pending]"
        using Cons by simp
      ultimately obtain m' where m': "forward_loop cg od ip ?m rest = Some m'" "forwarded_except cg ip (inbound_at m') {}"
          "below_all cg ip (inbound_at m')" "\<forall>n. asks (inbound_at ?m n) \<subseteq> asks (inbound_at m' n)"
        using less.hyps by blast
      have run: "forward_loop cg od ip m pending = forward_loop cg od ip ?m rest"
        using True by (subst forward_loop.simps) (auto simp: Cons ref absorb_changed Let_def)
      show ?thesis using m'(2-4) unfolding same run m'(1) by blast
    next
      case False
      let ?m = "m(t \<mapsto> fst ?r)"
      let ?pending = "rev (outgoing_reexports cg od t) @ rest"
      have st: "s \<noteq> t" using False by blast
      have at: "asks (inbound_at ?m n) = (if n = t then asks (?I t) \<union> asks ?fwd else asks (?I n))" for n by simp
      have "forwarded_except cg ip (inbound_at ?m) (set ?pending)"
        unfolding forwarded_except_def
      proof (intro allI impI)
        fix e' s' t' w'
        assume a: "e' < length (cg_edges cg) \<and> cg_edges cg ! e' = (s', t', w') \<and> im_is_reexport w' \<and> s' \<noteq> t' \<and> e' \<notin> set ?pending"
        have "e' \<in> set (outgoing_reexports cg od s')"
          unfolding outgoing_reexports_mem [OF od] using a by (simp add: reexport_ids_def)
        then have "s' \<noteq> t" using a by auto
        then have src: "inbound_at ?m s' = ?I s'" by simp
        have grown: "asks (?I t') \<subseteq> asks (inbound_at ?m t')" unfolding at by simp
        show "asks (forward_from ip s' (inbound_at ?m s') w') \<subseteq> asks (inbound_at ?m t')"
        proof (cases "e' = e")
          case True
          then have "s' = s" "t' = t" "w' = w" using a edge by simp_all
          then show ?thesis unfolding src at by simp
        next
          case False
          then have "e' \<notin> set pending" using a Cons by simp
          then have "asks (forward_from ip s' (?I s') w') \<subseteq> asks (?I t')"
            using a less.prems(2) unfolding forwarded_except_def by blast
          then show ?thesis unfolding src using grown by blast
        qed
      qed
      moreover have "below_all cg ip (inbound_at ?m)"
        unfolding below_all_def
      proof (intro allI impI)
        fix J n
        assume J: "satisfies cg ip J"
        then have le: "asks (?I k) \<subseteq> asks (J k)" for k using less.prems(3) unfolding below_all_def by blast
        have "asks (forward_from ip s (J s) w) \<subseteq> asks (J t)" using J mem e(2) st unfolding satisfies_def by fastforce
        then have "asks ?fwd \<subseteq> asks (J t)" using forward_from_mono [OF le] by blast
        then show "asks (inbound_at ?m n) \<subseteq> asks (J n)" unfolding at using le by auto
      qed
      moreover have "set ?pending \<subseteq> reexport_ids cg" using less.prems(1) Cons outgoing_reexports_mem [OF od] by auto
      moreover have syms: "set (im_imported_symbols w) \<subseteq> imported_names cg" using mem by (force simp: imported_names_def)
      have fwd: "asks ?fwd \<subseteq> asks_over (imported_names cg)"
        using forward_from_names [OF _ syms] less.prems(4) by blast
      then have "\<forall>n. asks (inbound_at ?m n) \<subseteq> asks_over (imported_names cg)" unfolding at using less.prems(4) by auto
      moreover have "ask_space cg - ask_facts ?m \<subset> ask_space cg - ask_facts m"
      proof -
        obtain f where f: "f \<in> asks ?fwd" "f \<notin> asks (?I t)" using False by blast
        have "t \<in> edge_ends cg" using mem by (force simp: edge_ends_def)
        then have "(t, f) \<in> ask_space cg - ask_facts m" using f fwd by (auto simp: ask_space_def ask_facts_def)
        moreover have "(t, f) \<in> ask_facts ?m" using f by (simp add: ask_facts_def)
        moreover have "ask_facts m \<subseteq> ask_facts ?m" by (auto simp: ask_facts_def)
        ultimately show ?thesis by blast
      qed
      then have "((?m, ?pending), (m, pending)) \<in> measures [\<lambda>(m, pending). card (ask_space cg - ask_facts m), \<lambda>(m, pending). length pending]"
        by (simp add: psubset_card_mono)
      ultimately obtain m' where m': "forward_loop cg od ip ?m ?pending = Some m'" "forwarded_except cg ip (inbound_at m') {}"
          "below_all cg ip (inbound_at m')" "\<forall>n. asks (inbound_at ?m n) \<subseteq> asks (inbound_at m' n)"
        using less.hyps by blast
      have run: "forward_loop cg od ip m pending = forward_loop cg od ip ?m ?pending"
        using False by (subst forward_loop.simps) (simp add: Cons ref absorb_changed Let_def)
      have "asks (?I n) \<subseteq> asks (inbound_at ?m n)" for n unfolding at by simp
      then have "\<forall>n. asks (?I n) \<subseteq> asks (inbound_at m' n)" using m'(4) by (meson subset_trans)
      then show ?thesis using m'(2,3) unfolding run m'(1) by blast
    qed
  qed
qed

section \<open>Property\<close>

lemma inbound_of_fixpoint:
  assumes "petgraph_ok cg od"
  shows "\<exists>m. inbound_of cg od ip = Some m \<and> satisfies cg ip (inbound_at m) \<and> below_all cg ip (inbound_at m)"
proof -
  obtain m rx where first: "fold (direct_step ip) (zip [0..<0 + length (cg_edges cg)] (cg_edges cg)) (Map.empty, []) = (m, rx)"
    by force
  note loop = direct_loop [OF first]
  have m: "asks (inbound_at m n) = {f. \<exists>s w. (s, n, w) \<in> set (cg_edges cg) \<and> \<not> im_is_reexport w \<and> f \<in> direct_asks ip s w}" for n
    using loop by (simp add: inbound_at_def)
  have rx: "set (rev rx) = reexport_ids cg" using loop by (simp add: reexport_ids_def)
  have "forwarded_except cg ip (inbound_at m) (set (rev rx))"
    unfolding rx by (auto simp: forwarded_except_def reexport_ids_def)
  moreover have "below_all cg ip (inbound_at m)"
    unfolding below_all_def m satisfies_def by fastforce
  moreover have "\<forall>n. asks (inbound_at m n) \<subseteq> asks_over (imported_names cg)"
  proof (intro allI subsetI)
    fix n f
    assume "f \<in> asks (inbound_at m n)"
    then obtain s w where w: "(s, n, w) \<in> set (cg_edges cg)" "f \<in> direct_asks ip s w" unfolding m by blast
    have "set (im_imported_symbols w) \<subseteq> imported_names cg" using w(1) by (force simp: imported_names_def)
    then have "direct_asks ip s w \<subseteq> asks_over (imported_names cg)"
      unfolding direct_asks_def asks_over_iff
      by (auto simp: add_direct_def fold_ask_symbol Let_def absorb_demand_def no_inbound_def no_demand_def)
    then show "f \<in> asks_over (imported_names cg)" using w(2) by blast
  qed
  ultimately obtain m' where m': "forward_loop cg od ip m (rev rx) = Some m'" "forwarded_except cg ip (inbound_at m') {}"
      "below_all cg ip (inbound_at m')" "\<forall>n. asks (inbound_at m n) \<subseteq> asks (inbound_at m' n)"
    using forward_loop_fixpoint [OF assms, of "rev rx" ip m] rx by blast
  have "satisfies cg ip (inbound_at m')"
    unfolding satisfies_def
  proof (clarify, intro conjI impI)
    fix s t w
    assume mem: "(s, t, w) \<in> set (cg_edges cg)"
    show "direct_asks ip s w \<subseteq> asks (inbound_at m' t)" if "\<not> im_is_reexport w"
      using mem that m m'(4) by blast
    obtain i where i: "i < length (cg_edges cg)" "cg_edges cg ! i = (s, t, w)" using mem by (auto simp: in_set_conv_nth)
    show "asks (forward_from ip s (inbound_at m' s) w) \<subseteq> asks (inbound_at m' t)" if "im_is_reexport w \<and> s \<noteq> t"
      using m'(2) [unfolded forwarded_except_def, rule_format, of i s t w] i that by simp
  qed
  moreover have "inbound_of cg od ip = Some m'"
    using first m'(1) by (simp add: inbound_of_def enumerate_eq_zip)
  ultimately show ?thesis using m'(3) by blast
qed

text \<open>C30: \<open>inbound\<close> ends, whatever the re-export cycles, and computes the least demand that every edge
  requires: direct imports get what they ask for, and a re-export forwards exactly what its barrel is asked
  for (everything, from entry modules and orphans), in any order of the work list.\<close>

theorem inbound_is_least:
  assumes "petgraph_ok cg od"
  shows "\<exists>m. inbound_of cg od ip = Some m \<and> satisfies cg ip (inbound_at m) \<and> below_all cg ip (inbound_at m)"
  using assms by (rule inbound_of_fixpoint)


text \<open>A sample: a module forwards one name of another.\<close>

definition barrel_graph :: codebase_graph where
  "barrel_graph = (sample_graph [''a'', ''b''] [])\<lparr>cg_edges :=
     [(0, 1, sample_import\<lparr>im_imported_symbols := [''f''], im_is_reexport := True\<rparr>)]\<rparr>"

definition barrel_importers :: importers where
  "barrel_importers = \<lparr>ip_roles = [0 \<mapsto> ProdRoot, 1 \<mapsto> Module], ip_reach = \<lparr>re_prod = {0, 1}, re_orphans = {}\<rparr>, ip_config_files = {}\<rparr>"

theorem inbound_is_least_witness:
  "\<exists>m. inbound_of barrel_graph (ascending_order barrel_graph) barrel_importers = Some m
    \<and> satisfies barrel_graph barrel_importers (inbound_at m) \<and> demand_contains (ib_prod (inbound_at m 1)) ''f''"
proof -
  obtain m where m: "inbound_of barrel_graph (ascending_order barrel_graph) barrel_importers = Some m"
      "satisfies barrel_graph barrel_importers (inbound_at m)"
    using inbound_is_least [OF ascending_order_ok, of barrel_graph barrel_importers] by blast
  have edge: "(0, 1, sample_import\<lparr>im_imported_symbols := [''f''], im_is_reexport := True\<rparr>) \<in> set (cg_edges barrel_graph)"
    by (simp add: barrel_graph_def)
  have "ProdName ''f'' \<in> asks (forward_from barrel_importers 0 (inbound_at m 0)
      (sample_import\<lparr>im_imported_symbols := [''f''], im_is_reexport := True\<rparr>))"
    by (simp add: forward_from_def forwarded_def forward_side_def forward_symbol_def forwards_everything_def
        barrel_importers_def sample_import_def demand_contains_def enumerate_eq_zip)
  moreover have "asks (forward_from barrel_importers 0 (inbound_at m 0)
      (sample_import\<lparr>im_imported_symbols := [''f''], im_is_reexport := True\<rparr>)) \<subseteq> asks (inbound_at m 1)"
    using bspec [OF m(2) [unfolded satisfies_def] edge] by simp
  ultimately have "ProdName ''f'' \<in> asks (inbound_at m 1)" by blast
  then show ?thesis using m by (auto simp: demand_contains_def)
qed

end
