(* ===== verification/DeadModules.thy ===== *)
theory DeadModules
  imports Demand Rust_Std
begin

text \<open>
  The findings of the dead-code pillar about module-level symbols: confidence
  (\<open>noze/dead_code/confidence.rs\<close>), the cheap reasons a symbol is live (\<open>reachability.rs\<close>), classes a
  framework instantiates (\<open>class_entrypoints.rs\<close>), registrations that a type manifest exposes
  (\<open>manifest_callees.rs\<close>), and \<open>ModuleScan\<close> (\<open>modules.rs\<close>) that puts them together over the roles,
  the walk and the demand of \<open>Reach\<close> and \<open>Demand\<close>. The order in which a \<open>HashMap\<close> yields its keys is
  the parameter \<open>ky\<close>.
\<close>

section \<open>Configuration\<close>

record dead_code_config =
  kc_registration_decorators :: "string list"
  kc_entrypoint_names :: "string list"
  kc_entrypoint_bases :: "string list"
  kc_entry_globs :: "string list"
  kc_test_sources :: "string list"
  kc_test_support :: "string list"
  kc_entry_modules :: "string list"
  kc_orphan_modules :: bool
  kc_unimported_dir_share :: nat
  kc_unused_imports :: bool
  kc_unused_methods :: bool
  kc_unused_properties :: bool
  kc_unused_variables :: bool

definition matches_name :: "string \<Rightarrow> string \<Rightarrow> bool" where
  "matches_name pattern name \<longleftrightarrow> (case str_strip_suffix pattern ''*'' of
     Some p \<Rightarrow> str_starts_with name p
   | None \<Rightarrow> pattern = name)"

definition matches_any :: "string list \<Rightarrow> string \<Rightarrow> bool" where
  "matches_any patterns name \<longleftrightarrow> list_ex (\<lambda>pattern. matches_name pattern name) patterns"

definition rule_set_test_importers :: "rule_set \<Rightarrow> path \<Rightarrow> test_importers" where
  "rule_set_test_importers rules path = (if rs_test_support_globs rules path then Count else ReportAsTestOnly)"

definition is_entrypoint_name :: "rule_set \<Rightarrow> string \<Rightarrow> bool" where
  "is_entrypoint_name rules name = matches_any (rs_entrypoint_names rules) name"

definition is_method_entrypoint_name :: "rule_set \<Rightarrow> string \<Rightarrow> bool" where
  "is_method_entrypoint_name rules name \<longleftrightarrow>
     is_entrypoint_name rules name \<or> matches_any (rs_method_entrypoint_names rules) name"

definition is_config_file :: "rule_sets \<Rightarrow> module_node \<Rightarrow> bool" where
  "is_config_file rule_sets node \<longleftrightarrow> (case rule_sets (mn_language node) of
     None \<Rightarrow> False | Some rules \<Rightarrow> rs_config_globs rules (mn_file_path node))"

section \<open>Confidence\<close>

datatype reached = FromRoot | Orphan | TestsOnly

datatype dead_code_reason = TestOnly | UnreachableModule

fun dead_code_reason_text :: "dead_code_reason \<Rightarrow> string" where
  "dead_code_reason_text TestOnly = ''test_only''"
| "dead_code_reason_text UnreachableModule = ''unreachable_module''"

record evidence =
  ev_inbound :: inbound
  ev_reached :: reached
  ev_is_default_export :: bool
  ev_test_only :: bool

record grade =
  gr_confidence :: confidence
  gr_reason :: "dead_code_reason option"

definition reason_text :: "grade \<Rightarrow> string" where
  "reason_text g = (case gr_reason g of None \<Rightarrow> [] | Some r \<Rightarrow> dead_code_reason_text r)"

definition grade_medium :: "dead_code_reason option \<Rightarrow> grade" where
  "grade_medium reason = \<lparr>gr_confidence = Medium, gr_reason = reason\<rparr>"

definition grade_of :: "evidence \<Rightarrow> grade" where
  "grade_of ev =
     (if ev_reached ev = Orphan then grade_medium (Some UnreachableModule)
      else if ev_test_only ev \<or> ev_reached ev = TestsOnly then grade_medium (Some TestOnly)
      else let ib = ev_inbound ev
           in if ev_is_default_export ev \<or> ib_opaque ib \<or> ib_type_star ib \<or> ib_from_config ib
              then grade_medium None
              else \<lparr>gr_confidence = High, gr_reason = None\<rparr>)"

section \<open>Symbols in use\<close>

definition is_asked :: "parsed_file \<Rightarrow> string \<Rightarrow> demand \<Rightarrow> bool" where
  "is_asked fl symbol d \<longleftrightarrow>
     (let is_default = sf_default_export (wk_symbols (pf_walked fl)) = Some symbol
      in demand_contains d symbol \<or> (is_default \<and> demand_contains d ''default''))"

definition skip_symbol :: "parsed_file \<Rightarrow> dead_code_profile \<Rightarrow> string \<Rightarrow> demand \<Rightarrow> bool" where
  "skip_symbol fl profile symbol used =
     (if dp_is_conventionally_private profile symbol then True
      else if (case sf_dunder_all (wk_symbols (pf_walked fl)) of None \<Rightarrow> False | Some names \<Rightarrow> symbol \<in> set names) then True
      else if (case us_name_counts (wk_usage (pf_walked fl)) symbol of None \<Rightarrow> 0 | Some n \<Rightarrow> n) > 1 then True
      else is_asked fl symbol used)"

section \<open>Class entrypoints\<close>

definition last_segment :: "string \<Rightarrow> string" where
  "last_segment p = (case str_rsplit_once (CHR ''.'') p of None \<Rightarrow> p | Some (_, after) \<Rightarrow> after)"

type_synonym key_order = "(string \<rightharpoonup> string list) \<Rightarrow> string list"

definition key_order_ok :: "key_order \<Rightarrow> bool" where
  "key_order_ok ky \<longleftrightarrow> (\<forall>m. finite (dom m) \<longrightarrow> distinct (ky m) \<and> set (ky m) = dom m)"

definition key_entries :: "key_order \<Rightarrow> (string \<rightharpoonup> string list) \<Rightarrow> (string \<times> string list) list" where
  "key_entries ky m = map (\<lambda>k. (k, the (m k))) (ky m)"

definition is_dynamic_base :: "string \<Rightarrow> string set \<Rightarrow> string set \<Rightarrow> bool" where
  "is_dynamic_base base live root_bases \<longleftrightarrow>
     (let short = last_segment base in short \<in> live \<or> short \<in> root_bases \<or> base \<in> root_bases)"

definition add_dynamic_class :: "string set \<Rightarrow> string \<times> string list \<Rightarrow> string set \<times> bool \<Rightarrow> string set \<times> bool" where
  "add_dynamic_class root_bases entry st = (case (entry, st) of ((class_name, bases), (live, added)) \<Rightarrow>
     if class_name \<in> live then (live, added)
     else if list_ex (\<lambda>base. is_dynamic_base base live root_bases) bases then (insert class_name live, True)
     else (live, added))"

definition add_dynamic_classes :: "(string \<times> string list) list \<Rightarrow> string set \<Rightarrow> string set \<Rightarrow> string set \<times> bool" where
  "add_dynamic_classes class_bases root_bases live = fold (add_dynamic_class root_bases) class_bases (live, False)"

lemma add_dynamic_class_grows:
  "add_dynamic_class roots entry (live, added) = (live', added') \<Longrightarrow>
     live \<subseteq> live' \<and> live' \<subseteq> insert (fst entry) live \<and> (added' \<longleftrightarrow> added \<or> live \<noteq> live')"
  by (auto simp: add_dynamic_class_def split: prod.splits if_splits)

lemma fold_add_dynamic:
  "fold (add_dynamic_class roots) es (live, added) = (live', added') \<Longrightarrow>
     live \<subseteq> live' \<and> live' \<subseteq> live \<union> fst ` set es \<and> (added' \<longleftrightarrow> added \<or> live \<noteq> live')"
proof (induction es arbitrary: live added)
  case (Cons e es)
  obtain l a where s: "add_dynamic_class roots e (live, added) = (l, a)" by force
  then have "fold (add_dynamic_class roots) es (l, a) = (live', added')" using Cons.prems by simp
  from Cons.IH [OF this] add_dynamic_class_grows [OF s] show ?case by auto
qed simp

lemmas add_dynamic_grows = fold_add_dynamic [of _ _ _ False, folded add_dynamic_classes_def, simplified]

function dynamic_loop :: "(string \<times> string list) list \<Rightarrow> string set \<Rightarrow> string set \<Rightarrow> string set" where
  "dynamic_loop class_bases root_bases live =
     (let r = add_dynamic_classes class_bases root_bases live
      in if snd r then dynamic_loop class_bases root_bases (fst r) else fst r)"
  by pat_completeness auto
termination
proof (relation "measure (\<lambda>(es, roots, live). card (fst ` set es - live))", goal_cases)
  case 1
  show ?case by simp
next
  case (2 es roots live r)
  obtain live' where s: "add_dynamic_classes es roots live = (live', True)"
    using 2 by (cases "add_dynamic_classes es roots live") simp
  from add_dynamic_grows [OF s] have "live \<subset> live'" "live' \<subseteq> live \<union> fst ` set es" by auto
  then have "fst ` set es - live' \<subset> fst ` set es - live" by auto
  then show ?case using s 2 by (simp add: psubset_card_mono)
qed

declare dynamic_loop.simps [simp del]

definition dynamic_classes :: "(string \<times> string list) list \<Rightarrow> string set \<Rightarrow> string set" where
  "dynamic_classes class_bases root_bases = dynamic_loop class_bases root_bases {}"

definition merged_bases :: "string list \<Rightarrow> string list \<Rightarrow> string set" where
  "merged_bases configured defaults = set defaults \<union> set configured"

definition class_entrypoints_of :: "key_order \<Rightarrow> (language \<Rightarrow> dead_code_profile) \<Rightarrow> string list
    \<Rightarrow> parsed_file \<Rightarrow> (path \<rightharpoonup> string set) \<Rightarrow> (path \<rightharpoonup> string set)" where
  "class_entrypoints_of ky prof root_bases fl classes_by_file =
     (let defaults = dp_defaults (prof (pf_language fl))
      in if root_bases = [] \<and> dd_entrypoint_bases defaults = [] then classes_by_file
         else let live_bases = merged_bases root_bases (dd_entrypoint_bases defaults);
                  class_bases = fold (\<lambda>c m. m(cu_name c \<mapsto> cu_bases c)) (wk_classes (pf_walked fl)) Map.empty;
                  live = dynamic_classes (key_entries ky class_bases) live_bases
              in if live \<noteq> {} then classes_by_file(pf_path fl \<mapsto> live) else classes_by_file)"

definition class_entrypoints :: "key_order \<Rightarrow> (language \<Rightarrow> dead_code_profile) \<Rightarrow> parsed_file list
    \<Rightarrow> string list \<Rightarrow> (path \<rightharpoonup> string set)" where
  "class_entrypoints ky prof fls root_bases = fold (class_entrypoints_of ky prof root_bases) fls Map.empty"

definition is_class_entrypoint :: "(path \<rightharpoonup> string set) \<Rightarrow> path \<Rightarrow> string \<Rightarrow> symbol_kind \<Rightarrow> bool" where
  "is_class_entrypoint classes_by_file p symbol kind \<longleftrightarrow> kind = KClass
     \<and> (case classes_by_file p of None \<Rightarrow> False | Some classes \<Rightarrow> symbol \<in> classes)"

section \<open>Manifest callees\<close>

definition MIN_REGISTRATIONS :: nat where "MIN_REGISTRATIONS = 5"

text \<open>The files of exposed nodes, in ascending order; the counts do not depend on it.\<close>

definition exposed_files :: "codebase_graph \<Rightarrow> parsed_file list \<Rightarrow> (node_index \<rightharpoonup> inbound) \<Rightarrow> parsed_file list" where
  "exposed_files cg fls ib =
     List.map_filter (\<lambda>idx. case ib idx of
         None \<Rightarrow> None
       | Some i \<Rightarrow> if \<not> ib_type_star i then None
           else case mn_source_index (cg_nodes cg ! idx) of
               None \<Rightarrow> None
             | Some index \<Rightarrow> if index < length fls then Some (fls ! index) else None)
       [0..<length (cg_nodes cg)]"

definition variable_callees :: "key_order \<Rightarrow> parsed_file \<Rightarrow> string list" where
  "variable_callees ky fl =
     (let symbols = wk_symbols (pf_walked fl)
      in concat (map snd (filter (\<lambda>(name, _). sf_declared_kinds symbols name = Some KVariable)
           (key_entries ky (sf_decorators symbols)))))"

definition manifest_callees :: "key_order \<Rightarrow> codebase_graph \<Rightarrow> parsed_file list \<Rightarrow> (node_index \<rightharpoonup> inbound) \<Rightarrow> string set" where
  "manifest_callees ky cg fls ib =
     (let counts = fold (\<lambda>fl counts. fold (\<lambda>callee counts. ir_bump counts (last_segment callee)) (variable_callees ky fl) counts)
            (exposed_files cg fls ib) Map.empty
      in {name. case counts name of None \<Rightarrow> False | Some n \<Rightarrow> MIN_REGISTRATIONS \<le> n})"

definition manifest_registers :: "string set \<Rightarrow> string list option \<Rightarrow> bool" where
  "manifest_registers names callees \<longleftrightarrow> (case callees of
     None \<Rightarrow> False | Some cs \<Rightarrow> list_ex (\<lambda>callee. last_segment callee \<in> names) cs)"

section \<open>The scan\<close>

record module_scan =
  ms_cg :: codebase_graph
  ms_files :: "parsed_file list"
  ms_config :: dead_code_config
  ms_rule_sets :: rule_sets
  ms_class_entrypoints :: "path \<rightharpoonup> string set"
  ms_manifest_callees :: "string set"
  ms_roles :: "node_index \<rightharpoonup> role"
  ms_reach :: reach
  ms_inbound :: "node_index \<rightharpoonup> inbound"

definition scan_roles :: "(language \<Rightarrow> dead_code_profile) \<Rightarrow> codebase_graph \<Rightarrow> edge_order \<Rightarrow> dead_code_config \<Rightarrow> rule_sets
    \<Rightarrow> (node_index \<rightharpoonup> role)" where
  "scan_roles prof cg od config rule_sets =
     promote cg od (roles_of prof cg rule_sets (set (kc_entry_modules config))) (kc_unimported_dir_share config)"

definition config_file_nodes :: "codebase_graph \<Rightarrow> rule_sets \<Rightarrow> (node_index \<rightharpoonup> role) \<Rightarrow> node_index set" where
  "config_file_nodes cg rule_sets roles =
     set (filter (\<lambda>idx. roles idx \<noteq> None \<and> is_config_file rule_sets (cg_nodes cg ! idx)) [0..<length (cg_nodes cg)])"

definition scan_importers :: "(language \<Rightarrow> dead_code_profile) \<Rightarrow> codebase_graph \<Rightarrow> edge_order \<Rightarrow> dead_code_config \<Rightarrow> rule_sets
    \<Rightarrow> importers" where
  "scan_importers prof cg od config rule_sets =
     (let roles = scan_roles prof cg od config rule_sets
      in \<lparr>ip_roles = roles, ip_reach = reach_walk cg od roles, ip_config_files = config_file_nodes cg rule_sets roles\<rparr>)"

text \<open>\<open>ModuleScan::new\<close>; \<open>None\<close> stands for a demand pass that never ends.\<close>

definition module_scan_new :: "key_order \<Rightarrow> (language \<Rightarrow> dead_code_profile) \<Rightarrow> codebase_graph \<Rightarrow> edge_order
    \<Rightarrow> parsed_file list \<Rightarrow> dead_code_config \<Rightarrow> rule_sets \<Rightarrow> module_scan option" where
  "module_scan_new ky prof cg od fls config rule_sets =
     (let ip = scan_importers prof cg od config rule_sets
      in case inbound_of cg od ip of
           None \<Rightarrow> None
         | Some ib \<Rightarrow> Some \<lparr>ms_cg = cg, ms_files = fls, ms_config = config, ms_rule_sets = rule_sets,
             ms_class_entrypoints = class_entrypoints ky prof fls (kc_entrypoint_bases config),
             ms_manifest_callees = manifest_callees ky cg fls ib,
             ms_roles = ip_roles ip, ms_reach = ip_reach ip, ms_inbound = ib\<rparr>)"

definition scan_reached :: "module_scan \<Rightarrow> node_index \<Rightarrow> test_importers \<Rightarrow> reached" where
  "scan_reached scan idx ti =
     (if idx \<in> re_orphans (ms_reach scan) then Orphan
      else if idx \<notin> re_prod (ms_reach scan) \<and> ti = ReportAsTestOnly then TestsOnly
      else FromRoot)"

text \<open>One module's facts while its symbols are graded, the struct \<open>Module\<close>.\<close>

record module_facts =
  mo_node :: module_node
  mo_file :: parsed_file
  mo_rules :: rule_set
  mo_profile :: dead_code_profile
  mo_inbound :: inbound
  mo_counted :: demand
  mo_reached :: reached

definition declared_kind :: "symbol_facts \<Rightarrow> string \<Rightarrow> symbol_kind" where
  "declared_kind symbols symbol = (case sf_declared_kinds symbols symbol of None \<Rightarrow> KFunction | Some k \<Rightarrow> k)"

definition symbol_is_live :: "module_scan \<Rightarrow> module_facts \<Rightarrow> string \<Rightarrow> bool" where
  "symbol_is_live scan mo symbol \<longleftrightarrow>
     (let symbols = wk_symbols (pf_walked (mo_file mo));
          decorator = dp_classify_decorator (mo_profile mo) (sf_decorators symbols symbol) (rs_entrypoints (mo_rules mo))
      in decorator = Registration
         \<or> ib_type_star (mo_inbound mo) \<and> manifest_registers (ms_manifest_callees scan) (sf_decorators symbols symbol)
         \<or> is_entrypoint_name (mo_rules mo) symbol
         \<or> is_class_entrypoint (ms_class_entrypoints scan) (mn_file_path (mo_node mo)) symbol (declared_kind symbols symbol)
         \<or> skip_symbol (mo_file mo) (mo_profile mo) symbol (mo_counted mo))"

definition symbol_evidence :: "module_facts \<Rightarrow> string \<Rightarrow> evidence" where
  "symbol_evidence mo symbol = \<lparr>ev_inbound = mo_inbound mo, ev_reached = mo_reached mo,
     ev_is_default_export = (sf_default_export (wk_symbols (pf_walked (mo_file mo))) = Some symbol),
     ev_test_only = is_asked (mo_file mo) symbol (ib_test (mo_inbound mo))\<rparr>"

definition symbol_finding :: "module_scan \<Rightarrow> module_facts \<Rightarrow> string \<Rightarrow> dead_code_finding option" where
  "symbol_finding scan mo symbol =
     (let symbols = wk_symbols (pf_walked (mo_file mo)); kind = declared_kind symbols symbol
      in if kind = KVariable \<and> \<not> kc_unused_variables (ms_config scan) then None
         else let decorator = dp_classify_decorator (mo_profile mo) (sf_decorators symbols symbol) (rs_entrypoints (mo_rules mo))
              in if symbol_is_live scan mo symbol \<or> decorator = UnknownDecorator then None
                 else let g = grade_of (symbol_evidence mo symbol)
                      in Some \<lparr>dc_action = Advisory, dc_module = mn_module_name (mo_node mo), dc_symbol = symbol,
                           dc_kind = kind, dc_confidence = gr_confidence g, dc_file = mn_file_path (mo_node mo),
                           dc_line = (case sf_declared_lines symbols symbol of None \<Rightarrow> 0 | Some l \<Rightarrow> l),
                           dc_reason = reason_text g\<rparr>)"

text \<open>\<open>HashSet::insert\<close> as a filter: the first occurrence of each name.\<close>

fun first_seen :: "string set \<Rightarrow> string list \<Rightarrow> string list" where
  "first_seen seen [] = []"
| "first_seen seen (s # ss) = (if s \<in> seen then first_seen seen ss else s # first_seen (insert s seen) ss)"

definition whole_module :: "module_node \<Rightarrow> dead_code_finding list \<Rightarrow> dead_code_finding list" where
  "whole_module node findings =
     (let sorted = sort_key (\<lambda>f. (dc_line f = 0, dc_line f)) findings;
          symbol = join_with '', '' (map dc_symbol sorted)
      in case sorted of
           [] \<Rightarrow> []
         | first # _ \<Rightarrow> [first\<lparr>dc_module := mn_module_name node, dc_symbol := symbol, dc_kind := KModule\<rparr>])"

text \<open>The early returns of \<open>findings\<close>: the facts of a module that is reported on, if it is.\<close>

definition module_facts_of :: "(language \<Rightarrow> dead_code_profile) \<Rightarrow> module_scan \<Rightarrow> node_index \<Rightarrow> module_facts option" where
  "module_facts_of prof scan idx =
     (if ms_roles scan idx \<noteq> Some Module then None
      else let node = cg_nodes (ms_cg scan) ! idx
           in case ms_rule_sets scan (mn_language node) of
                None \<Rightarrow> None
              | Some rules \<Rightarrow>
                  let ti = rule_set_test_importers rules (mn_file_path node);
                      reached = scan_reached scan idx ti;
                      silent_orphan = \<not> kc_orphan_modules (ms_config scan) \<or> ti = Count
                  in if reached = Orphan \<and> silent_orphan then None
                     else case mn_source_index node of
                            None \<Rightarrow> None
                          | Some index \<Rightarrow>
                              if \<not> index < length (ms_files scan) then None
                              else let ib = inbound_at (ms_inbound scan) idx; cn = counted ib ti
                                   in if dm_all cn then None
                                      else Some \<lparr>mo_node = node, mo_file = ms_files scan ! index, mo_rules = rules,
                                             mo_profile = prof (mn_language node), mo_inbound = ib, mo_counted = cn,
                                             mo_reached = reached\<rparr>)"

definition symbol_findings :: "module_scan \<Rightarrow> module_facts \<Rightarrow> dead_code_finding list" where
  "symbol_findings scan mo =
     List.map_filter (symbol_finding scan mo) (first_seen {} (sf_declared (wk_symbols (pf_walked (mo_file mo)))))"

definition scan_findings :: "(language \<Rightarrow> dead_code_profile) \<Rightarrow> module_scan \<Rightarrow> node_index \<Rightarrow> dead_code_finding list" where
  "scan_findings prof scan idx = (case module_facts_of prof scan idx of
     None \<Rightarrow> []
   | Some mo \<Rightarrow> (let findings = symbol_findings scan mo
                 in case mo_reached mo of
                      FromRoot \<Rightarrow> findings
                    | Orphan \<Rightarrow> whole_module (mo_node mo) findings
                    | TestsOnly \<Rightarrow> whole_module (mo_node mo) findings))"

section \<open>Class entrypoints: the least closure\<close>

inductive dynamic_class :: "(string \<times> string list) list \<Rightarrow> string set \<Rightarrow> string \<Rightarrow> bool" for es roots where
  from_root: "(c, bases) \<in> set es \<Longrightarrow> b \<in> set bases \<Longrightarrow> b \<in> roots \<or> last_segment b \<in> roots \<Longrightarrow> dynamic_class es roots c"
| from_class: "(c, bases) \<in> set es \<Longrightarrow> b \<in> set bases \<Longrightarrow> dynamic_class es roots (last_segment b) \<Longrightarrow> dynamic_class es roots c"

lemma fold_add_dynamic_sound:
  assumes "set ds \<subseteq> set es" and "\<forall>c \<in> live. dynamic_class es roots c"
  shows "\<forall>c \<in> fst (fold (add_dynamic_class roots) ds (live, added)). dynamic_class es roots c"
  using assms
proof (induction ds arbitrary: live added)
  case (Cons d ds)
  obtain c bases where d: "d = (c, bases)" by force
  have mem: "(c, bases) \<in> set es" using Cons.prems(1) d by simp
  have new: "dynamic_class es roots c" if "list_ex (\<lambda>base. is_dynamic_base base live roots) bases"
    using that Cons.prems(2) from_root [OF mem] from_class [OF mem] by (auto simp: list_ex_iff is_dynamic_base_def Let_def)
  obtain l a where s: "add_dynamic_class roots d (live, added) = (l, a)" by force
  then have "l = live \<or> l = insert c live \<and> list_ex (\<lambda>base. is_dynamic_base base live roots) bases"
    unfolding d by (auto simp: add_dynamic_class_def split: if_splits)
  then have "\<forall>c \<in> l. dynamic_class es roots c" using new Cons.prems(2) by auto
  then show ?case using Cons.IH Cons.prems(1) s by simp
qed simp

lemma fold_add_dynamic_closed:
  assumes "fold (add_dynamic_class roots) ds (live, added) = (live, added)" and "(c, bases) \<in> set ds"
    and "b \<in> set bases" and "is_dynamic_base b live roots"
  shows "c \<in> live"
  using assms
proof (induction ds arbitrary: added)
  case (Cons d ds)
  obtain l a where s: "add_dynamic_class roots d (live, added) = (l, a)" by force
  have rest: "fold (add_dynamic_class roots) ds (l, a) = (live, added)" using Cons.prems(1) s by simp
  have "l = live" using add_dynamic_class_grows [OF s] fold_add_dynamic [OF rest] by auto
  moreover have "a = added" using add_dynamic_class_grows [OF s] fold_add_dynamic [OF rest] by auto
  ultimately have "fold (add_dynamic_class roots) ds (live, added) = (live, added)" using rest by simp
  then have "(c, bases) \<in> set ds \<Longrightarrow> c \<in> live" using Cons.IH Cons.prems(3,4) by blast
  moreover have "c \<in> live" if "d = (c, bases)"
  proof (rule ccontr)
    assume "c \<notin> live"
    then have "l = insert c live" using s that Cons.prems(3,4) by (auto simp: add_dynamic_class_def list_ex_iff split: if_splits)
    then show False using \<open>l = live\<close> \<open>c \<notin> live\<close> by auto
  qed
  ultimately show ?case using Cons.prems(2) by auto
qed simp

lemma dynamic_loop_closure:
  assumes "\<forall>c \<in> live. dynamic_class es roots c"
  shows "dynamic_loop es roots live = {c. dynamic_class es roots c}"
  using assms
proof (induction es roots live rule: dynamic_loop.induct)
  case (1 es roots live)
  obtain live' added where s: "add_dynamic_classes es roots live = (live', added)" by force
  have sound: "\<forall>c \<in> live'. dynamic_class es roots c"
    using fold_add_dynamic_sound [of es es live roots False] "1.prems" s by (simp add: add_dynamic_classes_def)
  show ?case
  proof (cases added)
    case True
    have "dynamic_loop es roots live = dynamic_loop es roots live'"
      using s True by (subst dynamic_loop.simps) (simp add: Let_def)
    also have "\<dots> = {c. dynamic_class es roots c}" using "1.IH" [OF refl] s True sound by simp
    finally show ?thesis .
  next
    case False
    then have same: "live' = live" using add_dynamic_grows [OF s] by simp
    then have fix': "fold (add_dynamic_class roots) es (live, False) = (live, False)"
      using s False by (simp add: add_dynamic_classes_def)
    have "c \<in> live" if "dynamic_class es roots c" for c
      using that
    proof induction
      case (from_root c bases b)
      then show ?case using fold_add_dynamic_closed [OF fix'] by (auto simp: is_dynamic_base_def Let_def)
    next
      case (from_class c bases b)
      then show ?case using fold_add_dynamic_closed [OF fix'] by (auto simp: is_dynamic_base_def Let_def)
    qed
    then have "live = {c. dynamic_class es roots c}" using "1.prems" by blast
    moreover have "dynamic_loop es roots live = live"
      using s False same by (subst dynamic_loop.simps) (simp add: Let_def)
    ultimately show ?thesis by simp
  qed
qed

text \<open>C33: The classes that are live because a framework instantiates them are the least set that holds
  every class with a configured base, by its short or full name, and every class with a base, by its short
  name, in the set. So neither the order in which the map of classes is read nor the early rounds of the
  loop matter, and the loop ends.\<close>

theorem dynamic_classes_least:
  "dynamic_classes class_bases root_bases = {c. dynamic_class class_bases root_bases c}"
  unfolding dynamic_classes_def by (rule dynamic_loop_closure) simp

section \<open>Reported symbols are unused\<close>

text \<open>What an import takes of a module: one of its names, or all of them.\<close>

definition uses_symbol :: "import_context \<Rightarrow> string \<Rightarrow> bool" where
  "uses_symbol w symbol \<longleftrightarrow> symbol \<noteq> ''*'' \<and> symbol \<in> set (im_imported_symbols w)
     \<or> im_phase w = Runtime \<and> ''*'' \<in> set (im_imported_symbols w)"

definition imports_into :: "codebase_graph \<Rightarrow> node_index \<Rightarrow> (node_index \<times> import_context) set" where
  "imports_into cg n = {(s, w). (s, n, w) \<in> set (cg_edges cg) \<and> \<not> im_is_reexport w}"

lemma direct_asks_mem:
  "ProdName x \<in> direct_asks ip s w \<longleftrightarrow> \<not> importer_is_test ip s \<and> x \<noteq> ''*'' \<and> x \<in> set (im_imported_symbols w)"
  "ProdAll \<in> direct_asks ip s w \<longleftrightarrow> \<not> importer_is_test ip s \<and> im_phase w = Runtime \<and> ''*'' \<in> set (im_imported_symbols w)"
  "TestName x \<in> direct_asks ip s w \<longleftrightarrow> importer_is_test ip s \<and> x \<noteq> ''*'' \<and> x \<in> set (im_imported_symbols w)"
  "TestAll \<in> direct_asks ip s w \<longleftrightarrow> importer_is_test ip s \<and> im_phase w = Runtime \<and> ''*'' \<in> set (im_imported_symbols w)"
  "TypeStar \<in> direct_asks ip s w \<longleftrightarrow> im_phase w = TypeOnly \<and> ''*'' \<in> set (im_imported_symbols w)"
  "Opaque \<in> direct_asks ip s w \<longleftrightarrow> \<not> importer_is_test ip s \<and> is_opaque w"
  "FromConfig \<in> direct_asks ip s w \<longleftrightarrow> \<not> importer_is_test ip s \<and> s \<in> ip_config_files ip"
  by (auto simp: direct_asks_def add_direct_def fold_ask_symbol Let_def absorb_demand_def no_inbound_def no_demand_def)

lemma satisfies_direct:
  assumes "satisfies cg ip I" and "(s, w) \<in> imports_into cg n"
  shows "uses_symbol w x \<Longrightarrow> demand_contains ((if importer_is_test ip s then ib_test else ib_prod) (I n)) x"
    and "im_phase w = TypeOnly \<Longrightarrow> ''*'' \<in> set (im_imported_symbols w) \<Longrightarrow> ib_type_star (I n)"
    and "\<not> importer_is_test ip s \<Longrightarrow> is_opaque w \<Longrightarrow> ib_opaque (I n)"
    and "\<not> importer_is_test ip s \<Longrightarrow> s \<in> ip_config_files ip \<Longrightarrow> ib_from_config (I n)"
proof -
  have "direct_asks ip s w \<subseteq> asks (I n)" using assms by (auto simp: satisfies_def imports_into_def)
  then have "f \<in> direct_asks ip s w \<Longrightarrow> f \<in> asks (I n)" for f by blast
  note this [of ProdAll] this [of TestAll] this [of TypeStar] this [of Opaque] this [of FromConfig]
    this [of "ProdName x"] this [of "TestName x"]
  note facts = this [unfolded direct_asks_mem asks_mem]
  show "demand_contains ((if importer_is_test ip s then ib_test else ib_prod) (I n)) x" if "uses_symbol w x"
    using that facts by (auto simp: uses_symbol_def demand_contains_def)
  show "ib_type_star (I n)" if "im_phase w = TypeOnly" "''*'' \<in> set (im_imported_symbols w)" using that facts by blast
  show "ib_opaque (I n)" if "\<not> importer_is_test ip s" "is_opaque w" using that facts by blast
  show "ib_from_config (I n)" if "\<not> importer_is_test ip s" "s \<in> ip_config_files ip" using that facts by blast
qed

lemma forward_side_all:
  assumes "dm_all b" and "x \<in> set (im_imported_symbols w)" and "x \<noteq> ''*''"
  shows "x \<in> dm_names (forward_side b w)"
proof -
  have grow: "dm_names d \<subseteq> dm_names (forward_symbol b w e d)" for e d
    by (cases e) (auto simp: forward_symbol_def Let_def absorb_demand_def split: option.splits)
  have "x \<in> dm_names d \<or> x \<in> snd ` set es \<Longrightarrow> x \<in> dm_names (fold (forward_symbol b w) es d)" for es d
  proof (induction es arbitrary: d)
    case (Cons e es)
    obtain i s where e: "e = (i, s)" by force
    have "s = x \<Longrightarrow> x \<in> dm_names (forward_symbol b w e d)"
      using assms(1,3) by (simp add: e forward_symbol_def Let_def demand_contains_def)
    then show ?case using Cons grow [of d e] by (auto simp: e)
  qed simp
  moreover have "x \<in> snd ` set (enumerate 0 (im_imported_symbols w))"
    using assms(2) by (metis list.set_map map_snd_enumerate)
  ultimately show ?thesis by (simp add: forward_side_def)
qed

lemma satisfies_reexport:
  assumes "satisfies cg ip I" and "(s, n, w) \<in> set (cg_edges cg)" and "im_is_reexport w" and "s \<noteq> n"
    and "forwards_everything ip s" and "x \<in> set (im_imported_symbols w)" and "x \<noteq> ''*''"
  shows "demand_contains (ib_prod (I n)) x"
proof -
  have "asks (forward_from ip s (I s) w) \<subseteq> asks (I n)" using assms(1-4) by (auto simp: satisfies_def)
  moreover have "ProdName x \<in> asks (forward_from ip s (I s) w)"
    using assms(5) forward_side_all [OF _ assms(6,7), of "(ib_prod (I s))\<lparr>dm_all := True\<rparr>"]
    by (simp add: forward_from_def forwarded_def)
  ultimately have "ProdName x \<in> asks (I n)" by blast
  then show ?thesis by (simp add: demand_contains_def)
qed

lemma first_seen_set [simp]: "set (first_seen seen ss) = set ss - seen"
  by (induction ss arbitrary: seen) auto

lemma symbol_findingsE:
  assumes "f \<in> set (symbol_findings scan mo)"
  obtains symbol where "symbol \<in> set (sf_declared (wk_symbols (pf_walked (mo_file mo))))"
    and "symbol_finding scan mo symbol = Some f"
  using assms by (auto simp: symbol_findings_def map_filter_mem)

lemma symbol_finding_SomeD:
  assumes "symbol_finding scan mo symbol = Some f"
  shows "dc_symbol f = symbol \<and> dc_module f = mn_module_name (mo_node mo) \<and> dc_file f = mn_file_path (mo_node mo)
    \<and> \<not> symbol_is_live scan mo symbol \<and> dc_confidence f = gr_confidence (grade_of (symbol_evidence mo symbol))"
  using assms by (auto simp: symbol_finding_def Let_def split: if_splits)

lemma counted_contains: "demand_contains (ib_prod i) x \<Longrightarrow> demand_contains (counted i ti) x"
  by (auto simp: counted_def demand_contains_def absorb_demand_def)

lemma unasked_if_not_live: "\<not> symbol_is_live scan mo symbol \<Longrightarrow> \<not> is_asked (mo_file mo) symbol (mo_counted mo)"
  by (auto simp: symbol_is_live_def skip_symbol_def Let_def split: if_splits)

lemma high_evidence:
  "gr_confidence (grade_of ev) = High \<Longrightarrow> ev_reached ev = FromRoot \<and> \<not> ev_test_only ev \<and> \<not> ev_is_default_export ev
     \<and> \<not> ib_opaque (ev_inbound ev) \<and> \<not> ib_type_star (ev_inbound ev) \<and> \<not> ib_from_config (ev_inbound ev)"
  by (cases "ev_reached ev") (auto simp: grade_of_def grade_medium_def Let_def split: if_splits)

lemma module_facts_of_SomeD:
  assumes "module_facts_of prof scan n = Some mo"
  shows "ms_roles scan n = Some Module \<and> mo_node mo = cg_nodes (ms_cg scan) ! n
    \<and> mo_inbound mo = inbound_at (ms_inbound scan) n \<and> (\<exists>ti. mo_counted mo = counted (mo_inbound mo) ti)"
  using assms by (auto simp: module_facts_of_def Let_def split: if_splits option.splits)

text \<open>No production import, re-export of an entry module or, for high confidence, import of any kind uses the symbol.\<close>

definition unused_symbol :: "codebase_graph \<Rightarrow> importers \<Rightarrow> node_index \<Rightarrow> string \<Rightarrow> bool" where
  "unused_symbol cg ip n x \<longleftrightarrow>
     (\<forall>s w. (s, w) \<in> imports_into cg n \<and> \<not> importer_is_test ip s \<longrightarrow> \<not> uses_symbol w x)
     \<and> (\<forall>s w. (s, n, w) \<in> set (cg_edges cg) \<and> im_is_reexport w \<and> s \<noteq> n \<and> forwards_everything ip s
          \<longrightarrow> x = ''*'' \<or> x \<notin> set (im_imported_symbols w))"

definition hidden_use :: "importers \<Rightarrow> string \<Rightarrow> node_index \<times> import_context \<Rightarrow> bool" where
  "hidden_use ip x import = (case import of (s, w) \<Rightarrow> uses_symbol w x \<or> ''*'' \<in> set (im_imported_symbols w)
     \<or> \<not> importer_is_test ip s \<and> (is_opaque w \<or> s \<in> ip_config_files ip))"

text \<open>C29: A reported symbol is unused. The scan always exists (its demand pass ends), and a finding about a
  symbol of a module says: no importer that production reaches imports the symbol or everything, and no entry
  module or orphan re-exports it by name; when the confidence is high, moreover, no import of the module, from
  tests either, names it, takes the module as a namespace or whole, or comes from a tool config.\<close>

theorem reported_symbols_unused:
  assumes "petgraph_ok cg od"
  shows "\<exists>scan. module_scan_new ky prof cg od fls config rs = Some scan
    \<and> (\<forall>n mo f. module_facts_of prof scan n = Some mo \<and> f \<in> set (symbol_findings scan mo) \<longrightarrow>
         unused_symbol cg (scan_importers prof cg od config rs) n (dc_symbol f)
         \<and> (dc_confidence f = High \<longrightarrow> (\<forall>import \<in> imports_into cg n.
              \<not> hidden_use (scan_importers prof cg od config rs) (dc_symbol f) import)))"
proof -
  let ?ip = "scan_importers prof cg od config rs"
  obtain ib where ib: "inbound_of cg od ?ip = Some ib" and sat: "satisfies cg ?ip (inbound_at ib)"
    using inbound_of_fixpoint [OF assms, of ?ip] by blast
  then obtain scan where scan: "module_scan_new ky prof cg od fls config rs = Some scan" "ms_inbound scan = ib"
    by (simp add: module_scan_new_def Let_def)
  have "unused_symbol cg ?ip n (dc_symbol f)
      \<and> (dc_confidence f = High \<longrightarrow> (\<forall>import \<in> imports_into cg n. \<not> hidden_use ?ip (dc_symbol f) import))"
    if mo: "module_facts_of prof scan n = Some mo" and f: "f \<in> set (symbol_findings scan mo)" for n mo f
  proof -
    obtain x where x: "symbol_finding scan mo x = Some f" using f by (rule symbol_findingsE)
    note fx = symbol_finding_SomeD [OF x] and mx = module_facts_of_SomeD [OF mo]
    from mx obtain ti where ti: "mo_counted mo = counted (inbound_at ib n) ti" using scan(2) by auto
    have "\<not> is_asked (mo_file mo) x (mo_counted mo)" using fx unasked_if_not_live by blast
    then have none: "\<not> demand_contains (ib_prod (inbound_at ib n)) x"
      using counted_contains [of "inbound_at ib n" x ti] by (auto simp: is_asked_def Let_def ti)
    have "unused_symbol cg ?ip n x"
      unfolding unused_symbol_def
    proof (intro conjI allI impI)
      show "\<not> uses_symbol w x" if "(s, w) \<in> imports_into cg n \<and> \<not> importer_is_test ?ip s" for s w
        using satisfies_direct(1) [OF sat, of s w n x] that none by auto
      show "x = ''*'' \<or> x \<notin> set (im_imported_symbols w)"
        if "(s, n, w) \<in> set (cg_edges cg) \<and> im_is_reexport w \<and> s \<noteq> n \<and> forwards_everything ?ip s" for s w
        using satisfies_reexport [OF sat, of s n w x] that none by blast
    qed
    moreover have "\<not> hidden_use ?ip x import" if high: "dc_confidence f = High" and mem: "import \<in> imports_into cg n" for import
    proof -
      obtain s w where import: "import = (s, w)" by force
      have ev: "ev_inbound (symbol_evidence mo x) = inbound_at ib n"
          "ev_test_only (symbol_evidence mo x) = is_asked (mo_file mo) x (ib_test (inbound_at ib n))"
        using mx scan(2) by (simp_all add: symbol_evidence_def)
      have "gr_confidence (grade_of (symbol_evidence mo x)) = High" using fx high by simp
      note h = high_evidence [OF this, unfolded ev]
      then have "\<not> demand_contains (ib_test (inbound_at ib n)) x" by (auto simp: is_asked_def Let_def)
      then have "\<not> uses_symbol w x"
        using satisfies_direct(1) [OF sat mem [unfolded import], of x] none by (auto split: if_splits)
      moreover have "im_phase w = Runtime \<or> im_phase w = TypeOnly" by (cases "im_phase w") auto
      ultimately show ?thesis
        using satisfies_direct(2-4) [OF sat mem [unfolded import]] h by (auto simp: hidden_use_def import uses_symbol_def)
    qed
    ultimately show ?thesis using fx by simp
  qed
  then show ?thesis using scan(1) by blast
qed

text \<open>A sample: an entry module imports \<open>g\<close> of a module that declares \<open>f\<close> and \<open>g\<close>.\<close>

definition scan_profile :: "language \<Rightarrow> dead_code_profile" where
  "scan_profile lang = \<lparr>dp_classify_decorator = (\<lambda>paths entrypoints. NoDecorator), dp_is_conventionally_private = (\<lambda>s. False),
     dp_is_entry_file_stem = (\<lambda>stem. stem = ''a''), dp_manages_class_properties = (\<lambda>c d. False),
     dp_manages_property = (\<lambda>p. False), dp_requires_property_usage_evidence = (\<lambda>c. False),
     dp_defaults = \<lparr>dd_registration_decorators = [], dd_entrypoint_names = [], dd_method_entrypoint_names = [],
       dd_external_bases = Ignored, dd_entrypoint_bases = [], dd_entry_globs = [], dd_runner_configs = [],
       dd_test_sources = [], dd_test_support = []\<rparr>, dp_manifest_entry_files = (\<lambda>fls. [])\<rparr>"

definition scan_rules :: rule_sets where
  "scan_rules = [Python \<mapsto> \<lparr>rs_entrypoints = {}, rs_entrypoint_names = [], rs_method_entrypoint_names = [],
     rs_entry_globs = (\<lambda>p. False), rs_config_globs = (\<lambda>p. False), rs_test_source_globs = (\<lambda>p. False),
     rs_test_support_globs = (\<lambda>p. False), rs_manifest_entries = {}\<rparr>]"

definition scan_config :: dead_code_config where
  "scan_config = \<lparr>kc_registration_decorators = [], kc_entrypoint_names = [], kc_entrypoint_bases = [], kc_entry_globs = [],
     kc_test_sources = [], kc_test_support = [], kc_entry_modules = [], kc_orphan_modules = True, kc_unimported_dir_share = 0,
     kc_unused_imports = False, kc_unused_methods = False, kc_unused_properties = False, kc_unused_variables = True\<rparr>"

definition scan_graph :: codebase_graph where
  "scan_graph = (sample_graph [''a'', ''b''] [])\<lparr>cg_edges :=
     [(0, 1, sample_import\<lparr>im_imported_symbols := [''g''], im_bindings := [''g'']\<rparr>)]\<rparr>"

definition scan_file :: parsed_file where
  "scan_file = \<lparr>pf_path = [Normal ''b''], pf_language = Python, pf_lines = 2,
     pf_walked = empty_walked\<lparr>wk_symbols := (wk_symbols empty_walked)\<lparr>sf_declared := [''f'', ''g'']\<rparr>\<rparr>,
     pf_is_generated = False, pf_runs_as_program = False\<rparr>"

definition scan_keys :: key_order where
  "scan_keys m = sorted_list_of_set (dom m)"

lemma scan_keys_ok: "key_order_ok scan_keys"
  by (simp add: key_order_ok_def scan_keys_def)

definition scan_importers_sample :: importers where
  "scan_importers_sample = \<lparr>ip_roles = [0 \<mapsto> ProdRoot, 1 \<mapsto> Module], ip_reach = \<lparr>re_prod = {0, 1}, re_orphans = {}\<rparr>, ip_config_files = {}\<rparr>"

lemma scan_sample_roles: "roles_of scan_profile scan_graph scan_rules {} = [0 \<mapsto> ProdRoot, 1 \<mapsto> Module]"
  by (rule ext) (simp add: roles_of_def scan_graph_def sample_graph_def sample_node_def role_of_def scan_rules_def
      is_prod_root_def scan_profile_def path_file_stem_def str_rsplit_once_def less_Suc_eq numeral_2_eq_2)

lemma scan_graph_sel:
  "cg_nodes scan_graph = [sample_node ''a'', sample_node ''b'']"
  "cg_edges scan_graph = [(0, 1, sample_import\<lparr>im_imported_symbols := [''g''], im_bindings := [''g'']\<rparr>)]"
  by (simp_all add: scan_graph_def)

lemma scan_sample_edges:
  "edges_directed scan_graph (ascending_order scan_graph) Outgoing n = (if n = 0 then [(0, cg_edges scan_graph ! 0)] else [])"
  "edges_directed scan_graph (ascending_order scan_graph) Incoming n = (if n = 1 then [(0, cg_edges scan_graph ! 0)] else [])"
  by (simp_all add: edges_directed_def ascending_order_def scan_graph_sel List.map_filter_simps edge_ref_def)

lemma scan_sample_walk:
  "internal_targets scan_graph (ascending_order scan_graph) n = (if n = 0 then [Suc 0] else [])"
  "has_internal_importer scan_graph (ascending_order scan_graph) n \<longleftrightarrow> n = Suc 0"
  by (auto simp: internal_targets_def has_internal_importer_def scan_sample_edges scan_graph_sel sample_node_def)

lemma scan_sample_with_role:
  "with_role scan_graph [0 \<mapsto> ProdRoot, Suc 0 \<mapsto> Module] ProdRoot = [0]"
  "with_role scan_graph [0 \<mapsto> ProdRoot, Suc 0 \<mapsto> Module] Module = [Suc 0]"
  "with_role scan_graph [0 \<mapsto> ProdRoot, Suc 0 \<mapsto> Module] TestSource = []"
  by (simp_all add: with_role_def scan_graph_sel numeral_2_eq_2)

lemma scan_sample_importers:
  "scan_importers scan_profile scan_graph (ascending_order scan_graph) scan_config scan_rules = scan_importers_sample"
proof -
  have roles: "scan_roles scan_profile scan_graph (ascending_order scan_graph) scan_config scan_rules = [0 \<mapsto> ProdRoot, 1 \<mapsto> Module]"
    by (simp add: scan_roles_def scan_config_def scan_sample_roles promote_def)
  have "config_file_nodes scan_graph scan_rules [0 \<mapsto> ProdRoot, 1 \<mapsto> Module] = {}"
    by (auto simp: config_file_nodes_def is_config_file_def scan_rules_def scan_graph_sel sample_node_def less_Suc_eq)
  moreover have "reach_walk scan_graph (ascending_order scan_graph) [0 \<mapsto> ProdRoot, 1 \<mapsto> Module] = \<lparr>re_prod = {0, 1}, re_orphans = {}\<rparr>"
    by (simp add: reach_walk_def scan_sample_walk scan_sample_with_role reach_from_def insert_commute)
  ultimately show ?thesis by (simp add: scan_importers_def roles Let_def scan_importers_sample_def)
qed

lemma scan_sample_inbound:
  "inbound_of scan_graph od scan_importers_sample = Some [1 \<mapsto> \<lparr>ib_prod = \<lparr>dm_names = {''g''}, dm_all = False\<rparr>,
     ib_test = no_demand, ib_type_star = False, ib_opaque = False, ib_from_config = False\<rparr>]"
  by (simp add: inbound_of_def enumerate_eq_zip scan_graph_sel direct_step_def sample_import_def add_direct_def ask_symbol_def
      importer_is_test_def scan_importers_sample_def forward_loop.simps inbound_at_def no_inbound_def no_demand_def
      absorb_demand_def is_opaque_def Let_def)

lemma scan_sample_findings:
  assumes "module_scan_new scan_keys scan_profile scan_graph (ascending_order scan_graph) [scan_file, scan_file] scan_config scan_rules = Some scan"
  shows "\<exists>mo f. module_facts_of scan_profile scan 1 = Some mo \<and> symbol_findings scan mo = [f] \<and> dc_symbol f = ''f'' \<and> dc_confidence f = High"
proof -
  have scan: "ms_roles scan 1 = Some Module" "ms_cg scan = scan_graph" "ms_rule_sets scan = scan_rules" "ms_files scan = [scan_file, scan_file]"
      "ms_reach scan = \<lparr>re_prod = {0, 1}, re_orphans = {}\<rparr>" "ms_config scan = scan_config"
      "inbound_at (ms_inbound scan) 1 = \<lparr>ib_prod = \<lparr>dm_names = {''g''}, dm_all = False\<rparr>,
         ib_test = no_demand, ib_type_star = False, ib_opaque = False, ib_from_config = False\<rparr>"
    using assms unfolding module_scan_new_def scan_sample_importers Let_def scan_sample_inbound
    by (auto simp: scan_importers_sample_def inbound_at_def)
  define mo where "mo = \<lparr>mo_node = sample_node ''b'', mo_file = scan_file, mo_rules = the (scan_rules Python),
    mo_profile = scan_profile Python, mo_inbound = \<lparr>ib_prod = \<lparr>dm_names = {''g''}, dm_all = False\<rparr>, ib_test = no_demand, ib_type_star = False,
      ib_opaque = False, ib_from_config = False\<rparr>,
    mo_counted = \<lparr>dm_names = {''g''}, dm_all = False\<rparr>, mo_reached = FromRoot\<rparr>"
  have "module_facts_of scan_profile scan 1 = Some mo"
    unfolding module_facts_of_def scan Let_def mo_def
    by (simp add: scan_graph_sel sample_node_def scan_rules_def rule_set_test_importers_def scan_reached_def scan counted_def)
  moreover have "sf_declared (wk_symbols (pf_walked (mo_file mo))) = [''f'', ''g'']"
    by (simp add: mo_def scan_file_def)
  moreover have "symbol_is_live scan mo ''g''"
    by (simp add: symbol_is_live_def Let_def skip_symbol_def is_asked_def demand_contains_def mo_def)
  moreover have "\<not> symbol_is_live scan mo ''f''"
    by (simp add: symbol_is_live_def Let_def skip_symbol_def is_asked_def demand_contains_def mo_def scan_file_def empty_walked_def
        scan_profile_def scan scan_rules_def manifest_registers_def is_entrypoint_name_def matches_any_def is_class_entrypoint_def declared_kind_def)
  moreover have "grade_of (symbol_evidence mo ''f'') = \<lparr>gr_confidence = High, gr_reason = None\<rparr>"
    by (simp add: grade_of_def symbol_evidence_def mo_def scan scan_file_def empty_walked_def is_asked_def demand_contains_def no_demand_def)
  ultimately show ?thesis
    by (simp add: symbol_findings_def List.map_filter_simps symbol_finding_def Let_def)
       (simp add: scan scan_config_def mo_def scan_file_def empty_walked_def scan_profile_def declared_kind_def)
qed

theorem reported_symbols_unused_witness:
  "\<exists>scan mo f. module_scan_new scan_keys scan_profile scan_graph (ascending_order scan_graph) [scan_file, scan_file] scan_config scan_rules = Some scan
    \<and> module_facts_of scan_profile scan 1 = Some mo \<and> symbol_findings scan mo = [f] \<and> dc_symbol f = ''f'' \<and> dc_confidence f = High
    \<and> unused_symbol scan_graph (scan_importers scan_profile scan_graph (ascending_order scan_graph) scan_config scan_rules) 1 ''f''"
proof -
  obtain scan where scan: "module_scan_new scan_keys scan_profile scan_graph (ascending_order scan_graph) [scan_file, scan_file] scan_config scan_rules = Some scan"
    and use: "\<And>n mo f. module_facts_of scan_profile scan n = Some mo \<Longrightarrow> f \<in> set (symbol_findings scan mo) \<Longrightarrow>
      unused_symbol scan_graph (scan_importers scan_profile scan_graph (ascending_order scan_graph) scan_config scan_rules) n (dc_symbol f)"
    using reported_symbols_unused [OF ascending_order_ok, of scan_keys scan_profile scan_graph "[scan_file, scan_file]" scan_config scan_rules]
    by blast
  obtain mo f where mo: "module_facts_of scan_profile scan 1 = Some mo" "symbol_findings scan mo = [f]"
      "dc_symbol f = ''f''" "dc_confidence f = High"
    using scan_sample_findings [OF scan] by blast
  have "f \<in> set (symbol_findings scan mo)" unfolding mo(2) by simp
  from use [OF mo(1) this] have "unused_symbol scan_graph
      (scan_importers scan_profile scan_graph (ascending_order scan_graph) scan_config scan_rules) 1 ''f''" unfolding mo(3) .
  with scan mo show ?thesis by blast
qed

end
