(* ===== verification/GraphBuild.thy ===== *)
theory GraphBuild
  imports Graph Rust_Std
begin

text \<open>
  Building the import graph: \<open>src/spine/graph/identity.rs\<close> (the module name of every file) and
  \<open>src/spine/graph/builder.rs\<close> (a node per file, edges per import). What a language contributes,
  its \<open>ModuleProfile\<close> and the stateful \<open>ImportResolver\<close> of one build, is the parameter
  \<open>prof\<close>, one record per language; the order in which a hash set is collected is \<open>mp_hash_order\<close>.
\<close>

record 'r module_profile =
  mp_root_for :: "path \<Rightarrow> path"
  mp_module_name :: "path \<Rightarrow> path \<Rightarrow> string"
  mp_is_package_index :: "path \<Rightarrow> bool"
  mp_containing_package :: "string \<Rightarrow> bool \<Rightarrow> string"
  mp_disambiguated :: "path \<Rightarrow> path \<Rightarrow> string \<Rightarrow> string"
  mp_path_key :: "path \<Rightarrow> path option"
  mp_workspace_root :: "path \<Rightarrow> path option"
  mp_submodule_candidate :: "string \<Rightarrow> string \<Rightarrow> string option"
  mp_is_containment :: "string \<Rightarrow> string \<Rightarrow> bool"
  mp_edge_phase :: "import_context \<Rightarrow> path \<Rightarrow> 'r \<Rightarrow> import_phase \<times> 'r"
  mp_target_path_keys :: "import_context \<Rightarrow> path \<Rightarrow> 'r \<Rightarrow> path list \<times> 'r"
  mp_resolve_target :: "import_context \<Rightarrow> string \<Rightarrow> path \<Rightarrow> path \<Rightarrow> 'r \<Rightarrow> string \<times> 'r"
  mp_hash_order :: "string set \<Rightarrow> string list"

type_synonym 'r profiles = "language \<Rightarrow> 'r module_profile"

section \<open>Module identities\<close>

record module_identity =
  mi_root :: path
  mi_logical_name :: string
  mi_name :: string

text \<open>The longest configured root that holds the file; else the profile's root, asked once per
  directory and language.\<close>

definition root_for :: "'r profiles \<Rightarrow> path list \<Rightarrow> parsed_file \<Rightarrow> (path \<times> language \<rightharpoonup> path) \<Rightarrow> path \<times> (path \<times> language \<rightharpoonup> path)" where
  "root_for prof configured file cache =
     (case max_by_key length (filter (path_starts_with (pf_path file)) configured) of
        Some root \<Rightarrow> (root, cache)
      | None \<Rightarrow>
          let directory = (case path_parent (pf_path file) of Some p \<Rightarrow> p | None \<Rightarrow> [CurDir]) in
          (case cache (directory, pf_language file) of
             Some root \<Rightarrow> (root, cache)
           | None \<Rightarrow>
               let root = mp_root_for (prof (pf_language file)) (pf_path file) in
               (root, cache((directory, pf_language file) \<mapsto> root))))"

fun roots_from :: "'r profiles \<Rightarrow> path list \<Rightarrow> parsed_file list \<Rightarrow> (path \<times> language \<rightharpoonup> path) \<Rightarrow> path list" where
  "roots_from prof configured [] cache = []"
| "roots_from prof configured (file # files) cache =
     (case root_for prof configured file cache of (root, cache') \<Rightarrow> root # roots_from prof configured files cache')"

definition roots_for :: "'r profiles \<Rightarrow> parsed_file list \<Rightarrow> path list \<Rightarrow> path list" where
  "roots_for prof files configured = roots_from prof configured files Map.empty"

lemma roots_for_length [simp]: "length (roots_for prof files configured) = length files"
proof -
  have "length (roots_from prof configured files cache) = length files" for cache
    by (induction files arbitrary: cache) (auto split: prod.splits)
  then show ?thesis by (simp add: roots_for_def)
qed

text \<open>The count of every (language, name) pair, zero where the map has no entry.\<close>

definition duplicate_names :: "parsed_file list \<Rightarrow> string list \<Rightarrow> language \<times> string \<Rightarrow> usize" where
  "duplicate_names files names key = count_list (zip (map pf_language files) names) key"

datatype workspace_base_kind = Configured path | Common path

function common_ancestor :: "path \<Rightarrow> path \<Rightarrow> path" where
  "common_ancestor candidate right =
     (if path_starts_with right candidate then candidate
      else case path_parent candidate of
             None \<Rightarrow> candidate
           | Some parent \<Rightarrow> common_ancestor parent right)"
  by pat_completeness auto
termination
  by (relation "measure (length \<circ> fst)") (auto dest: path_parent_shorter)

declare common_ancestor.simps [simp del]

definition workspace_base :: "parsed_file list \<Rightarrow> path list \<Rightarrow> workspace_base_kind" where
  "workspace_base files configured =
     (case max_by_key length (filter (\<lambda>root. list_all (\<lambda>file. path_starts_with (pf_path file) root) files) configured) of
        Some root \<Rightarrow> Configured root
      | None \<Rightarrow>
          (case List.map_filter (\<lambda>file. path_parent (pf_path file)) files of
             [] \<Rightarrow> Common [CurDir]
           | first # directories \<Rightarrow> Common (fold (\<lambda>dir acc. common_ancestor acc dir) directories first)))"

definition workspace_roots :: "'r profiles \<Rightarrow> parsed_file list \<Rightarrow> path list \<Rightarrow> string list \<Rightarrow> language \<rightharpoonup> path" where
  "workspace_roots prof files configured names language =
     (if list_ex (\<lambda>(l, name). l = language \<and> 1 < duplicate_names files names (l, name)) (zip (map pf_language files) names)
      then Some (case workspace_base files configured of
                   Configured root \<Rightarrow> root
                 | Common common \<Rightarrow>
                     (case mp_workspace_root (prof language) common of Some root \<Rightarrow> root | None \<Rightarrow> common))
      else None)"

definition identity_of :: "'r profiles \<Rightarrow> (language \<times> string \<Rightarrow> usize) \<Rightarrow> (language \<rightharpoonup> path) \<Rightarrow> parsed_file \<Rightarrow> path \<Rightarrow> string \<Rightarrow> module_identity" where
  "identity_of prof duplicates workspaces file root logical_name =
     (let duplicate = 1 < duplicates (pf_language file, logical_name);
          name = (case workspaces (pf_language file) of
                    Some workspace \<Rightarrow>
                      if duplicate then mp_disambiguated (prof (pf_language file)) (pf_path file) workspace logical_name
                      else logical_name
                  | None \<Rightarrow> logical_name)
      in \<lparr>mi_root = root, mi_logical_name = logical_name, mi_name = name\<rparr>)"

definition identities_for :: "'r profiles \<Rightarrow> parsed_file list \<Rightarrow> path list \<Rightarrow> module_identity list" where
  "identities_for prof files configured =
     (let roots = roots_for prof files configured;
          logical_names = map (\<lambda>(file, root). mp_module_name (prof (pf_language file)) (pf_path file) root) (zip files roots);
          duplicates = duplicate_names files logical_names;
          workspaces = workspace_roots prof files configured logical_names
      in map (\<lambda>((file, root), logical_name). identity_of prof duplicates workspaces file root logical_name)
           (zip (zip files roots) logical_names))"

lemma identities_for_length [simp]: "length (identities_for prof files configured) = length files"
  by (simp add: identities_for_def Let_def)

section \<open>Pass 1: a node per file\<close>

record build_pass =
  bp_graph :: codebase_graph
  bp_module_of :: "string option list"
  bp_by_path_key :: "path \<rightharpoonup> string"
  bp_by_scope :: "language \<times> path \<rightharpoonup> (string \<rightharpoonup> string)"

text \<open>\<open>add_node\<close> together with the index entry that always follows it.\<close>

definition add_named_node :: "module_node \<Rightarrow> codebase_graph \<Rightarrow> codebase_graph" where
  "add_named_node m cg = cg\<lparr>cg_nodes := cg_nodes cg @ [m],
     cg_name_to_index := (cg_name_to_index cg)(mn_module_name m \<mapsto> length (cg_nodes cg))\<rparr>"

definition file_node :: "nat \<Rightarrow> parsed_file \<Rightarrow> module_identity \<Rightarrow> module_node" where
  "file_node source_index file identity = \<lparr>mn_file_path = pf_path file, mn_module_name = mi_name identity,
     mn_language = pf_language file, mn_source_index = Some source_index, mn_is_external = False\<rparr>"

definition add_file :: "'r profiles \<Rightarrow> nat \<times> parsed_file \<times> module_identity \<Rightarrow> build_pass \<Rightarrow> build_pass" where
  "add_file prof entry bp = (case entry of (source_index, file, identity) \<Rightarrow>
     if cg_name_to_index (bp_graph bp) (mi_name identity) \<noteq> None
     then bp\<lparr>bp_module_of := bp_module_of bp @ [None]\<rparr>
     else let scope = (pf_language file, mi_root identity);
              names = (case bp_by_scope bp scope of Some names \<Rightarrow> names | None \<Rightarrow> Map.empty)
          in \<lparr>bp_graph = add_named_node (file_node source_index file identity) (bp_graph bp),
              bp_module_of = bp_module_of bp @ [Some (mi_name identity)],
              bp_by_path_key = (case mp_path_key (prof (pf_language file)) (pf_path file) of
                 Some key \<Rightarrow> (bp_by_path_key bp)(key \<mapsto> mi_name identity)
               | None \<Rightarrow> bp_by_path_key bp),
              bp_by_scope = (bp_by_scope bp)(scope \<mapsto> names(mi_logical_name identity \<mapsto> mi_name identity))\<rparr>)"

definition add_files :: "'r profiles \<Rightarrow> parsed_file list \<Rightarrow> module_identity list \<Rightarrow> build_pass" where
  "add_files prof files identities =
     fold (add_file prof) (zip [0..<length files] (zip files identities))
       \<lparr>bp_graph = empty_graph, bp_module_of = [], bp_by_path_key = Map.empty, bp_by_scope = Map.empty\<rparr>"

section \<open>Pass 2: edges per import\<close>

text \<open>\<open>node_for_target\<close>: an unresolved target becomes a synthetic external node.\<close>

definition external_node :: "language \<Rightarrow> string \<Rightarrow> module_node" where
  "external_node src_lang target = \<lparr>mn_file_path = [], mn_module_name = target, mn_language = src_lang,
     mn_source_index = None, mn_is_external = True\<rparr>"

definition node_for_target :: "language \<Rightarrow> string \<Rightarrow> codebase_graph \<Rightarrow> node_index \<times> codebase_graph" where
  "node_for_target src_lang target cg =
     (case cg_name_to_index cg target of
        Some idx \<Rightarrow> (idx, cg)
      | None \<Rightarrow> (length (cg_nodes cg), add_named_node (external_node src_lang target) cg))"

text \<open>The closure \<open>add_edge\<close>.\<close>

definition add_edge :: "'r module_profile \<Rightarrow> node_index \<Rightarrow> string \<Rightarrow> node_index \<Rightarrow> import_context \<Rightarrow> codebase_graph \<Rightarrow> codebase_graph" where
  "add_edge mp src_idx src_module dst ctx cg =
     cg\<lparr>cg_edges := cg_edges cg @
       [(src_idx, dst, ctx\<lparr>im_is_module_decl := im_is_module_decl ctx \<or> mp_is_containment mp src_module (im_target_module ctx)\<rparr>)]\<rparr>"

definition qualified_import :: "'r module_profile \<Rightarrow> import_context \<Rightarrow> string \<Rightarrow> string set option \<Rightarrow> import_context" where
  "qualified_import mp base module accessed = base\<lparr>im_target_module := module,
     im_imported_symbols := (case accessed of Some s \<Rightarrow> mp_hash_order mp s | None \<Rightarrow> [])\<rparr>"

definition add_qualified_edge :: "'r module_profile \<Rightarrow> node_index \<Rightarrow> string \<Rightarrow> language \<Rightarrow> import_context \<Rightarrow> string
    \<Rightarrow> string set option \<Rightarrow> codebase_graph \<Rightarrow> codebase_graph" where
  "add_qualified_edge mp src_idx src_module src_lang import target used cg =
     (case node_for_target src_lang target cg of (dst, cg') \<Rightarrow>
        add_edge mp src_idx src_module dst (qualified_import mp import target used) cg')"

definition add_package_edge :: "'r module_profile \<Rightarrow> node_index \<Rightarrow> string \<Rightarrow> language \<Rightarrow> import_context \<Rightarrow> string
    \<Rightarrow> string list \<Rightarrow> codebase_graph \<Rightarrow> codebase_graph" where
  "add_package_edge mp src_idx src_module src_lang import target package_symbols cg =
     (case node_for_target src_lang target cg of (dst, cg') \<Rightarrow>
        add_edge mp src_idx src_module dst
          (import\<lparr>im_target_module := target, im_imported_symbols := package_symbols\<rparr>) cg')"

text \<open>The loop over the imported symbols: an edge to each submodule, the rest left for the package.\<close>

definition import_symbol :: "'r module_profile \<Rightarrow> node_index \<Rightarrow> string \<Rightarrow> language \<Rightarrow> string \<Rightarrow> import_context
    \<Rightarrow> (string \<rightharpoonup> string set) \<Rightarrow> nat \<times> string \<Rightarrow> codebase_graph \<times> string list \<Rightarrow> codebase_graph \<times> string list" where
  "import_symbol mp src_idx src_module src_lang target import attrs entry st =
     (case (entry, st) of ((i, symbol), cg, package_symbols) \<Rightarrow>
        if symbol = ''*'' then (cg, package_symbols @ [symbol])
        else case mp_submodule_candidate mp target symbol of
               Some submodule \<Rightarrow>
                 if cg_name_to_index cg submodule \<noteq> None
                 then let binding = (if i < length (im_bindings import) then im_bindings import ! i else symbol)
                      in (add_qualified_edge mp src_idx src_module src_lang import submodule (attrs binding) cg, package_symbols)
                 else (cg, package_symbols @ [symbol])
             | None \<Rightarrow> (cg, package_symbols @ [symbol]))"

definition add_import_edges :: "'r profiles \<Rightarrow> node_index \<Rightarrow> string \<Rightarrow> language \<Rightarrow> string \<Rightarrow> import_context
    \<Rightarrow> (string \<rightharpoonup> string set) \<Rightarrow> codebase_graph \<Rightarrow> codebase_graph" where
  "add_import_edges prof src_idx src_module src_lang target import attrs cg =
     (let mp = prof src_lang in
      case fold (import_symbol mp src_idx src_module src_lang target import attrs)
             (enumerate 0 (im_imported_symbols import)) (cg, []) of
        (cg', package_symbols) \<Rightarrow>
          if im_imported_symbols import = []
          then let used = (case im_bindings import of b # _ \<Rightarrow> attrs b | [] \<Rightarrow> None)
               in add_qualified_edge mp src_idx src_module src_lang import target used cg'
          else if package_symbols \<noteq> []
          then add_package_edge mp src_idx src_module src_lang import target package_symbols cg'
          else cg')"

text \<open>One import of a file: its phase, then its target by path key or by the resolver, then the
  edges. \<open>resolvers\<close> is the state of each language's resolver, which exists for every language.\<close>

definition with_phase :: "import_context \<Rightarrow> import_phase \<Rightarrow> import_context" where
  "with_phase import phase = (if phase = im_phase import then import else import\<lparr>im_phase := phase\<rparr>)"

definition add_import :: "'r profiles \<Rightarrow> build_pass \<Rightarrow> node_index \<Rightarrow> string \<Rightarrow> string \<Rightarrow> (string \<rightharpoonup> string) \<Rightarrow> parsed_file
    \<Rightarrow> path \<Rightarrow> import_context \<Rightarrow> codebase_graph \<times> (language \<Rightarrow> 'r) \<Rightarrow> codebase_graph \<times> (language \<Rightarrow> 'r)" where
  "add_import prof bp src_idx src_module pkg scoped_names file root import st =
     (case st of (cg, resolvers) \<Rightarrow>
      let mp = prof (pf_language file);
          (phase, r1) = mp_edge_phase mp import (pf_path file) (resolvers (pf_language file));
          import' = with_phase import phase;
          (keys, r2) = mp_target_path_keys mp import' (pf_path file) r1;
          (target, r3) = (case find_map (bp_by_path_key bp) keys of
             Some name \<Rightarrow> (name, r2)
           | None \<Rightarrow>
               (case mp_resolve_target mp import' pkg (pf_path file) root r2 of (resolved, r') \<Rightarrow>
                  (case scoped_names resolved of Some name \<Rightarrow> name | None \<Rightarrow> resolved, r')))
      in (add_import_edges prof src_idx src_module (pf_language file) target import'
            (us_attribute_accesses (wk_usage (pf_walked file))) cg,
          resolvers(pf_language file := r3)))"

text \<open>All imports of one file. Indexing \<open>name_to_index\<close> panics where the name is missing.\<close>

definition add_file_imports :: "'r profiles \<Rightarrow> build_pass \<Rightarrow> (parsed_file \<times> module_identity) \<times> string option
    \<Rightarrow> codebase_graph \<times> (language \<Rightarrow> 'r) \<Rightarrow> (codebase_graph \<times> (language \<Rightarrow> 'r)) option" where
  "add_file_imports prof bp entry st = (case (entry, st) of (((file, identity), module), cg, resolvers) \<Rightarrow>
     (case module of
        None \<Rightarrow> Some (cg, resolvers)
      | Some module_name \<Rightarrow>
          (case cg_name_to_index cg module_name of
             None \<Rightarrow> None
           | Some src_idx \<Rightarrow>
               let mp = prof (pf_language file);
                   src_module = mn_module_name (cg_nodes cg ! src_idx);
                   is_index = mp_is_package_index mp (pf_path file);
                   pkg = mp_containing_package mp module_name is_index;
                   scoped_names = (case bp_by_scope bp (pf_language file, mi_root identity) of
                      Some names \<Rightarrow> names | None \<Rightarrow> Map.empty)
               in Some (fold (add_import prof bp src_idx src_module pkg scoped_names file (mi_root identity))
                    (sf_imports (wk_symbols (pf_walked file))) (cg, resolvers)))))"

definition build :: "'r profiles \<Rightarrow> (language \<Rightarrow> 'r) \<Rightarrow> parsed_file list \<Rightarrow> path list \<Rightarrow> codebase_graph option" where
  "build prof resolvers files configured_roots =
     (let identities = identities_for prof files configured_roots;
          bp = add_files prof files identities
      in map_option fst (fold_opt (add_file_imports prof bp) (zip (zip files identities) (bp_module_of bp))
           (bp_graph bp, resolvers)))"

section \<open>Growth of the graph\<close>

text \<open>An edge's context is that of its import, up to the fields the builder resolves.\<close>

definition stems_from :: "import_context \<Rightarrow> import_context \<Rightarrow> bool" where
  "stems_from import w \<longleftrightarrow> im_source_module w = im_source_module import \<and> im_bindings w = im_bindings import
     \<and> im_binding_phases w = im_binding_phases import \<and> im_line w = im_line import \<and> im_column w = im_column import
     \<and> im_is_inline w = im_is_inline import \<and> im_is_reexport w = im_is_reexport import
     \<and> im_enclosing_scope w = im_enclosing_scope import"

definition edge_from :: "codebase_graph \<Rightarrow> node_index \<Rightarrow> import_context \<Rightarrow> node_index \<times> node_index \<times> import_context \<Rightarrow> bool" where
  "edge_from g src import edge \<longleftrightarrow> (case edge of (s, t, w) \<Rightarrow> s = src \<and> t < length (cg_nodes g)
     \<and> mn_module_name (cg_nodes g ! t) = im_target_module w \<and> stems_from import w)"

text \<open>\<open>grows P g g'\<close>: external nodes, their index entries and edges with \<open>P\<close> were added.\<close>

definition grows :: "(codebase_graph \<Rightarrow> node_index \<times> node_index \<times> import_context \<Rightarrow> bool) \<Rightarrow> codebase_graph \<Rightarrow> codebase_graph \<Rightarrow> bool" where
  "grows P g g' \<longleftrightarrow> graph_wf g' \<and> (\<exists>ns. cg_nodes g' = cg_nodes g @ ns \<and> list_all mn_is_external ns)
     \<and> (\<forall>name n. cg_name_to_index g name = Some n \<longrightarrow> cg_name_to_index g' name = Some n)
     \<and> (\<exists>es. cg_edges g' = cg_edges g @ es \<and> list_all (P g') es)"

text \<open>A property of edges that later growth keeps.\<close>

definition stable :: "(codebase_graph \<Rightarrow> node_index \<times> node_index \<times> import_context \<Rightarrow> bool) \<Rightarrow> bool" where
  "stable P \<longleftrightarrow> (\<forall>g g' ns e. cg_nodes g' = cg_nodes g @ ns \<longrightarrow> P g e \<longrightarrow> P g' e)"

lemma stable_edge_from [simp]: "stable (\<lambda>g. edge_from g src import)"
  by (auto simp: stable_def edge_from_def nth_append)

lemma grows_refl: "graph_wf g \<Longrightarrow> grows P g g"
  by (simp add: grows_def)

lemma grows_wf: "grows P g g' \<Longrightarrow> graph_wf g'"
  by (simp add: grows_def)

lemma grows_nodes:
  assumes "grows P g g'"
  obtains ns where "cg_nodes g' = cg_nodes g @ ns" and "list_all mn_is_external ns"
  using assms by (auto simp: grows_def)

lemma grows_name: "grows P g g' \<Longrightarrow> cg_name_to_index g name = Some n \<Longrightarrow> cg_name_to_index g' name = Some n"
  by (simp add: grows_def)

lemma grows_node: "grows P g g' \<Longrightarrow> n < length (cg_nodes g) \<Longrightarrow> n < length (cg_nodes g') \<and> cg_nodes g' ! n = cg_nodes g ! n"
  by (auto simp: grows_def nth_append)

lemma grows_trans:
  assumes ab: "grows P a b" and bc: "grows P b c" and st: "stable P"
  shows "grows P a c"
proof -
  obtain ns es where ns: "cg_nodes b = cg_nodes a @ ns" "list_all mn_is_external ns"
    and es: "cg_edges b = cg_edges a @ es" "list_all (P b) es" using ab by (auto simp: grows_def)
  obtain ms fs where ms: "cg_nodes c = cg_nodes b @ ms" "list_all mn_is_external ms"
    and fs: "cg_edges c = cg_edges b @ fs" "list_all (P c) fs" using bc by (auto simp: grows_def)
  have "list_all (P c) es" using es(2) st ms(1) unfolding stable_def list_all_iff by blast
  moreover have "cg_nodes c = cg_nodes a @ (ns @ ms)" "cg_edges c = cg_edges a @ (es @ fs)"
    using ns ms es fs by simp_all
  moreover have "cg_name_to_index c name = Some n" if "cg_name_to_index a name = Some n" for name n
    using that ab bc by (simp add: grows_def)
  ultimately show ?thesis using ns(2) ms(2) fs(2) grows_wf [OF bc] unfolding grows_def
    by (metis list_all_append)
qed

lemma grows_mono: "grows P g g' \<Longrightarrow> (\<And>e. P g' e \<Longrightarrow> Q g' e) \<Longrightarrow> grows Q g g'"
  by (auto simp: grows_def list_all_iff)

lemma add_named_node_wf:
  assumes "graph_wf g" and "cg_name_to_index g (mn_module_name m) = None"
  shows "graph_wf (add_named_node m g)"
proof -
  let ?g = "add_named_node m g"
  have ends: "edge_ends ?g = edge_ends g" by (simp add: edge_ends_def add_named_node_def)
  have ix: "cg_name_to_index ?g = (cg_name_to_index g)(mn_module_name m \<mapsto> length (cg_nodes g))"
    and nodes: "cg_nodes ?g = cg_nodes g @ [m]" by (simp_all add: add_named_node_def)
  have len: "length (cg_nodes ?g) = Suc (length (cg_nodes g))" by (simp add: nodes)
  have names: "i < length (cg_nodes ?g) \<and> mn_module_name (cg_nodes ?g ! i) = name"
    if "cg_name_to_index ?g name = Some i" for name i
  proof (cases "name = mn_module_name m")
    case True
    then have "i = length (cg_nodes g)" using that by (simp add: ix)
    then show ?thesis using True by (simp add: nodes)
  next
    case False
    then have "cg_name_to_index g name = Some i" using that by (simp add: ix)
    then have "i < length (cg_nodes g) \<and> mn_module_name (cg_nodes g ! i) = name"
      using assms(1) unfolding graph_wf_def by blast
    then show ?thesis by (simp add: nodes nth_append)
  qed
  have indexed: "cg_name_to_index ?g (mn_module_name (cg_nodes ?g ! i)) = Some i" if "i < length (cg_nodes ?g)" for i
  proof (cases "i = length (cg_nodes g)")
    case True
    then show ?thesis by (simp add: ix nodes)
  next
    case False
    then have "i < length (cg_nodes g)" using that by (simp add: len)
    then have i: "cg_name_to_index g (mn_module_name (cg_nodes g ! i)) = Some i"
      using assms(1) unfolding graph_wf_def by blast
    then have "mn_module_name (cg_nodes g ! i) \<noteq> mn_module_name m" using assms(2) by force
    then show ?thesis using i \<open>i < length (cg_nodes g)\<close> by (simp add: ix nodes nth_append)
  qed
  have "edge_ends g \<subseteq> {..<length (cg_nodes ?g)}" using assms(1) len unfolding graph_wf_def by auto
  then show ?thesis unfolding graph_wf_def ends using names indexed by blast
qed

lemma node_for_target_grows:
  assumes "graph_wf g" and "node_for_target lang target g = (dst, g')"
  shows "grows P g g' \<and> dst < length (cg_nodes g') \<and> mn_module_name (cg_nodes g' ! dst) = target
    \<and> cg_edges g' = cg_edges g"
proof (cases "cg_name_to_index g target")
  case None
  then have g': "g' = add_named_node (external_node lang target) g" "dst = length (cg_nodes g)"
    using assms(2) by (simp_all add: node_for_target_def)
  have "graph_wf g'" unfolding g' using assms(1) None by (intro add_named_node_wf) (simp_all add: external_node_def)
  then show ?thesis using None by (auto simp: g' grows_def add_named_node_def external_node_def)
next
  case (Some idx)
  then show ?thesis using assms by (auto simp: node_for_target_def graph_wf_def grows_refl)
qed

lemma add_edge_grows:
  assumes wf: "graph_wf g" and "src < length (cg_nodes g)" and "dst < length (cg_nodes g)"
    and "mn_module_name (cg_nodes g ! dst) = im_target_module ctx" and "stems_from import ctx"
  shows "grows (\<lambda>g. edge_from g src import) g (add_edge mp src src_module dst ctx g)"
proof -
  have "edge_ends (add_edge mp src src_module dst ctx g) = insert src (insert dst (edge_ends g))"
    by (auto simp: edge_ends_def add_edge_def)
  then have "graph_wf (add_edge mp src src_module dst ctx g)"
    using assms(1-3) unfolding graph_wf_def by (simp add: add_edge_def)
  moreover have "stems_from import (ctx\<lparr>im_is_module_decl := b\<rparr>)" for b
    using assms(5) by (simp add: stems_from_def)
  ultimately show ?thesis using assms(3,4) by (simp add: grows_def add_edge_def edge_from_def)
qed

lemma target_edge_grows:
  assumes wf: "graph_wf g" and src: "src < length (cg_nodes g)"
    and nt: "node_for_target lang target g = (dst, g')"
    and "im_target_module ctx = target" and "stems_from import ctx"
  shows "grows (\<lambda>g. edge_from g src import) g (add_edge mp src src_module dst ctx g')
    \<and> length (cg_edges g) < length (cg_edges (add_edge mp src src_module dst ctx g'))"
proof -
  note n = node_for_target_grows [OF wf nt, of "\<lambda>g. edge_from g src import"]
  have "src < length (cg_nodes g')" using n grows_node src by blast
  then have "grows (\<lambda>g. edge_from g src import) g' (add_edge mp src src_module dst ctx g')"
    using n assms(4,5) grows_wf by (intro add_edge_grows) auto
  then show ?thesis using n grows_trans stable_edge_from by (auto simp: add_edge_def)
qed

lemma qualified_edge_grows:
  assumes "graph_wf g" and "src < length (cg_nodes g)"
  shows "grows (\<lambda>g. edge_from g src import) g (add_qualified_edge mp src src_module lang import target used g)
    \<and> length (cg_edges g) < length (cg_edges (add_qualified_edge mp src src_module lang import target used g))"
proof -
  obtain dst g' where nt: "node_for_target lang target g = (dst, g')" by force
  show ?thesis unfolding add_qualified_edge_def nt prod.case
    by (rule target_edge_grows [OF assms nt]) (simp_all add: qualified_import_def stems_from_def)
qed

lemma package_edge_grows:
  assumes "graph_wf g" and "src < length (cg_nodes g)"
  shows "grows (\<lambda>g. edge_from g src import) g (add_package_edge mp src src_module lang import target syms g)
    \<and> length (cg_edges g) < length (cg_edges (add_package_edge mp src src_module lang import target syms g))"
proof -
  obtain dst g' where nt: "node_for_target lang target g = (dst, g')" by force
  show ?thesis unfolding add_package_edge_def nt prod.case
    by (rule target_edge_grows [OF assms nt]) (simp_all add: stems_from_def)
qed

lemmas target_edge_simps =
  qualified_edge_grows [THEN conjunct1] qualified_edge_grows [THEN conjunct2]
  package_edge_grows [THEN conjunct1] package_edge_grows [THEN conjunct2]

lemma import_symbol_grows:
  assumes "graph_wf g" and "src < length (cg_nodes g)"
    and "import_symbol mp src src_module lang target import attrs (i, symbol) (g, pkg) = (g', pkg')"
  shows "grows (\<lambda>g. edge_from g src import) g g'
    \<and> (pkg' = pkg @ [symbol] \<or> pkg' = pkg \<and> length (cg_edges g) < length (cg_edges g'))"
  using assms(1,3)
  by (auto simp: import_symbol_def Let_def target_edge_simps [OF assms(1,2)] intro: grows_refl
      split: if_splits option.splits)

lemma grows_length: "grows P g g' \<Longrightarrow> length (cg_edges g) \<le> length (cg_edges g')"
  by (auto simp: grows_def)

lemma grows_src: "grows P g g' \<Longrightarrow> src < length (cg_nodes g) \<Longrightarrow> src < length (cg_nodes g')"
  by (auto simp: grows_def)

lemma import_symbols_grow:
  assumes "graph_wf g" and "src < length (cg_nodes g)"
    and "fold (import_symbol mp src src_module lang target import attrs) entries (g, pkg) = (g', pkg')"
  shows "grows (\<lambda>g. edge_from g src import) g g'
    \<and> (pkg' \<noteq> [] \<or> entries = [] \<or> length (cg_edges g) < length (cg_edges g')) \<and> (pkg \<noteq> [] \<longrightarrow> pkg' \<noteq> [])"
  using assms
proof (induction entries arbitrary: g pkg)
  case Nil
  then show ?case by (auto simp: grows_refl)
next
  case (Cons entry entries)
  obtain i symbol where entry: "entry = (i, symbol)" by force
  obtain h pkg1 where h: "import_symbol mp src src_module lang target import attrs (i, symbol) (g, pkg) = (h, pkg1)"
    by force
  note one = import_symbol_grows [OF Cons.prems(1,2) h]
  then have gh: "grows (\<lambda>g. edge_from g src import) g h" by blast
  have rest: "fold (import_symbol mp src src_module lang target import attrs) entries (h, pkg1) = (g', pkg')"
    using Cons.prems(3) h entry by simp
  note ih = Cons.IH [OF grows_wf [OF gh] grows_src [OF gh Cons.prems(2)] rest]
  have "grows (\<lambda>g. edge_from g src import) g g'" using gh ih grows_trans stable_edge_from by blast
  moreover have "pkg' \<noteq> [] \<or> length (cg_edges g) < length (cg_edges g')"
    using one ih grows_length [of _ h g'] by (metis append_is_Nil_conv less_le_trans list.distinct(1))
  ultimately show ?case using one ih by auto
qed

text \<open>Every import adds at least one edge of its own, and only such edges.\<close>

lemma add_import_edges_grows:
  assumes "graph_wf g" and "src < length (cg_nodes g)"
  shows "grows (\<lambda>g. edge_from g src import) g (add_import_edges prof src src_module lang target import attrs g)
    \<and> length (cg_edges g) < length (cg_edges (add_import_edges prof src src_module lang target import attrs g))"
proof -
  obtain h pkg where h: "fold (import_symbol (prof lang) src src_module lang target import attrs)
      (enumerate 0 (im_imported_symbols import)) (g, []) = (h, pkg)" by force
  note loop = import_symbols_grow [OF assms h]
  then have gh: "grows (\<lambda>g. edge_from g src import) g h" by blast
  note wf = grows_wf [OF gh] and src = grows_src [OF gh assms(2)]
  note len = grows_length [OF gh]
  show ?thesis
  proof (cases "im_imported_symbols import = []")
    case True
    then have "h = g" using h by (simp add: enumerate_eq_zip)
    then show ?thesis using True h
      by (simp add: add_import_edges_def Let_def target_edge_simps [OF assms])
  next
    case symbols: False
    show ?thesis
    proof (cases "pkg = []")
      case True
      have "enumerate 0 (im_imported_symbols import) \<noteq> []" using symbols by (simp add: enumerate_eq_zip)
      then have "length (cg_edges g) < length (cg_edges h)" using loop True by simp
      moreover have "add_import_edges prof src src_module lang target import attrs g = h"
        using symbols True by (simp add: add_import_edges_def h Let_def)
      ultimately show ?thesis using gh by simp
    next
      case False
      have eq: "add_import_edges prof src src_module lang target import attrs g
          = add_package_edge (prof lang) src src_module lang import target pkg h"
        using symbols False by (simp add: add_import_edges_def h Let_def)
      show ?thesis unfolding eq
        by (rule conjI [OF grows_trans [OF gh target_edge_simps(3) [OF wf src] stable_edge_from]
              le_less_trans [OF len target_edge_simps(4) [OF wf src]]])
    qed
  qed
qed

lemma stems_with_phase: "stems_from (with_phase import phase) w \<Longrightarrow> stems_from import w"
  by (auto simp: stems_from_def with_phase_def)

lemma add_import_grows:
  assumes "graph_wf g" and "src < length (cg_nodes g)"
    and "add_import prof bp src src_module pkg names file root import (g, rs) = (g', rs')"
  shows "grows (\<lambda>g. edge_from g src import) g g' \<and> length (cg_edges g) < length (cg_edges g')"
proof -
  obtain phase target where g': "g' = add_import_edges prof src src_module (pf_language file) target
      (with_phase import phase) (us_attribute_accesses (wk_usage (pf_walked file))) g"
    using assms(3) by (auto simp: add_import_def Let_def split: prod.splits)
  have "edge_from h src import e" if "edge_from h src (with_phase import phase) e" for h e
    using that by (auto simp: edge_from_def dest: stems_with_phase)
  then show ?thesis
    using add_import_edges_grows [OF assms(1,2)] unfolding g' by (blast intro: grows_mono)
qed

text \<open>The edges of one file: all of them from its node and one of its imports, at least one for
  each import.\<close>

definition edge_of_file :: "parsed_file \<Rightarrow> node_index \<Rightarrow> codebase_graph \<Rightarrow> node_index \<times> node_index \<times> import_context \<Rightarrow> bool" where
  "edge_of_file file src g e \<longleftrightarrow> (\<exists>import \<in> set (sf_imports (wk_symbols (pf_walked file))). edge_from g src import e)"

lemma stable_edge_of_file [simp]: "stable (edge_of_file file src)"
  using stable_edge_from unfolding stable_def edge_of_file_def by blast

lemma grows_new_edge:
  assumes "grows P g g'" and "length (cg_edges g) < length (cg_edges g')"
  shows "\<exists>e \<in> set (cg_edges g'). P g' e"
proof -
  obtain es where "cg_edges g' = cg_edges g @ es" "list_all (P g') es" using assms(1) by (auto simp: grows_def)
  then show ?thesis using assms(2) by (cases es) auto
qed

lemma grows_edge: "grows P g g' \<Longrightarrow> stable Q \<Longrightarrow> e \<in> set (cg_edges g) \<Longrightarrow> Q g e \<Longrightarrow> e \<in> set (cg_edges g') \<and> Q g' e"
  unfolding grows_def stable_def by (metis Un_iff set_append)

lemma add_imports_grow:
  assumes "graph_wf g" and "src < length (cg_nodes g)"
    and "set ims \<subseteq> set (sf_imports (wk_symbols (pf_walked file)))"
    and "fold (add_import prof bp src src_module pkg names file root) ims (g, rs) = (g', rs')"
  shows "grows (edge_of_file file src) g g'
    \<and> (\<forall>import \<in> set ims. \<exists>e \<in> set (cg_edges g'). edge_from g' src import e)"
  using assms
proof (induction ims arbitrary: g rs)
  case Nil
  then show ?case by (auto simp: grows_refl)
next
  case (Cons import ims)
  obtain h rs1 where h: "add_import prof bp src src_module pkg names file root import (g, rs) = (h, rs1)" by force
  note one = add_import_grows [OF Cons.prems(1,2) h]
  then have gh: "grows (\<lambda>g. edge_from g src import) g h" by blast
  have gh': "grows (edge_of_file file src) g h"
    by (rule grows_mono [OF gh]) (use Cons.prems(3) in \<open>auto simp: edge_of_file_def\<close>)
  have rest: "fold (add_import prof bp src src_module pkg names file root) ims (h, rs1) = (g', rs')"
    using Cons.prems(4) h by simp
  note ih = Cons.IH [OF grows_wf [OF gh] grows_src [OF gh Cons.prems(2)] _ rest]
  have hg: "grows (edge_of_file file src) h g'" using ih Cons.prems(3) by simp
  obtain e where "e \<in> set (cg_edges h)" "edge_from h src import e" using grows_new_edge [OF gh] one by blast
  then have "\<exists>e \<in> set (cg_edges g'). edge_from g' src import e"
    using grows_edge [OF hg stable_edge_from] by blast
  then show ?case using grows_trans [OF gh' hg stable_edge_of_file] ih Cons.prems(3) by simp
qed

text \<open>Pass 1: every node so far is the node of a file seen, in the order of the files; a file with
  no node shares its name with one that has.\<close>

definition files_indexed :: "parsed_file list \<Rightarrow> module_identity list \<Rightarrow> nat \<Rightarrow> build_pass \<Rightarrow> bool" where
  "files_indexed files ids k bp \<longleftrightarrow> graph_wf (bp_graph bp) \<and> cg_edges (bp_graph bp) = [] \<and> length (bp_module_of bp) = k
     \<and> (\<exists>ixs. cg_nodes (bp_graph bp) = map (\<lambda>i. file_node i (files ! i) (ids ! i)) ixs \<and> distinct ixs
           \<and> set ixs = {i. i < k \<and> bp_module_of bp ! i \<noteq> None})
     \<and> (\<forall>i < k. cg_name_to_index (bp_graph bp) (mi_name (ids ! i)) \<noteq> None
           \<and> bp_module_of bp ! i \<in> {None, Some (mi_name (ids ! i))})"

lemma files_indexedI:
  assumes "graph_wf (bp_graph bp)" and "cg_edges (bp_graph bp) = []" and "length (bp_module_of bp) = k"
    and "cg_nodes (bp_graph bp) = map (\<lambda>i. file_node i (files ! i) (ids ! i)) ixs" and "distinct ixs"
    and "set ixs = {i. i < k \<and> bp_module_of bp ! i \<noteq> None}"
    and "\<And>i. i < k \<Longrightarrow> cg_name_to_index (bp_graph bp) (mi_name (ids ! i)) \<noteq> None
      \<and> bp_module_of bp ! i \<in> {None, Some (mi_name (ids ! i))}"
  shows "files_indexed files ids k bp"
  unfolding files_indexed_def using assms(1-3) by (intro conjI exI [of _ ixs] allI impI assms(4-6) assms(7))

lemma add_file_indexed:
  assumes "files_indexed files ids k bp" and "k < length files"
  shows "files_indexed files ids (Suc k) (add_file prof (k, files ! k, ids ! k) bp)"
proof -
  obtain ixs where wf: "graph_wf (bp_graph bp)" and es: "cg_edges (bp_graph bp) = []" and len: "length (bp_module_of bp) = k"
    and nodes: "cg_nodes (bp_graph bp) = map (\<lambda>i. file_node i (files ! i) (ids ! i)) ixs" and dist: "distinct ixs"
    and set_is: "set ixs = {i. i < k \<and> bp_module_of bp ! i \<noteq> None}"
    and names: "\<And>i. i < k \<Longrightarrow> cg_name_to_index (bp_graph bp) (mi_name (ids ! i)) \<noteq> None
           \<and> bp_module_of bp ! i \<in> {None, Some (mi_name (ids ! i))}"
    using assms(1) unfolding files_indexed_def by blast
  show ?thesis
  proof (cases "cg_name_to_index (bp_graph bp) (mi_name (ids ! k)) = None")
    case False
    let ?bp = "bp\<lparr>bp_module_of := bp_module_of bp @ [None]\<rparr>"
    have "add_file prof (k, files ! k, ids ! k) bp = ?bp" using False by (simp add: add_file_def)
    moreover have "set ixs = {i. i < Suc k \<and> bp_module_of ?bp ! i \<noteq> None}"
    proof (intro set_eqI)
      show "i \<in> set ixs \<longleftrightarrow> i \<in> {i. i < Suc k \<and> bp_module_of ?bp ! i \<noteq> None}" for i
        unfolding set_is using len by (cases "i < k"; cases "i = k") (auto simp: nth_append)
    qed
    moreover have "cg_name_to_index (bp_graph ?bp) (mi_name (ids ! i)) \<noteq> None
        \<and> bp_module_of ?bp ! i \<in> {None, Some (mi_name (ids ! i))}" if "i < Suc k" for i
      using that names [of i] False len by (cases "i = k") (auto simp: nth_append)
    moreover have "length (bp_module_of ?bp) = Suc k" "bp_graph ?bp = bp_graph bp" using len by simp_all
    ultimately show ?thesis using wf es nodes dist
      by (intro files_indexedI [where ixs = ixs]) (simp_all only: simp_thms)
  next
    case True
    let ?bp = "add_file prof (k, files ! k, ids ! k) bp"
    have g: "bp_graph ?bp = add_named_node (file_node k (files ! k) (ids ! k)) (bp_graph bp)"
      and m: "bp_module_of ?bp = bp_module_of bp @ [Some (mi_name (ids ! k))]"
      using True by (simp_all add: add_file_def Let_def)
    have "graph_wf (bp_graph ?bp)" unfolding g using wf True by (intro add_named_node_wf) (simp_all add: file_node_def)
    moreover have "cg_nodes (bp_graph ?bp) = map (\<lambda>i. file_node i (files ! i) (ids ! i)) (ixs @ [k])"
      by (simp add: g nodes add_named_node_def)
    moreover have "distinct (ixs @ [k])" using dist set_is by auto
    moreover have "set (ixs @ [k]) = {i. i < Suc k \<and> bp_module_of ?bp ! i \<noteq> None}"
    proof (intro set_eqI)
      show "i \<in> set (ixs @ [k]) \<longleftrightarrow> i \<in> {i. i < Suc k \<and> bp_module_of ?bp ! i \<noteq> None}" for i
        unfolding set_append set_is m using len by (cases "i < k"; cases "i = k") (auto simp: nth_append)
    qed
    moreover have "cg_name_to_index (bp_graph ?bp) (mi_name (ids ! i)) \<noteq> None
        \<and> bp_module_of ?bp ! i \<in> {None, Some (mi_name (ids ! i))}" if "i < Suc k" for i
      using that names [of i] len by (cases "i = k") (auto simp: g m nth_append add_named_node_def file_node_def)
    moreover have "length (bp_module_of ?bp) = Suc k" "cg_edges (bp_graph ?bp) = []"
      using len es by (simp_all add: m g add_named_node_def)
    ultimately show ?thesis by (intro files_indexedI [where ixs = "ixs @ [k]"]) (simp_all only: simp_thms)
  qed
qed

lemma add_files_indexed:
  assumes "length ids = length files"
  shows "files_indexed files ids (length files) (add_files prof files ids)"
proof -
  have "files_indexed files ids k (fold (add_file prof) (take k (zip [0..<length files] (zip files ids)))
      \<lparr>bp_graph = empty_graph, bp_module_of = [], bp_by_path_key = Map.empty, bp_by_scope = Map.empty\<rparr>)"
    if "k \<le> length files" for k
    using that
  proof (induction k)
    case 0
    then show ?case by (auto simp: files_indexed_def empty_graph_def graph_wf_def edge_ends_def)
  next
    case (Suc k)
    then show ?case using assms add_file_indexed [of files ids k] by (simp add: take_Suc_conv_app_nth)
  qed
  from this [of "length files"] show ?thesis using assms by (simp add: add_files_def)
qed

section \<open>The built graph\<close>

definition built_edge :: "parsed_file list \<Rightarrow> module_identity list \<Rightarrow> codebase_graph \<Rightarrow> node_index \<times> node_index \<times> import_context \<Rightarrow> bool" where
  "built_edge files ids g e \<longleftrightarrow> (\<exists>i < length files. fst e < length (cg_nodes g)
     \<and> cg_nodes g ! fst e = file_node i (files ! i) (ids ! i) \<and> edge_of_file (files ! i) (fst e) g e)"

lemma stable_built_edge [simp]: "stable (built_edge files ids)"
proof -
  have "edge_of_file fl src g' e" if "edge_of_file fl src g e" "cg_nodes g' = cg_nodes g @ ns" for fl src g g' ns e
    using that stable_edge_of_file unfolding stable_def by blast
  then show ?thesis unfolding stable_def built_edge_def by (metis nth_append length_append trans_less_add1)
qed

definition node_of_file :: "parsed_file list \<Rightarrow> module_identity list \<Rightarrow> parsed_file \<Rightarrow> string \<Rightarrow> codebase_graph \<Rightarrow> node_index \<Rightarrow> bool" where
  "node_of_file files ids file name g n \<longleftrightarrow> cg_name_to_index g name = Some n \<and> n < length (cg_nodes g)
     \<and> (\<exists>i < length files. file = files ! i \<and> cg_nodes g ! n = file_node i file (ids ! i))"

lemma node_of_file_grows: "grows P g g' \<Longrightarrow> node_of_file files ids file name g n \<Longrightarrow> node_of_file files ids file name g' n"
  using grows_node [of P g g' n] grows_name [of P g g' name n] unfolding node_of_file_def by auto

lemma add_file_imports_grows:
  assumes wf: "graph_wf g" and n: "node_of_file files ids file name g n"
  shows "\<exists>g' rs'. add_file_imports prof bp ((file, identity), Some name) (g, rs) = Some (g', rs')
    \<and> grows (built_edge files ids) g g'
    \<and> (\<forall>import \<in> set (sf_imports (wk_symbols (pf_walked file))). \<exists>e \<in> set (cg_edges g'). edge_from g' n import e)"
proof -
  let ?ims = "sf_imports (wk_symbols (pf_walked file))"
  from n have ix: "cg_name_to_index g name = Some n" and len: "n < length (cg_nodes g)" by (auto simp: node_of_file_def)
  obtain src_module pkg names where run: "add_file_imports prof bp ((file, identity), Some name) (g, rs)
      = Some (fold (add_import prof bp n src_module pkg names file (mi_root identity)) ?ims (g, rs))"
    by (simp add: add_file_imports_def ix Let_def)
  obtain g' rs' where f: "fold (add_import prof bp n src_module pkg names file (mi_root identity)) ?ims (g, rs) = (g', rs')"
    by force
  from add_imports_grow [OF wf len subset_refl f]
  have gg: "grows (edge_of_file file n) g g'"
    and es: "\<forall>import \<in> set ?ims. \<exists>e \<in> set (cg_edges g'). edge_from g' n import e" by auto
  have n': "node_of_file files ids file name g' n" using node_of_file_grows [OF gg n] .
  have "built_edge files ids g' e" if "edge_of_file file n g' e" for e
  proof -
    have "fst e = n" using that by (cases e) (auto simp: edge_of_file_def edge_from_def)
    then show ?thesis using n' that by (auto simp: node_of_file_def built_edge_def)
  qed
  then show ?thesis using grows_mono [OF gg] run f es by auto
qed

definition entry_ok :: "parsed_file list \<Rightarrow> module_identity list \<Rightarrow> codebase_graph \<Rightarrow> (parsed_file \<times> module_identity) \<times> string option \<Rightarrow> bool" where
  "entry_ok files ids g entry \<longleftrightarrow>
     (\<forall>name. snd entry = Some name \<longrightarrow> (\<exists>n. node_of_file files ids (fst (fst entry)) name g n))"

lemma add_all_imports_grow:
  assumes "graph_wf g" and "list_all (entry_ok files ids g) entries"
  shows "\<exists>g' rs'. fold_opt (add_file_imports prof bp) entries (g, rs) = Some (g', rs') \<and> grows (built_edge files ids) g g'
    \<and> (\<forall>file identity name n. ((file, identity), Some name) \<in> set entries \<longrightarrow> cg_name_to_index g name = Some n \<longrightarrow>
         (\<forall>import \<in> set (sf_imports (wk_symbols (pf_walked file))). \<exists>e \<in> set (cg_edges g'). edge_from g' n import e))"
  using assms
proof (induction entries arbitrary: g rs)
  case Nil
  then show ?case by (simp add: grows_refl)
next
  case (Cons entry entries)
  obtain fl identity m where entry: "entry = ((fl, identity), m)" by (metis surj_pair)
  show ?case
  proof (cases m)
    case None
    then have "add_file_imports prof bp entry (g, rs) = Some (g, rs)" by (simp add: entry add_file_imports_def)
    then show ?thesis using Cons.IH [OF Cons.prems(1), of rs] Cons.prems(2) None entry by auto
  next
    case (Some name)
    then obtain n where n: "node_of_file files ids fl name g n" using Cons.prems(2) entry by (auto simp: entry_ok_def)
    from add_file_imports_grows [OF Cons.prems(1) n, of prof bp identity rs] obtain h rs1
      where h: "add_file_imports prof bp ((fl, identity), Some name) (g, rs) = Some (h, rs1)"
        and gh: "grows (built_edge files ids) g h"
        and es: "\<forall>import \<in> set (sf_imports (wk_symbols (pf_walked fl))). \<exists>e \<in> set (cg_edges h). edge_from h n import e"
      by blast
    have "list_all (entry_ok files ids h) entries"
      using Cons.prems(2) node_of_file_grows [OF gh] unfolding entry_ok_def list_all_iff by (meson list.set_intros(2))
    from Cons.IH [OF grows_wf [OF gh] this, where rs = rs1] obtain g' rs'
      where g': "fold_opt (add_file_imports prof bp) entries (h, rs1) = Some (g', rs')"
        and hg: "grows (built_edge files ids) h g'"
        and rest: "\<And>f idt nm k import. ((f, idt), Some nm) \<in> set entries \<Longrightarrow> cg_name_to_index h nm = Some k \<Longrightarrow>
          import \<in> set (sf_imports (wk_symbols (pf_walked f))) \<Longrightarrow> \<exists>e \<in> set (cg_edges g'). edge_from g' k import e"
      by blast
    have mine: "\<exists>e \<in> set (cg_edges g'). edge_from g' n import e" if "import \<in> set (sf_imports (wk_symbols (pf_walked fl)))" for import
      using es that grows_edge [OF hg stable_edge_from] by blast
    have "cg_name_to_index g name = Some n" using n by (simp add: node_of_file_def)
    then show ?thesis
      using h g' Some entry grows_trans [OF gh hg stable_built_edge] mine rest grows_name [OF gh] by auto
  qed
qed

text \<open>What the built graph holds; the properties below restate it part by part.\<close>

lemma internal_prefix:
  assumes "cg_nodes g = xs @ ns" and "list_all mn_is_external ns" and "n < length (cg_nodes g)"
    and "\<not> mn_is_external (cg_nodes g ! n)"
  shows "n < length xs"
proof (rule ccontr)
  assume "\<not> n < length xs"
  then have "cg_nodes g ! n = ns ! (n - length xs)" "n - length xs < length ns" using assms(1,3) by (auto simp: nth_append)
  then show False using assms(2,4) by (simp add: list_all_length)
qed

lemma build_result:
  fixes files :: "parsed_file list" and prof :: "'r profiles" and roots :: "path list"
  defines "ids \<equiv> identities_for prof files roots"
  shows "\<exists>g ixs. build prof rs files roots = Some g \<and> graph_wf g
    \<and> (\<exists>ns. cg_nodes g = map (\<lambda>i. file_node i (files ! i) (ids ! i)) ixs @ ns \<and> list_all mn_is_external ns)
    \<and> distinct ixs \<and> set ixs \<subseteq> {..<length files}
    \<and> (\<forall>i < length files. \<exists>n. n < length ixs \<and> cg_name_to_index g (mi_name (ids ! i)) = Some n)
    \<and> list_all (built_edge files ids g) (cg_edges g)
    \<and> (\<forall>n < length ixs. \<forall>import \<in> set (sf_imports (wk_symbols (pf_walked (files ! (ixs ! n))))).
         \<exists>e \<in> set (cg_edges g). edge_from g n import e)"
proof -
  let ?node = "\<lambda>i. file_node i (files ! i) (ids ! i)"
  define bp where "bp = add_files prof files ids"
  have ids: "length ids = length files" by (simp add: ids_def)
  then have inv: "files_indexed files ids (length files) bp" unfolding bp_def by (rule add_files_indexed)
  then obtain ixs where wf: "graph_wf (bp_graph bp)" and es: "cg_edges (bp_graph bp) = []"
    and len: "length (bp_module_of bp) = length files" and nodes: "cg_nodes (bp_graph bp) = map ?node ixs"
    and dist: "distinct ixs" and set_ixs: "set ixs = {i. i < length files \<and> bp_module_of bp ! i \<noteq> None}"
    and names: "\<And>i. i < length files \<Longrightarrow> cg_name_to_index (bp_graph bp) (mi_name (ids ! i)) \<noteq> None
      \<and> bp_module_of bp ! i \<in> {None, Some (mi_name (ids ! i))}"
    unfolding files_indexed_def by blast
  let ?entries = "zip (zip files ids) (bp_module_of bp)"
  have at: "cg_name_to_index (bp_graph bp) (mi_name (ids ! (ixs ! n))) = Some n" if "n < length ixs" for n
  proof -
    have "mn_module_name (cg_nodes (bp_graph bp) ! n) = mi_name (ids ! (ixs ! n))"
      using that by (simp add: nodes file_node_def)
    then show ?thesis using wf that by (auto simp: graph_wf_def nodes)
  qed
  have entry: "\<exists>n < length ixs. fl = files ! (ixs ! n) \<and> name = mi_name (ids ! (ixs ! n))"
    if e: "((fl, idt), Some name) \<in> set ?entries" for fl idt name
  proof -
    obtain i where i: "i < length files" "fl = files ! i" "bp_module_of bp ! i = Some name"
      using e ids len unfolding in_set_zip by auto
    then have "i \<in> set ixs" "name = mi_name (ids ! i)" using set_ixs names [OF i(1)] by auto
    then show ?thesis using i(2) by (auto simp: in_set_conv_nth)
  qed
  have ok: "\<exists>n. node_of_file files ids fl name (bp_graph bp) n" if e: "((fl, idt), Some name) \<in> set ?entries" for fl idt name
  proof -
    obtain n where n: "n < length ixs" "fl = files ! (ixs ! n)" "name = mi_name (ids ! (ixs ! n))" using entry [OF e] by blast
    moreover have "ixs ! n < length files" using n(1) set_ixs nth_mem by blast
    ultimately show ?thesis using at [OF n(1)] by (auto simp: node_of_file_def nodes intro!: exI [of _ n] exI [of _ "ixs ! n"])
  qed
  have "list_all (entry_ok files ids (bp_graph bp)) ?entries"
    unfolding list_all_iff entry_ok_def
  proof (intro ballI allI impI)
    fix entry name
    assume "entry \<in> set ?entries" and "snd entry = Some name"
    then show "\<exists>n. node_of_file files ids (fst (fst entry)) name (bp_graph bp) n"
      using ok [of "fst (fst entry)" "snd (fst entry)" name] by (metis prod.collapse)
  qed
  from add_all_imports_grow [OF wf this, where rs = rs and prof = prof and bp = bp] obtain g rs'
    where run: "fold_opt (add_file_imports prof bp) ?entries (bp_graph bp, rs) = Some (g, rs')"
      and gg: "grows (built_edge files ids) (bp_graph bp) g"
      and imps: "\<And>fl idt name n import. ((fl, idt), Some name) \<in> set ?entries \<Longrightarrow> cg_name_to_index (bp_graph bp) name = Some n
        \<Longrightarrow> import \<in> set (sf_imports (wk_symbols (pf_walked fl))) \<Longrightarrow> \<exists>e \<in> set (cg_edges g). edge_from g n import e"
    by blast
  have "build prof rs files roots = Some g" using run by (simp add: build_def Let_def bp_def ids_def)
  moreover have "\<exists>ns. cg_nodes g = map ?node ixs @ ns \<and> list_all mn_is_external ns"
    using gg nodes unfolding grows_def by metis
  moreover have "\<exists>n. n < length ixs \<and> cg_name_to_index g (mi_name (ids ! i)) = Some n" if i: "i < length files" for i
  proof -
    obtain n where n: "cg_name_to_index (bp_graph bp) (mi_name (ids ! i)) = Some n" using names [OF i] by blast
    then have "n < length ixs" using wf nodes unfolding graph_wf_def by (metis length_map)
    then show ?thesis using grows_name [OF gg n] by blast
  qed
  moreover have "list_all (built_edge files ids g) (cg_edges g)" using gg es unfolding grows_def by auto
  moreover have "\<exists>e \<in> set (cg_edges g). edge_from g n import e"
    if n: "n < length ixs" and im: "import \<in> set (sf_imports (wk_symbols (pf_walked (files ! (ixs ! n)))))" for n import
  proof -
    have i: "ixs ! n < length files" "bp_module_of bp ! (ixs ! n) \<noteq> None" using n set_ixs nth_mem by blast+
    then have "bp_module_of bp ! (ixs ! n) = Some (mi_name (ids ! (ixs ! n)))" using names [OF i(1)] by auto
    then have "((files ! (ixs ! n), ids ! (ixs ! n)), Some (mi_name (ids ! (ixs ! n)))) \<in> set ?entries"
      using i(1) ids len by (force simp: in_set_zip)
    from imps [OF this at [OF n] im] show ?thesis .
  qed
  ultimately show ?thesis using grows_wf [OF gg] dist set_ixs by blast
qed

section \<open>Properties\<close>

text \<open>C26: Building never panics and gives a well-formed graph: names and nodes correspond one to one, edge
  ends are nodes. Its modules of the scan are exactly nodes of files, each file at most once, and every
  file's module name is the name of such a node.\<close>

theorem build_nodes_are_files:
  "\<exists>g ixs ns. build prof rs files roots = Some g \<and> graph_wf g
    \<and> cg_nodes g = map (\<lambda>i. file_node i (files ! i) (identities_for prof files roots ! i)) ixs @ ns
    \<and> list_all mn_is_external ns \<and> distinct ixs \<and> set ixs \<subseteq> {..<length files}
    \<and> list_all (\<lambda>ident. \<exists>n < length ixs. cg_name_to_index g (mi_name ident) = Some n) (identities_for prof files roots)"
proof -
  from build_result [of prof rs files roots] obtain g ixs ns where
      g: "build prof rs files roots = Some g" "graph_wf g"
        "cg_nodes g = map (\<lambda>i. file_node i (files ! i) (identities_for prof files roots ! i)) ixs @ ns"
        "list_all mn_is_external ns" "distinct ixs" "set ixs \<subseteq> {..<length files}"
      and names: "\<forall>i < length files. \<exists>n. n < length ixs \<and> cg_name_to_index g (mi_name (identities_for prof files roots ! i)) = Some n"
    by blast
  have "list_all (\<lambda>ident. \<exists>n < length ixs. cg_name_to_index g (mi_name ident) = Some n) (identities_for prof files roots)"
    using names by (simp add: list_all_length)
  then show ?thesis using g by blast
qed


text \<open>Files with distinct paths have one node per path, as the impact search assumes.\<close>

lemma build_paths_distinct:
  assumes "distinct (map pf_path files)" and "build prof rs files roots = Some g"
  shows "inj_on (node_path g) (internal_nodes g)"
proof -
  from build_result [of prof rs files roots] assms(2) obtain ixs ns where
      nodes: "cg_nodes g = map (\<lambda>i. file_node i (files ! i) (identities_for prof files roots ! i)) ixs @ ns"
    and ext: "list_all mn_is_external ns" and ixs: "distinct ixs" "set ixs \<subseteq> {..<length files}" by auto
  have "n < length ixs" if "n \<in> internal_nodes g" for n
    using internal_prefix [OF nodes ext, of n] that by (simp add: internal_nodes_def)
  moreover have "n = m" if n: "n < length ixs" and m: "m < length ixs" and eq: "node_path g n = node_path g m" for n m
  proof -
    have in_files: "ixs ! k < length files" if "k < length ixs" for k using that ixs(2) nth_mem by blast
    have "node_path g k = map pf_path files ! (ixs ! k)" if "k < length ixs" for k
      using that in_files [OF that] by (simp add: node_path_def nodes nth_append file_node_def)
    then have "ixs ! n = ixs ! m"
      using eq n m in_files assms(1) by (metis length_map nth_eq_iff_index_eq)
    then show ?thesis using n m ixs(1) nth_eq_iff_index_eq by blast
  qed
  ultimately show ?thesis by (intro inj_onI) blast
qed

lemma build_wf: "build prof rs files roots = Some g \<Longrightarrow> graph_wf g"
  using build_result [of prof rs files roots] by auto

end
