(* ===== verification/DeadCode.thy ===== *)
theory DeadCode
  imports DeadModules GraphBuild
begin

text \<open>
  The dead-code pillar as a whole, \<open>noze/dead_code/mod.rs\<close>: the rules of each language in the scan,
  the findings of every module, and the opt-in passes behind their knobs. Unused imports
  (\<open>extra.rs\<close>) are modelled; the member passes \<open>unused_methods\<close> and \<open>unused_properties\<close> are
  parameters, functions of the files they are given. Compiling globs is the parameter \<open>globset\<close>.
\<close>

section \<open>Rules of a language\<close>

definition merged :: "string list \<Rightarrow> string list \<Rightarrow> string list" where
  "merged configured defaults = defaults @ configured"

type_synonym globset = "string list \<Rightarrow> path \<Rightarrow> bool"

definition manifest_entries :: "(language \<Rightarrow> dead_code_profile) \<Rightarrow> parsed_file list \<Rightarrow> language \<Rightarrow> path set" where
  "manifest_entries prof fls lang =
     (let paths = map (\<lambda>fl. (pf_path fl, pf_runs_as_program fl)) (filter (\<lambda>fl. pf_language fl = lang) fls)
      in set (dp_manifest_entry_files (prof lang) paths))"

definition rule_set_of :: "(language \<Rightarrow> dead_code_profile) \<Rightarrow> globset \<Rightarrow> parsed_file list \<Rightarrow> dead_code_config \<Rightarrow> language \<Rightarrow> rule_set" where
  "rule_set_of prof globs fls config lang =
     (let defaults = dp_defaults (prof lang)
      in \<lparr>rs_entrypoints = set (merged (kc_registration_decorators config) (dd_registration_decorators defaults)),
          rs_entrypoint_names = merged (kc_entrypoint_names config) (dd_entrypoint_names defaults),
          rs_method_entrypoint_names = merged [] (dd_method_entrypoint_names defaults),
          rs_entry_globs = globs (merged (kc_entry_globs config) (dd_entry_globs defaults)),
          rs_config_globs = globs (merged [] (dd_runner_configs defaults)),
          rs_test_source_globs = globs (merged (kc_test_sources config) (dd_test_sources defaults)),
          rs_test_support_globs = globs (merged (kc_test_support config) (dd_test_support defaults)),
          rs_manifest_entries = manifest_entries prof fls lang\<rparr>)"

definition rule_sets_of :: "(language \<Rightarrow> dead_code_profile) \<Rightarrow> globset \<Rightarrow> parsed_file list \<Rightarrow> dead_code_config \<Rightarrow> rule_sets" where
  "rule_sets_of prof globs fls config lang =
     (if lang \<in> pf_language ` set fls then Some (rule_set_of prof globs fls config lang) else None)"

definition is_ignored_source :: "rule_sets \<Rightarrow> language \<Rightarrow> path \<Rightarrow> bool" where
  "is_ignored_source rule_sets lang p \<longleftrightarrow> (case rule_sets lang of None \<Rightarrow> False
     | Some rules \<Rightarrow> rs_test_source_globs rules p \<or> rs_entry_globs rules p)"

definition is_test_source :: "rule_sets \<Rightarrow> language \<Rightarrow> path \<Rightarrow> bool" where
  "is_test_source rule_sets lang p \<longleftrightarrow> (case rule_sets lang of None \<Rightarrow> False
     | Some rules \<Rightarrow> rs_test_source_globs rules p)"

section \<open>Unused imports\<close>

definition module_map :: "codebase_graph \<Rightarrow> path \<rightharpoonup> string" where
  "module_map cg = fold (\<lambda>n m. m(mn_file_path n \<mapsto> mn_module_name n)) (filter (\<lambda>n. \<not> mn_is_external n) (cg_nodes cg)) Map.empty"

definition is_referenced :: "(string \<rightharpoonup> usize) \<Rightarrow> string \<Rightarrow> bool" where
  "is_referenced counts name \<longleftrightarrow> (case counts name of None \<Rightarrow> 0 | Some n \<Rightarrow> n) > 0"

definition reports_import :: "import_context \<Rightarrow> bool" where
  "reports_import i \<longleftrightarrow> \<not> im_is_inline i \<and> \<not> im_is_reexport i \<and> im_phase i = Runtime"

definition unused_binding :: "parsed_file \<Rightarrow> string \<Rightarrow> import_phase \<Rightarrow> bool" where
  "unused_binding fl binding phase =
     (if phase = TypeOnly then False
      else if binding = ''*'' \<or> is_referenced (us_name_counts (wk_usage (pf_walked fl))) binding then False
      else if (case sf_dunder_all (wk_symbols (pf_walked fl)) of None \<Rightarrow> False | Some names \<Rightarrow> binding \<in> set names) then False
      else True)"

definition import_finding :: "parsed_file \<Rightarrow> string \<Rightarrow> import_context \<Rightarrow> string \<Rightarrow> dead_code_finding" where
  "import_finding fl module import binding = \<lparr>dc_action = Advisory, dc_module = module, dc_symbol = binding, dc_kind = KImport,
     dc_confidence = High, dc_file = pf_path fl, dc_line = im_line import, dc_reason = []\<rparr>"

definition unused_imports_in :: "(path \<rightharpoonup> string) \<Rightarrow> parsed_file \<Rightarrow> dead_code_finding list" where
  "unused_imports_in modmap fl =
     (let module = (case modmap (pf_path fl) of None \<Rightarrow> [] | Some m \<Rightarrow> m)
      in concat (map (\<lambda>import. map (\<lambda>(binding, phase). import_finding fl module import binding)
              (filter (\<lambda>(binding, phase). unused_binding fl binding phase) (zip (im_bindings import) (im_binding_phases import))))
           (filter reports_import (sf_imports (wk_symbols (pf_walked fl))))))"

definition unused_imports :: "(language \<Rightarrow> path \<Rightarrow> bool) \<Rightarrow> parsed_file list \<Rightarrow> (path \<rightharpoonup> string) \<Rightarrow> dead_code_finding list" where
  "unused_imports is_package_index fls modmap =
     concat (map (\<lambda>fl. if is_package_index (pf_language fl) (pf_path fl) then [] else unused_imports_in modmap fl) fls)"

section \<open>The pillar\<close>

text \<open>The member passes take the files to report on, the files that count as usage, and module names;
  methods moreover which names are entry points.\<close>

record member_passes =
  mp_unused_methods :: "parsed_file list \<Rightarrow> parsed_file list \<Rightarrow> (path \<rightharpoonup> string) \<Rightarrow> (language \<Rightarrow> string \<Rightarrow> bool) \<Rightarrow> dead_code_finding list"
  mp_unused_properties :: "parsed_file list \<Rightarrow> (path \<rightharpoonup> string) \<Rightarrow> dead_code_finding list"

definition method_entrypoint_in :: "rule_sets \<Rightarrow> language \<Rightarrow> string \<Rightarrow> bool" where
  "method_entrypoint_in rule_sets lang name \<longleftrightarrow>
     (case rule_sets lang of None \<Rightarrow> False | Some rules \<Rightarrow> is_method_entrypoint_name rules name)"

definition extra_findings :: "member_passes \<Rightarrow> (language \<Rightarrow> path \<Rightarrow> bool) \<Rightarrow> codebase_graph \<Rightarrow> parsed_file list
    \<Rightarrow> dead_code_config \<Rightarrow> rule_sets \<Rightarrow> dead_code_finding list" where
  "extra_findings passes is_package_index cg fls config rule_sets =
     (if \<not> (kc_unused_imports config \<or> kc_unused_methods config \<or> kc_unused_properties config) then []
      else let modmap = module_map cg;
               report_files = filter (\<lambda>fl. \<not> is_ignored_source rule_sets (pf_language fl) (pf_path fl)) fls;
               usage_files = filter (\<lambda>fl. \<not> is_test_source rule_sets (pf_language fl) (pf_path fl)) fls
           in (if kc_unused_imports config then unused_imports is_package_index report_files modmap else [])
              @ (if kc_unused_methods config
                 then mp_unused_methods passes report_files usage_files modmap (method_entrypoint_in rule_sets) else [])
              @ (if kc_unused_properties config then mp_unused_properties passes report_files modmap else []))"

definition dead_code_detect :: "member_passes \<Rightarrow> globset \<Rightarrow> key_order \<Rightarrow> (language \<Rightarrow> path \<Rightarrow> bool) \<Rightarrow> (language \<Rightarrow> dead_code_profile)
    \<Rightarrow> codebase_graph \<Rightarrow> edge_order \<Rightarrow> parsed_file list \<Rightarrow> dead_code_config \<Rightarrow> dead_code_finding list option" where
  "dead_code_detect passes globs ky is_package_index prof cg od fls config =
     (let rule_sets = rule_sets_of prof globs fls config
      in case module_scan_new ky prof cg od fls config rule_sets of
           None \<Rightarrow> None
         | Some scan \<Rightarrow> Some (concat (map (scan_findings prof scan) [0..<length (cg_nodes cg)])
             @ extra_findings passes is_package_index cg fls config rule_sets))"

section \<open>Properties\<close>

text \<open>C34: Unused imports, exactly. A binding is reported for a file that is no package index exactly when it
  comes from a top-level runtime import that is no re-export, is neither a star nor type-only, is never read in
  the file and is not exported through \<open>__all__\<close>; the finding names its line and module and has high confidence.\<close>

theorem unused_imports_exact:
  "f \<in> set (unused_imports is_package_index fls modmap) \<longleftrightarrow>
     (\<exists>fl import i. fl \<in> set fls \<and> \<not> is_package_index (pf_language fl) (pf_path fl)
        \<and> import \<in> set (sf_imports (wk_symbols (pf_walked fl)))
        \<and> \<not> im_is_inline import \<and> \<not> im_is_reexport import \<and> im_phase import = Runtime
        \<and> i < length (im_bindings import) \<and> i < length (im_binding_phases import)
        \<and> im_binding_phases import ! i = Runtime \<and> im_bindings import ! i \<noteq> ''*''
        \<and> us_name_counts (wk_usage (pf_walked fl)) (im_bindings import ! i) \<in> {None, Some 0}
        \<and> im_bindings import ! i \<notin> (case sf_dunder_all (wk_symbols (pf_walked fl)) of None \<Rightarrow> {} | Some names \<Rightarrow> set names)
        \<and> f = import_finding fl (case modmap (pf_path fl) of None \<Rightarrow> [] | Some m \<Rightarrow> m) import (im_bindings import ! i))"
  (is "?l \<longleftrightarrow> ?r")
proof -
  have unused: "unused_binding fl b ph \<longleftrightarrow> ph = Runtime \<and> b \<noteq> ''*''
      \<and> us_name_counts (wk_usage (pf_walked fl)) b \<in> {None, Some 0}
      \<and> b \<notin> (case sf_dunder_all (wk_symbols (pf_walked fl)) of None \<Rightarrow> {} | Some names \<Rightarrow> set names)" for fl b ph
    by (cases ph) (auto simp: unused_binding_def is_referenced_def split: option.splits)
  have "?l \<longleftrightarrow> (\<exists>fl \<in> set fls. \<not> is_package_index (pf_language fl) (pf_path fl)
      \<and> (\<exists>import \<in> set (sf_imports (wk_symbols (pf_walked fl))). reports_import import
           \<and> (\<exists>b ph. (b, ph) \<in> set (zip (im_bindings import) (im_binding_phases import)) \<and> unused_binding fl b ph
                \<and> f = import_finding fl (case modmap (pf_path fl) of None \<Rightarrow> [] | Some m \<Rightarrow> m) import b)))"
    by (force simp: unused_imports_def unused_imports_in_def Let_def)
  also have "\<dots> \<longleftrightarrow> ?r"
  proof -
    have zip: "(\<exists>b ph. (b, ph) \<in> set (zip xs ys) \<and> Q b ph)
        \<longleftrightarrow> (\<exists>i. i < length xs \<and> i < length ys \<and> Q (xs ! i) (ys ! i))" for xs :: "string list" and ys :: "import_phase list" and Q
      by (auto simp: in_set_zip)
    show ?thesis unfolding zip unused reports_import_def by blast
  qed
  finally show ?thesis .
qed

end
