(* ===== verification/Boundaries.thy ===== *)
theory Boundaries
  imports Graph Rust_Std
begin

text \<open>
  Auditing forbidden imports, \<open>bonez/mod.rs\<close>. A pattern without glob characters is a dotted (or slashed)
  prefix of the module name, any other a glob on the name and on the file path. Compiled globs are the
  parameter \<open>globs\<close>, matched against the text of a path; \<open>Path::new\<close> of a name keeps its text.
\<close>

record forbidden_rule =
  fr_from :: string
  fr_to :: string

datatype matcher = PrefixMatcher string | GlobMatcher "string list"

type_synonym glob_match = "string list \<Rightarrow> string \<Rightarrow> bool"

definition compile_pattern :: "string \<Rightarrow> matcher" where
  "compile_pattern pattern =
     (if list_ex (\<lambda>c. c = CHR ''*'' \<or> c = CHR ''?'' \<or> c = CHR ''['') pattern then GlobMatcher [pattern]
      else PrefixMatcher pattern)"

definition str_replace_char :: "char \<Rightarrow> char \<Rightarrow> string \<Rightarrow> string" where
  "str_replace_char c d s = map (\<lambda>x. if x = c then d else x) s"

fun matcher_matches_name :: "glob_match \<Rightarrow> matcher \<Rightarrow> string \<Rightarrow> bool" where
  "matcher_matches_name globs (PrefixMatcher p) name =
     (case str_strip_prefix name p of
        None \<Rightarrow> False
      | Some rest \<Rightarrow> rest = [] \<or> str_starts_with rest ''.'' \<or> str_starts_with rest ''/'')"
| "matcher_matches_name globs (GlobMatcher patterns) name \<longleftrightarrow>
     globs patterns name \<or> globs patterns (str_replace_char (CHR ''.'') (CHR ''/'') name)"

definition node_matches :: "glob_match \<Rightarrow> matcher \<Rightarrow> module_node \<Rightarrow> bool" where
  "node_matches globs matcher node =
     (if matcher_matches_name globs matcher (mn_module_name node) then True
      else case matcher of GlobMatcher patterns \<Rightarrow> globs patterns (path_display (mn_file_path node)) | PrefixMatcher _ \<Rightarrow> False)"

record compiled_rule =
  cr_from :: matcher
  cr_to :: matcher
  cr_label :: string

definition compile_rule :: "forbidden_rule \<Rightarrow> compiled_rule" where
  "compile_rule r = \<lparr>cr_from = compile_pattern (fr_from r), cr_to = compile_pattern (fr_to r),
     cr_label = fr_from r @ '' -x-> '' @ fr_to r\<rparr>"

text \<open>Pass 1: which rules' \<open>from\<close> matches a module of the scan.\<close>

definition hit_node :: "glob_match \<Rightarrow> compiled_rule list \<Rightarrow> module_node \<Rightarrow> bool list \<Rightarrow> bool list" where
  "hit_node globs compiled node from_hit =
     (if mn_is_external node then from_hit
      else map (\<lambda>(r, hit). hit \<or> node_matches globs (cr_from r) node) (zip compiled from_hit))"

definition from_hits :: "glob_match \<Rightarrow> compiled_rule list \<Rightarrow> codebase_graph \<Rightarrow> bool list" where
  "from_hits globs compiled cg =
     fold (hit_node globs compiled) (cg_nodes cg) (replicate (length compiled) False)"

text \<open>Pass 2: edges that cross a forbidden boundary.\<close>

definition edge_violates :: "glob_match \<Rightarrow> compiled_rule \<Rightarrow> module_node \<Rightarrow> module_node \<Rightarrow> string \<Rightarrow> bool" where
  "edge_violates globs r src dst target \<longleftrightarrow>
     node_matches globs (cr_from r) src \<and> (node_matches globs (cr_to r) dst \<or> matcher_matches_name globs (cr_to r) target)"

definition violation_of :: "codebase_graph \<Rightarrow> node_index \<times> node_index \<times> import_context \<Rightarrow> compiled_rule \<Rightarrow> boundary_violation" where
  "violation_of cg edge r = (case edge of (s, t, w) \<Rightarrow>
     \<lparr>bv_action = MustFix, bv_from_module = mn_module_name (cg_nodes cg ! s), bv_to_module = mn_module_name (cg_nodes cg ! t),
      bv_file = mn_file_path (cg_nodes cg ! s), bv_line = im_line w, bv_rule = cr_label r\<rparr>)"

definition edge_violations :: "glob_match \<Rightarrow> compiled_rule list \<Rightarrow> codebase_graph \<Rightarrow> node_index \<times> node_index \<times> import_context
    \<Rightarrow> boundary_violation list" where
  "edge_violations globs compiled cg edge = (case edge of (s, t, w) \<Rightarrow>
     map (violation_of cg edge)
       (filter (\<lambda>r. edge_violates globs r (cg_nodes cg ! s) (cg_nodes cg ! t) (im_target_module w)) compiled))"

record boundary_audit =
  ba_violations :: "boundary_violation list"
  ba_unmatched_rules :: "string list"

definition boundary_audit_of :: "glob_match \<Rightarrow> codebase_graph \<Rightarrow> forbidden_rule list \<Rightarrow> boundary_audit" where
  "boundary_audit_of globs cg rules =
     (if rules = [] then \<lparr>ba_violations = [], ba_unmatched_rules = []\<rparr>
      else let compiled = map compile_rule rules
           in \<lparr>ba_violations = concat (map (edge_violations globs compiled cg) (cg_edges cg)),
               ba_unmatched_rules = map (\<lambda>(r, hit). cr_label r) (filter (\<lambda>(r, hit). \<not> hit) (zip compiled (from_hits globs compiled cg)))\<rparr>)"

section \<open>Which modules a rule names\<close>

text \<open>A module below a layer, by dots or slashes: never a sibling whose name only starts alike.\<close>

lemma prefix_matches_iff:
  "matcher_matches_name globs (PrefixMatcher p) name \<longleftrightarrow> name = p \<or> prefix (p @ ''.'') name \<or> prefix (p @ ''/'') name"
proof (cases "str_strip_prefix name p")
  case None
  then have "\<not> prefix p name" by (simp add: str_strip_prefix_def str_starts_with_prefix split: if_splits)
  then show ?thesis using None by (auto dest: append_prefixD)
next
  case (Some rest)
  then have "name = p @ rest" by (simp add: str_strip_prefix_Some)
  then show ?thesis using Some by (simp add: str_starts_with_prefix)
qed

definition in_layer :: "glob_match \<Rightarrow> string \<Rightarrow> module_node \<Rightarrow> bool" where
  "in_layer globs pattern node \<longleftrightarrow> node_matches globs (compile_pattern pattern) node"

lemma fold_hits:
  "length hits = length compiled \<Longrightarrow>
     fold (hit_node globs compiled) nodes hits =
       map (\<lambda>(r, hit). hit \<or> (\<exists>n \<in> set nodes. \<not> mn_is_external n \<and> node_matches globs (cr_from r) n)) (zip compiled hits)"
proof (induction nodes arbitrary: hits)
  case Nil
  then show ?case by (simp add: case_prod_beta)
next
  case (Cons n nodes)
  have len: "length (hit_node globs compiled n hits) = length compiled" using Cons.prems by (simp add: hit_node_def)
  have "fold (hit_node globs compiled) (n # nodes) hits = fold (hit_node globs compiled) nodes (hit_node globs compiled n hits)"
    by simp
  also note Cons.IH [OF len]
  also have "map (\<lambda>(r, hit). hit \<or> (\<exists>n \<in> set nodes. \<not> mn_is_external n \<and> node_matches globs (cr_from r) n))
      (zip compiled (hit_node globs compiled n hits))
    = map (\<lambda>(r, hit). hit \<or> (\<exists>n \<in> set (n # nodes). \<not> mn_is_external n \<and> node_matches globs (cr_from r) n)) (zip compiled hits)"
    using Cons.prems len by (auto simp: hit_node_def intro!: nth_equalityI)
  finally show ?case .
qed

lemma from_hits_eq:
  "from_hits globs compiled cg =
     map (\<lambda>r. \<exists>n \<in> set (cg_nodes cg). \<not> mn_is_external n \<and> node_matches globs (cr_from r) n) compiled"
  unfolding from_hits_def by (subst fold_hits) (simp_all add: zip_replicate2 o_def)

section \<open>The audit\<close>

definition crosses :: "glob_match \<Rightarrow> codebase_graph \<Rightarrow> forbidden_rule \<Rightarrow> node_index \<times> node_index \<times> import_context \<Rightarrow> bool" where
  "crosses globs cg rule edge \<longleftrightarrow> (case edge of (s, t, w) \<Rightarrow> in_layer globs (fr_from rule) (cg_nodes cg ! s)
     \<and> (in_layer globs (fr_to rule) (cg_nodes cg ! t) \<or> matcher_matches_name globs (compile_pattern (fr_to rule)) (im_target_module w)))"

definition layer_empty :: "glob_match \<Rightarrow> codebase_graph \<Rightarrow> forbidden_rule \<Rightarrow> bool" where
  "layer_empty globs cg rule \<longleftrightarrow> (\<forall>n \<in> internal_nodes cg. \<not> in_layer globs (fr_from rule) (cg_nodes cg ! n))"

text \<open>C38: The audit reports, edge by edge in rule order, exactly the imports that cross a forbidden boundary, and
  lists, in their order, exactly the rules whose \<open>from\<close> side names no module of the scan. When every import
  starts at a module of the scan, no import crosses such a rule: what is listed as unmatched was not violated.\<close>

theorem boundary_audit_exact:
  assumes "list_all (\<lambda>(s, t, w). s \<in> internal_nodes cg) (cg_edges cg)"
  shows "ba_violations (boundary_audit_of globs cg rules) =
      concat (map (\<lambda>edge. map (\<lambda>rule. violation_of cg edge (compile_rule rule)) (filter (\<lambda>rule. crosses globs cg rule edge) rules)) (cg_edges cg))
    \<and> ba_unmatched_rules (boundary_audit_of globs cg rules) =
        map (\<lambda>rule. fr_from rule @ '' -x-> '' @ fr_to rule) (filter (layer_empty globs cg) rules)
    \<and> (\<forall>rule \<in> set rules. layer_empty globs cg rule \<longrightarrow> list_all (\<lambda>edge. \<not> crosses globs cg rule edge) (cg_edges cg))"
proof (intro conjI)
  have "edge_violations globs (map compile_rule rules) cg
      = (\<lambda>edge. map (\<lambda>rule. violation_of cg edge (compile_rule rule)) (filter (\<lambda>rule. crosses globs cg rule edge) rules))"
    by (rule ext, case_tac edge) (simp add: edge_violations_def filter_map o_def crosses_def in_layer_def edge_violates_def compile_rule_def)
  then show "ba_violations (boundary_audit_of globs cg rules) =
      concat (map (\<lambda>edge. map (\<lambda>rule. violation_of cg edge (compile_rule rule)) (filter (\<lambda>rule. crosses globs cg rule edge) rules)) (cg_edges cg))"
    by (auto simp: boundary_audit_of_def Let_def)
  have "(\<exists>n \<in> set (cg_nodes cg). \<not> mn_is_external n \<and> node_matches globs (compile_pattern p) n)
      \<longleftrightarrow> \<not> (\<forall>n \<in> internal_nodes cg. \<not> in_layer globs p (cg_nodes cg ! n))" for p
    unfolding set_conv_nth by (auto simp: internal_nodes_def in_layer_def)
  then have "(\<lambda>r. \<not> (\<exists>n \<in> set (cg_nodes cg). \<not> mn_is_external n \<and> node_matches globs (cr_from (compile_rule r)) n)) = layer_empty globs cg"
    by (auto simp: layer_empty_def compile_rule_def)
  then show "ba_unmatched_rules (boundary_audit_of globs cg rules) =
        map (\<lambda>rule. fr_from rule @ '' -x-> '' @ fr_to rule) (filter (layer_empty globs cg) rules)"
    by (auto simp: boundary_audit_of_def Let_def from_hits_eq zip_map_map filter_map o_def zip_same_conv_map compile_rule_def case_prod_beta)
  show "\<forall>rule \<in> set rules. layer_empty globs cg rule \<longrightarrow> list_all (\<lambda>edge. \<not> crosses globs cg rule edge) (cg_edges cg)"
    using assms by (fastforce simp: list_all_iff layer_empty_def crosses_def)
qed

definition layer_graph :: codebase_graph where
  "layer_graph = sample_graph [''domain.core'', ''web.views'', ''webs''] [(0, 1), (0, 2)]"

lemma layer_graph_sel:
  "cg_nodes layer_graph = [sample_node ''domain.core'', sample_node ''web.views'', sample_node ''webs'']"
  "cg_edges layer_graph = [(0, 1, sample_import), (0, 2, sample_import)]" "internal_nodes layer_graph = {0, 1, 2}"
  by (auto simp: layer_graph_def sample_graph_def internal_nodes_def sample_node_def less_Suc_eq numeral_2_eq_2 numeral_3_eq_3)

lemma layer_sample:
  "in_layer (\<lambda>ps s. False) ''domain'' (sample_node ''domain.core'')" "\<not> in_layer (\<lambda>ps s. False) ''domain'' (sample_node ''web.views'')"
  "\<not> in_layer (\<lambda>ps s. False) ''dom'' (sample_node ''domain.core'')" "\<not> in_layer (\<lambda>ps s. False) ''dom'' (sample_node ''web.views'')"
  "\<not> in_layer (\<lambda>ps s. False) ''dom'' (sample_node ''webs'')" "in_layer (\<lambda>ps s. False) ''web'' (sample_node ''web.views'')"
  "\<not> in_layer (\<lambda>ps s. False) ''web'' (sample_node ''webs'')"
  "\<not> matcher_matches_name (\<lambda>ps s. False) (compile_pattern ''web'') (im_target_module sample_import)"
  by code_simp+

theorem boundary_audit_exact_witness:
  "map bv_to_module (ba_violations (boundary_audit_of (\<lambda>ps s. False) layer_graph [\<lparr>fr_from = ''domain'', fr_to = ''web''\<rparr>, \<lparr>fr_from = ''dom'', fr_to = ''web''\<rparr>]))
     = [''web.views'']
   \<and> ba_unmatched_rules (boundary_audit_of (\<lambda>ps s. False) layer_graph [\<lparr>fr_from = ''domain'', fr_to = ''web''\<rparr>, \<lparr>fr_from = ''dom'', fr_to = ''web''\<rparr>])
     = [''dom -x-> web'']"
proof -
  have ok: "list_all (\<lambda>(s, t, w). s \<in> internal_nodes layer_graph) (cg_edges layer_graph)"
    by (simp add: layer_graph_sel)
  show ?thesis
    unfolding boundary_audit_exact [OF ok, THEN conjunct1] boundary_audit_exact [OF ok, THEN conjunct2, THEN conjunct1]
    by (simp add: layer_graph_sel crosses_def layer_sample layer_empty_def violation_of_def) (simp add: sample_node_def)
qed

end
