(* ===== verification/Analysis.thy ===== *)
theory Analysis
  imports Duplication Cycles DeadCode Boundaries
begin

text \<open>
  One scan of the analyzers, \<open>noze/mod.rs\<close> and \<open>noze/parallel.rs\<close>: every pillar over the same files and
  graph, then the action policy, the ranking and the metadata. The pillars are pure, so joining them in
  parallel is running them; \<open>None\<close> is a panic of one of them. Smell detection is the parameter
  \<open>ax_smells\<close>. The glossary, text about the kinds that occur, is left out.
\<close>

section \<open>Configuration and what lies outside\<close>

record action_policy =
  po_cycles :: action_level
  po_duplication :: action_level
  po_dead_code :: action_level
  po_boundaries :: action_level
  po_smells :: "smell_kind \<rightharpoonup> action_level"

record analysis_config =
  ac_cycles :: cycles_config
  ac_dead_code :: dead_code_config
  ac_forbidden :: "forbidden_rule list"
  ac_duplication :: duplication_config
  ac_smells_exclude :: "string list"
  ac_smells_include_tests :: bool
  ac_action :: action_policy

record analysis_externs =
  ax_tarjan :: "codebase_graph \<Rightarrow> (edge_reference \<Rightarrow> bool) \<Rightarrow> node_index list list"
  ax_globs :: globset
  ax_glob_match :: glob_match
  ax_edge_order :: "codebase_graph \<Rightarrow> edge_order"
  ax_keys :: key_order
  ax_is_package_index :: "language \<Rightarrow> path \<Rightarrow> bool"
  ax_dead_code_profiles :: "language \<Rightarrow> dead_code_profile"
  ax_member_passes :: member_passes
  ax_duplication :: dup_externs
  ax_profile_test :: "language \<Rightarrow> path \<Rightarrow> bool"
  ax_smells :: "parsed_file list \<Rightarrow> codebase_graph \<Rightarrow> source_scope \<Rightarrow> smell_finding list"

record pillar_scopes =
  ps_duplication :: source_scope
  ps_smells :: source_scope

definition pillar_scopes_new :: "globset \<Rightarrow> analysis_config \<Rightarrow> pillar_scopes" where
  "pillar_scopes_new globs config =
     (let d = ac_duplication config
      in \<lparr>ps_duplication = scope_for_duplication globs (dp_exclude d) (dp_include_tests d) (dp_include_generated d),
          ps_smells = scope_for_smells globs (ac_smells_exclude config) (ac_smells_include_tests config)\<rparr>)"

section \<open>The pillars\<close>

record graph_findings =
  gf_cycles :: "cycle_finding list"
  gf_dead_code :: "dead_code_finding list"
  gf_boundaries :: boundary_audit

definition detect_graph_findings :: "analysis_externs \<Rightarrow> parsed_file list \<Rightarrow> codebase_graph \<Rightarrow> analysis_config \<Rightarrow> graph_findings option" where
  "detect_graph_findings ex fls graph config =
     Option.bind (cycles_detect (ax_tarjan ex) (ax_globs ex) graph (ax_edge_order ex graph) (ac_cycles config)) (\<lambda>cs.
     Option.bind (dead_code_detect (ax_member_passes ex) (ax_globs ex) (ax_keys ex) (ax_is_package_index ex)
         (ax_dead_code_profiles ex) graph (ax_edge_order ex graph) fls (ac_dead_code config)) (\<lambda>dead.
       Some \<lparr>gf_cycles = cs, gf_dead_code = dead,
         gf_boundaries = boundary_audit_of (ax_glob_match ex) graph (ac_forbidden config)\<rparr>))"

record source_findings =
  so_duplication :: "clone_class list"
  so_smells :: "smell_finding list"

definition detect_source_findings :: "analysis_externs \<Rightarrow> parsed_file list \<Rightarrow> codebase_graph \<Rightarrow> analysis_config \<Rightarrow> pillar_scopes \<Rightarrow> source_findings" where
  "detect_source_findings ex fls graph config scopes =
     \<lparr>so_duplication = duplication_detect (ax_duplication ex) (is_test_file (ax_globs ex) (ax_profile_test ex)) fls
        (ac_duplication config) (ps_duplication scopes),
      so_smells = ax_smells ex fls graph (ps_smells scopes)\<rparr>"

section \<open>Policy, ranking, metadata\<close>

definition for_smell :: "action_policy \<Rightarrow> smell_kind \<Rightarrow> severity \<Rightarrow> action_level" where
  "for_smell policy kind default_severity = (case po_smells policy kind of
     Some a \<Rightarrow> a | None \<Rightarrow> from_severity default_severity)"

definition apply_smell_action :: "action_policy \<Rightarrow> smell_finding \<Rightarrow> smell_finding" where
  "apply_smell_action policy smell =
     (if sm_action smell = from_severity (sm_severity smell)
      then smell\<lparr>sm_action := for_smell policy (sm_kind smell) (sm_severity smell)\<rparr> else smell)"

definition apply_smell_actions :: "smell_finding list \<Rightarrow> action_policy \<Rightarrow> smell_finding list" where
  "apply_smell_actions found policy = map (apply_smell_action policy) found"

definition cycle_action :: "action_policy \<Rightarrow> cycle_finding \<Rightarrow> cycle_finding" where
  "cycle_action policy c = (if cy_action c \<noteq> Info then c\<lparr>cy_action := po_cycles policy\<rparr> else c)"

definition clone_action :: "action_policy \<Rightarrow> clone_class \<Rightarrow> clone_class" where
  "clone_action policy c = (if cl_action c \<noteq> Info then c\<lparr>cl_action := po_duplication policy\<rparr> else c)"

fun count_edge :: "codebase_graph \<Rightarrow> node_index \<times> node_index \<times> import_context \<Rightarrow> usize \<times> usize \<Rightarrow> usize \<times> usize" where
  "count_edge graph (s, t, w) (internal, external) =
     (if mn_is_external (cg_nodes graph ! t) then (internal, external + 1) else (internal + 1, external))"

definition edge_stats :: "codebase_graph \<Rightarrow> usize \<times> usize" where
  "edge_stats graph = fold (count_edge graph) (cg_edges graph) (0, 0)"

definition rank_cycles :: "cycle_finding list \<Rightarrow> cycle_finding list" where
  "rank_cycles = sort_key (\<lambda>c. (cy_action c, Reverse (length (cy_modules c))))"

definition rank_smells :: "smell_finding list \<Rightarrow> smell_finding list" where
  "rank_smells = sort_key (\<lambda>s. (sm_action s, sm_severity s, Reverse (sm_metric s)))"

definition policy_dead_code :: "action_policy \<Rightarrow> dead_code_finding list \<Rightarrow> dead_code_finding list" where
  "policy_dead_code policy findings = sort_key dc_confidence
     (map (\<lambda>f. f\<lparr>dc_action := po_dead_code policy\<rparr>) (filter (\<lambda>f. dc_confidence f \<noteq> Low) findings))"

definition run_with_root :: "analysis_externs \<Rightarrow> parsed_file list \<Rightarrow> codebase_graph \<Rightarrow> analysis_config \<Rightarrow> analysis_report option" where
  "run_with_root ex fls graph config =
     (let scopes = pillar_scopes_new (ax_globs ex) config; policy = ac_action config;
          is_test = is_test_file (ax_globs ex) (ax_profile_test ex);
          source = detect_source_findings ex fls graph config scopes;
          (internal_edges, external_edges) = edge_stats graph
      in Option.bind (detect_graph_findings ex fls graph config) (\<lambda>found.
           Some (refresh_totals \<lparr>
             meta = default_meta\<lparr>rm_mode := Full, rm_boundaries_configured := ac_forbidden config \<noteq> [],
               rm_internal_edges := internal_edges, rm_external_edges := external_edges, rm_files_skipped := 0,
               rm_analyzed_files := length fls, rm_source_lines := sum_list (map (unat \<circ> pf_lines) fls),
               rm_duplication_skipped := scope_skip_counts is_test (ps_duplication scopes) fls,
               rm_smells_skipped := scope_skip_counts is_test (ps_smells scopes) fls,
               rm_unmatched_boundary_rules := ba_unmatched_rules (gf_boundaries found)\<rparr>,
             cycles = rank_cycles (map (cycle_action policy) (gf_cycles found)),
             dead_code = policy_dead_code policy (gf_dead_code found),
             boundaries = map (\<lambda>v. v\<lparr>bv_action := po_boundaries policy\<rparr>) (ba_violations (gf_boundaries found)),
             duplication = map (clone_action policy) (so_duplication source),
             smells = rank_smells (apply_smell_actions (so_smells source) policy)\<rparr>)))"

text \<open>The part of \<open>pipeline.rs\<close> from parsed files to the report: the graph, then the pillars.\<close>

definition analyze_files :: "'r profiles \<Rightarrow> (language \<Rightarrow> 'r) \<Rightarrow> analysis_externs \<Rightarrow> parsed_file list \<Rightarrow> path list \<Rightarrow> analysis_config
    \<Rightarrow> (codebase_graph \<times> analysis_report) option" where
  "analyze_files prof rs ex fls roots config =
     Option.bind (build prof rs fls roots) (\<lambda>graph.
     Option.bind (run_with_root ex fls graph config) (\<lambda>report. Some (graph, report)))"

section \<open>A scan never panics\<close>

lemma edge_stats_total: "fst (edge_stats graph) + snd (edge_stats graph) = length (cg_edges graph)"
proof -
  have "fst (fold (count_edge graph) es (i, j)) + snd (fold (count_edge graph) es (i, j)) = i + j + length es" for es i j
  proof (induction es arbitrary: i j)
    case (Cons e es)
    then show ?case by (cases e) simp
  qed simp
  from this [of "cg_edges graph" 0 0] show ?thesis by (simp add: edge_stats_def)
qed

lemma dead_code_detect_total:
  assumes "petgraph_ok cg od"
  shows "\<exists>findings. dead_code_detect passes globs ky idx prof cg od fls config = Some findings"
  using inbound_of_fixpoint [OF assms, of "scan_importers prof cg od config (rule_sets_of prof globs fls config)"]
  by (auto simp: dead_code_detect_def module_scan_new_def Let_def)

lemma run_with_root_total:
  assumes "petgraph_ok graph (ax_edge_order ex graph)" and "tarjan_ok (ax_tarjan ex) graph"
  shows "\<exists>report. run_with_root ex fls graph config = Some report"
proof -
  obtain cs where "cycles_detect (ax_tarjan ex) (ax_globs ex) graph (ax_edge_order ex graph) (ac_cycles config) = Some cs"
    using cycles_detect_findings [OF assms, of "ax_globs ex" "ac_cycles config"] by blast
  moreover obtain ds where "dead_code_detect (ax_member_passes ex) (ax_globs ex) (ax_keys ex) (ax_is_package_index ex)
      (ax_dead_code_profiles ex) graph (ax_edge_order ex graph) fls (ac_dead_code config) = Some ds"
    using dead_code_detect_total [OF assms(1)] by blast
  ultimately show ?thesis by (simp add: run_with_root_def detect_graph_findings_def Let_def split: prod.split)
qed

lemma sorted_first_key:
  assumes "\<And>x y. f x \<le> f y \<Longrightarrow> g x \<le> g y"
  shows "sorted (map g (sort_key f xs))"
proof -
  have "sorted (map f ys) \<Longrightarrow> sorted (map g ys)" for ys
    by (induction ys) (auto intro: assms)
  then show ?thesis by simp
qed

lemma run_with_root_SomeD:
  assumes "run_with_root ex fls graph config = Some report"
  shows "rm_internal_edges (meta report) + rm_external_edges (meta report) = length (cg_edges graph)
    \<and> sorted (map cy_action (cycles report)) \<and> sorted (map dc_confidence (dead_code report)) \<and> sorted (map sm_action (smells report))
    \<and> list_all (\<lambda>c. cy_action c = Info \<or> cy_action c = po_cycles (ac_action config)) (cycles report)
    \<and> list_all (\<lambda>f. dc_confidence f \<noteq> Low \<and> dc_action f = po_dead_code (ac_action config)) (dead_code report)
    \<and> list_all (\<lambda>v. bv_action v = po_boundaries (ac_action config)) (boundaries report)
    \<and> list_all (\<lambda>c. cl_action c = Info \<or> cl_action c = po_duplication (ac_action config)) (duplication report)
    \<and> meta report = meta (refresh_totals report)"
proof -
  obtain i j where edges: "edge_stats graph = (i, j)" by force
  obtain found where found: "detect_graph_findings ex fls graph config = Some found"
    using assms by (cases "detect_graph_findings ex fls graph config") (simp_all add: run_with_root_def Let_def edges)
  define source where "source = detect_source_findings ex fls graph config (pillar_scopes_new (ax_globs ex) config)"
  have report: "report = the (run_with_root ex fls graph config)" using assms by simp
  note run = run_with_root_def Let_def edges found source_def [symmetric] refresh_totals_def
  have r: "meta report = meta (refresh_totals report)"
      "rm_internal_edges (meta report) = i" "rm_external_edges (meta report) = j" "edge_stats graph = (i, j)"
      "cycles report = rank_cycles (map (cycle_action (ac_action config)) (gf_cycles found))"
      "dead_code report = policy_dead_code (ac_action config) (gf_dead_code found)"
      "boundaries report = map (\<lambda>v. v\<lparr>bv_action := po_boundaries (ac_action config)\<rparr>) (ba_violations (gf_boundaries found))"
      "duplication report = map (clone_action (ac_action config)) (so_duplication source)"
      "smells report = rank_smells (apply_smell_actions (so_smells source) (ac_action config))"
    unfolding report by (simp_all add: run edges)
  have ranks: "sorted (map cy_action (rank_cycles cs))" "sorted (map sm_action (rank_smells ss))" for cs ss
    unfolding rank_cycles_def rank_smells_def by (rule sorted_first_key, auto simp: less_eq_prod_def)+
  have sets: "set (rank_cycles cs) = set cs" for cs by (simp add: rank_cycles_def)
  show ?thesis
    using edge_stats_total [of graph] unfolding r(5-9)
    by (auto simp: r(2-4) ranks sets list_all_iff policy_dead_code_def cycle_action_def clone_action_def r(1) [symmetric])
qed


text \<open>A sample: one file that imports itself, no external findings.\<close>

definition sample_policy :: action_policy where
  "sample_policy = \<lparr>po_cycles = MustFix, po_duplication = Advisory, po_dead_code = Advisory, po_boundaries = MustFix, po_smells = Map.empty\<rparr>"

definition sample_analysis_config :: analysis_config where
  "sample_analysis_config = \<lparr>ac_cycles = \<lparr>cc_exclude = [], cc_include_type_only = True\<rparr>, ac_dead_code = scan_config, ac_forbidden = [],
     ac_duplication = \<lparr>dp_exclude = [], dp_include_tests = False, dp_include_generated = False, dp_threshold = 0, dp_max_gap = 0,
       dp_near_miss = False, dp_class_name_duplicates = False, dp_class_property_overlap_min = 0\<rparr>,
     ac_smells_exclude = [], ac_smells_include_tests = False, ac_action = sample_policy\<rparr>"

definition sample_externs :: analysis_externs where
  "sample_externs = \<lparr>ax_tarjan = (\<lambda>g keep. []), ax_globs = (\<lambda>ps p. False), ax_glob_match = (\<lambda>ps s. False),
     ax_edge_order = ascending_order, ax_keys = scan_keys, ax_is_package_index = (\<lambda>l p. False),
     ax_dead_code_profiles = scan_profile,
     ax_member_passes = \<lparr>mp_unused_methods = (\<lambda>r u m e. []), mp_unused_properties = (\<lambda>r m. [])\<rparr>,
     ax_duplication = \<lparr>ex_libsais = (\<lambda>x. Inl []), ex_bio = (\<lambda>x. []), ex_hash = (\<lambda>x. 0), ex_family = (\<lambda>l. l)\<rparr>,
     ax_profile_test = (\<lambda>l p. False), ax_smells = (\<lambda>f g s. [])\<rparr>"

definition sample_profiles :: "unit profiles" where
  "sample_profiles lang = \<lparr>mp_root_for = (\<lambda>p. []), mp_module_name = (\<lambda>p root. path_display p), mp_is_package_index = (\<lambda>p. False),
     mp_containing_package = (\<lambda>m idx. m), mp_disambiguated = (\<lambda>p root m. m), mp_path_key = (\<lambda>p. Some p),
     mp_workspace_root = (\<lambda>p. None), mp_submodule_candidate = (\<lambda>m s. None), mp_is_containment = (\<lambda>a b. False),
     mp_edge_phase = (\<lambda>i p r. (im_phase i, r)), mp_target_path_keys = (\<lambda>i p r. ([], r)),
     mp_resolve_target = (\<lambda>i m p root r. (im_target_module i, r)), mp_hash_order = sorted_list_of_set\<rparr>"


end
