(* ===== verification/Rust_Str.thy ===== *)
theory Rust_Str
  imports Rust_Std
begin

text \<open>
  More of \<open>str\<close>: splitting, lines, trimming and parsing numbers. A string is its bytes; white space is the
  ASCII kind (trimming of other Unicode spaces is not modelled).
\<close>

section \<open>Splitting\<close>

fun split_on :: "(char \<Rightarrow> bool) \<Rightarrow> string \<Rightarrow> string list" where
  "split_on P [] = [[]]"
| "split_on P (c # cs) = (if P c then [] # split_on P cs
     else (case split_on P cs of [] \<Rightarrow> [[c]] | w # ws \<Rightarrow> (c # w) # ws))"

lemma split_on_nonempty [simp]: "split_on P s \<noteq> []"
  by (induction s) (auto split: list.splits)

lemma split_on_none: "list_all (\<lambda>c. \<not> P c) s \<Longrightarrow> split_on P s = [s]"
  by (induction s) auto

lemma split_on_cut: "list_all (\<lambda>c. \<not> P c) s \<Longrightarrow> P c \<Longrightarrow> split_on P (s @ c # t) = s # split_on P t"
  by (induction s) auto

text \<open>\<open>str::lines\<close>: only a line that ended with a newline loses a carriage return.\<close>

abbreviation newline :: char where "newline \<equiv> CHR 0x0A"

definition strip_cr :: "string \<Rightarrow> string" where
  "strip_cr s = (case str_strip_suffix s [CHR 0x0D] of Some t \<Rightarrow> t | None \<Rightarrow> s)"

definition str_lines :: "string \<Rightarrow> string list" where
  "str_lines s = (let parts = split_on (\<lambda>c. c = newline) s
     in map strip_cr (butlast parts) @ (if last parts = [] then [] else [last parts]))"

definition plain_line :: "string \<Rightarrow> bool" where
  "plain_line s \<longleftrightarrow> newline \<notin> set s \<and> (s = [] \<or> last s \<noteq> CHR 0x0D)"

definition unlines :: "string list \<Rightarrow> string" where
  "unlines ls = concat (map (\<lambda>l. l @ [newline]) ls)"

lemma strip_cr_plain: "plain_line s \<Longrightarrow> strip_cr s = s"
  by (auto simp: strip_cr_def plain_line_def str_strip_suffix_Some split: option.splits)

lemma split_unlines:
  "list_all plain_line ls \<Longrightarrow> split_on (\<lambda>c. c = newline) (unlines ls) = ls @ [[]]"
proof (induction ls)
  case (Cons l ls)
  have "list_all (\<lambda>c. c \<noteq> newline) l" using Cons.prems by (auto simp: plain_line_def list_all_iff)
  then have "split_on (\<lambda>c. c = newline) (l @ newline # unlines ls) = l # split_on (\<lambda>c. c = newline) (unlines ls)"
    by (rule split_on_cut) simp
  then show ?case using Cons by (simp add: unlines_def)
qed (simp add: unlines_def)

lemma str_lines_unlines: "list_all plain_line ls \<Longrightarrow> str_lines (unlines ls) = ls"
  by (simp add: str_lines_def Let_def split_unlines butlast_append)
     (induction ls; simp add: strip_cr_plain)

section \<open>Trimming\<close>

definition is_space :: "char \<Rightarrow> bool" where
  "is_space c \<longleftrightarrow> c = CHR '' '' \<or> (9 \<le> (of_char c :: nat) \<and> (of_char c :: nat) \<le> 13)"

definition trim_start :: "string \<Rightarrow> string" where
  "trim_start s = dropWhile is_space s"

definition trim_end :: "string \<Rightarrow> string" where
  "trim_end s = rev (dropWhile is_space (rev s))"

definition str_trim :: "string \<Rightarrow> string" where
  "str_trim s = trim_end (trim_start s)"

lemma trim_start_id: "s = [] \<or> \<not> is_space (hd s) \<Longrightarrow> trim_start s = s"
  by (cases s) (auto simp: trim_start_def)

lemma trim_end_id: "s = [] \<or> \<not> is_space (last s) \<Longrightarrow> trim_end s = s"
  by (cases s rule: rev_cases) (auto simp: trim_end_def)

lemma str_trim_id: "s = [] \<or> \<not> is_space (hd s) \<and> \<not> is_space (last s) \<Longrightarrow> str_trim s = s"
  by (auto simp: str_trim_def trim_start_id trim_end_id)

section \<open>Numbers\<close>

definition is_digit :: "char \<Rightarrow> bool" where
  "is_digit c \<longleftrightarrow> 48 \<le> (of_char c :: nat) \<and> (of_char c :: nat) \<le> 57"

definition digits_value :: "string \<Rightarrow> nat" where
  "digits_value s = fold (\<lambda>c n. n * 10 + (of_char c - 48)) s 0"

text \<open>\<open>str::parse::<usize>\<close>: an optional plus sign, digits, no overflow.\<close>

definition parse_usize :: "string \<Rightarrow> usize option" where
  "parse_usize s =
     (let ds = (case str_strip_prefix s ''+'' of Some t \<Rightarrow> t | None \<Rightarrow> s)
      in if ds = [] \<or> \<not> list_all is_digit ds \<or> usize_max < digits_value ds then None else Some (digits_value ds))"

lemma of_char_digit: "d < 10 \<Longrightarrow> (of_char (char_of (48 + d :: nat)) :: nat) = 48 + d"
  by (simp add: of_char_of)

lemma is_digit_char: "d < 10 \<Longrightarrow> is_digit (char_of (48 + d :: nat))"
  by (simp add: is_digit_def of_char_digit)

lemma nat_text_digits: "list_all is_digit (nat_text n) \<and> nat_text n \<noteq> []"
proof (induction n rule: nat_text.induct)
  case (1 n)
  show ?case
  proof (cases "n < 10")
    case True
    then show ?thesis by (subst (1 2) nat_text.simps) (simp add: is_digit_def of_char_digit)
  next
    case False
    then show ?thesis using 1 by (subst (1 2) nat_text.simps) (simp add: is_digit_char)
  qed
qed

lemma digits_value_snoc: "digits_value (s @ [c]) = digits_value s * 10 + (of_char c - 48)"
  by (simp add: digits_value_def)

lemma digits_value_text: "digits_value (nat_text n) = n"
proof (induction n rule: nat_text.induct)
  case (1 n)
  show ?case
  proof (cases "n < 10")
    case True
    then show ?thesis by (subst nat_text.simps) (simp add: digits_value_def of_char_digit)
  next
    case False
    then show ?thesis using 1 by (subst nat_text.simps) (simp add: digits_value_snoc of_char_digit)
  qed
qed

lemma digit_not_plus: "is_digit c \<Longrightarrow> c \<noteq> CHR ''+''"
  by (auto simp: is_digit_def)

lemma parse_nat_text: "n \<le> usize_max \<Longrightarrow> parse_usize (nat_text n) = Some n"
proof -
  assume n: "n \<le> usize_max"
  obtain c s where s: "nat_text n = c # s" using nat_text_digits [of n] by (cases "nat_text n") auto
  then have "c \<noteq> CHR ''+''" using nat_text_digits [of n] digit_not_plus by auto
  then have "str_strip_prefix (nat_text n) ''+'' = None"
    by (simp add: s str_strip_prefix_def str_starts_with_def)
  then show ?thesis using n nat_text_digits [of n] by (simp add: parse_usize_def digits_value_text)
qed

lemma nat_text_trim: "str_trim (nat_text n) = nat_text n"
proof -
  have "\<not> is_space c" if "c \<in> set (nat_text n)" for c
    using that nat_text_digits [of n] by (auto simp: list_all_iff is_digit_def is_space_def)
  then show ?thesis using nat_text_digits [of n] by (intro str_trim_id) simp
qed

end
