(* ===== verification/DiffParse.thy ===== *)
theory DiffParse
  imports Rust_Str
begin

text \<open>
  Parsing unified diffs, \<open>diff/parse.rs\<close>: per file section the new path, the new-side ranges of the hunk
  headers and the removed lines, and git's quoted paths. \<open>lossy\<close> is \<open>String::from_utf8_lossy\<close>. A range's end
  is computed in \<open>usize\<close>, which wraps in a release build.
\<close>

record file_diff =
  fd_path :: "string option"
  fd_ranges :: "(usize \<times> usize) list"
  fd_removed :: "string list"

section \<open>Quoted paths\<close>

definition is_octal :: "char \<Rightarrow> bool" where
  "is_octal c \<longleftrightarrow> 48 \<le> (of_char c :: nat) \<and> (of_char c :: nat) \<le> 55"

definition octal_value :: "char \<Rightarrow> nat" where
  "octal_value c = of_char c - 48"

text \<open>Up to \<open>n\<close> more octal digits.\<close>

fun more_octal :: "nat \<Rightarrow> nat \<Rightarrow> string \<Rightarrow> nat \<times> string" where
  "more_octal 0 acc cs = (acc, cs)"
| "more_octal (Suc n) acc [] = (acc, [])"
| "more_octal (Suc n) acc (c # cs) =
     (if is_octal c then more_octal n (acc * 8 + octal_value c) cs else more_octal n acc (c # cs))"

lemma more_octal_shorter: "length (snd (more_octal n acc cs)) \<le> length cs"
proof (induction n acc cs rule: more_octal.induct)
  case (3 n acc c cs)
  then show ?case by (cases "is_octal c") auto
qed auto

definition escape_byte :: "char \<Rightarrow> char" where
  "escape_byte c =
     (if c = CHR ''n'' then char_of (10 :: nat) else if c = CHR ''t'' then char_of (9 :: nat)
      else if c = CHR ''r'' then char_of (13 :: nat) else if c = CHR ''a'' then char_of (7 :: nat)
      else if c = CHR ''b'' then char_of (8 :: nat) else if c = CHR ''f'' then char_of (12 :: nat)
      else if c = CHR ''v'' then char_of (11 :: nat) else c)"

definition octal_byte :: "nat \<Rightarrow> char" where
  "octal_byte acc = (if acc < 256 then char_of acc else CHR ''?'')"

function unquote_bytes :: "string \<Rightarrow> string" where
  "unquote_bytes [] = []"
| "unquote_bytes (c # cs) =
     (if c = CHR 0x22 then []
      else if c = CHR 0x5C
        then (case cs of
                [] \<Rightarrow> []
              | d # ds \<Rightarrow> if is_octal d
                  then (case more_octal 2 (octal_value d) ds of (acc, rest) \<Rightarrow> octal_byte acc # unquote_bytes rest)
                  else escape_byte d # unquote_bytes ds)
      else c # unquote_bytes cs)"
  by pat_completeness auto
termination
proof (relation "measure length", goal_cases)
  case 1
  show ?case by simp
next
  case prems: (2 c cs d ds acc rest)
  from prems(5) have "length rest \<le> length ds"
    using more_octal_shorter [of 2 "octal_value d" ds] by (metis snd_conv)
  then show ?case using prems by simp
qed auto

declare unquote_bytes.simps [simp del]

definition unquote :: "(string \<Rightarrow> string) \<Rightarrow> string \<Rightarrow> string" where
  "unquote lossy quoted = lossy (unquote_bytes quoted)"

section \<open>Sections\<close>

definition tab :: char where "tab = CHR 0x09"

definition new_file_path :: "(string \<Rightarrow> string) \<Rightarrow> string \<Rightarrow> string option" where
  "new_file_path lossy field =
     (let p = (case str_strip_prefix field [CHR 0x22] of
                 Some quoted \<Rightarrow> unquote lossy quoted
               | None \<Rightarrow> str_trim (hd (split_on (\<lambda>c. c = tab) field)))
      in if p = ''/dev/null'' then None
         else Some (case str_strip_prefix p ''b/'' of Some q \<Rightarrow> q | None \<Rightarrow> p))"

definition new_hunk_range :: "string \<Rightarrow> (usize \<times> usize) option" where
  "new_hunk_range rest =
     (case split_on (\<lambda>c. c = CHR ''+'') rest of
        _ # after # _ \<Rightarrow>
          (case split_on (\<lambda>c. c = CHR '','') (hd (split_on (\<lambda>c. c = CHR '' '' \<or> c = CHR ''@'') after)) of
             first # others \<Rightarrow>
               (case parse_usize (str_trim first) of
                  None \<Rightarrow> None
                | Some start \<Rightarrow>
                    (case (case others of [] \<Rightarrow> Some 1 | c # _ \<Rightarrow> parse_usize (str_trim c)) of
                       None \<Rightarrow> None
                     | Some n \<Rightarrow> if n = 0 then None else Some (start, (start + n - 1) mod (usize_max + 1))))
           | [] \<Rightarrow> None)
      | _ \<Rightarrow> None)"

definition parse_line :: "string \<Rightarrow> file_diff \<Rightarrow> file_diff" where
  "parse_line line fl = (case str_strip_prefix line ''@@'' of
     Some hunk \<Rightarrow> fl\<lparr>fd_ranges := fd_ranges fl @ (case new_hunk_range hunk of None \<Rightarrow> [] | Some r \<Rightarrow> [r])\<rparr>
   | None \<Rightarrow> (case str_strip_prefix line ''-'' of
         Some removed \<Rightarrow> fl\<lparr>fd_removed := fd_removed fl @ [removed]\<rparr>
       | None \<Rightarrow> fl))"

definition parse_section :: "(string \<Rightarrow> string) \<Rightarrow> string list \<Rightarrow> file_diff option" where
  "parse_section lossy section =
     (case dropWhile (\<lambda>line. \<not> str_starts_with line ''+++ '') section of
        [] \<Rightarrow> None
      | header # lines \<Rightarrow>
          (case str_strip_prefix header ''+++ '' of
             None \<Rightarrow> None
           | Some field \<Rightarrow> Some (fold parse_line lines
               \<lparr>fd_path = new_file_path lossy (trim_start field), fd_ranges = [], fd_removed = []\<rparr>)))"

definition add_line :: "string \<Rightarrow> string list list \<Rightarrow> string list list" where
  "add_line line sections =
     (if str_starts_with line ''diff --git '' then sections @ [[]]
      else if sections = [] then sections
      else butlast sections @ [last sections @ [line]])"

definition parse_unified :: "(string \<Rightarrow> string) \<Rightarrow> string \<Rightarrow> file_diff list" where
  "parse_unified lossy s = List.map_filter (parse_section lossy) (fold add_line (str_lines s) [])"

section \<open>How git prints a path\<close>

definition needs_quote :: "char \<Rightarrow> bool" where
  "needs_quote c \<longleftrightarrow> (of_char c :: nat) < 32 \<or> 127 \<le> (of_char c :: nat) \<or> c = CHR 0x22 \<or> c = CHR 0x5C"

definition octal_digit :: "nat \<Rightarrow> char" where
  "octal_digit d = char_of (48 + d)"

definition quote_byte :: "char \<Rightarrow> string" where
  "quote_byte c =
     (if \<not> needs_quote c then [c]
      else CHR 0x5C #
        (if c = CHR 0x22 \<or> c = CHR 0x5C then [c]
         else if c = CHR 0x0A then ''n'' else if c = CHR 0x09 then ''t'' else if c = CHR 0x0D then ''r''
         else if c = CHR 0x07 then ''a'' else if c = CHR 0x08 then ''b'' else if c = CHR 0x0C then ''f''
         else if c = CHR 0x0B then ''v''
         else [octal_digit (of_char c div 64), octal_digit (of_char c div 8 mod 8), octal_digit (of_char c mod 8)]))"

lemma octal_digit_props: "d < 8 \<Longrightarrow> is_octal (octal_digit d) \<and> octal_value (octal_digit d) = d"
  by (simp add: is_octal_def octal_value_def octal_digit_def of_char_of)

lemma of_char_less: "(of_char c :: nat) < 256"
  by (cases c) (simp add: of_char_def)

lemma unquote_octal:
  "unquote_bytes (CHR 0x5C # octal_digit (of_char c div 64) # octal_digit (of_char c div 8 mod 8) # octal_digit (of_char c mod 8) # t)
     = c # unquote_bytes t"
proof -
  define n where "n = (of_char c :: nat)"
  have n: "n < 256" using of_char_less [of c] by (simp add: n_def)
  then have d: "n div 64 < 8" "n div 8 mod 8 < 8" "n mod 8 < 8" by auto
  have "n div 64 = n div 8 div 8" by (simp add: div_mult2_eq [symmetric])
  then have "n div 64 * 8 + n div 8 mod 8 = n div 8" by simp
  then have "(n div 64 * 8 + n div 8 mod 8) * 8 + n mod 8 = n" by simp
  then have "octal_byte ((n div 64 * 8 + n div 8 mod 8) * 8 + n mod 8) = c"
    using n by (simp add: octal_byte_def n_def)
  moreover have "more_octal 2 (n div 64) (octal_digit (n div 8 mod 8) # octal_digit (n mod 8) # t)
      = ((n div 64 * 8 + n div 8 mod 8) * 8 + n mod 8, t)"
    using octal_digit_props [OF d(2)] octal_digit_props [OF d(3)] by (simp add: numeral_2_eq_2)
  moreover have "unquote_bytes (CHR 0x5C # x # xs) = octal_byte acc # unquote_bytes rest"
    if "is_octal x" "more_octal 2 (octal_value x) xs = (acc, rest)" for x xs acc rest
    using that by (subst unquote_bytes.simps) simp
  ultimately show ?thesis
    using octal_digit_props [OF d(1)] unfolding n_def [symmetric] by simp
qed

lemma quote_letter:
  "list_all (\<lambda>c. case quote_byte c of [b, x] \<Rightarrow> b = CHR 0x5C \<and> \<not> is_octal x \<and> escape_byte x = c | _ \<Rightarrow> False)
     [CHR 0x22, CHR 0x5C, CHR 0x0A, CHR 0x09, CHR 0x0D, CHR 0x07, CHR 0x08, CHR 0x0C, CHR 0x0B]"
  by code_simp

lemma unquote_escape: "\<not> is_octal x \<Longrightarrow> unquote_bytes (CHR 0x5C # x # xs) = escape_byte x # unquote_bytes xs"
  by (subst unquote_bytes.simps) simp

lemma unquote_quote_byte: "unquote_bytes (quote_byte c @ t) = c # unquote_bytes t"
proof -
  let ?letters = "[CHR 0x22, CHR 0x5C, CHR 0x0A, CHR 0x09, CHR 0x0D, CHR 0x07, CHR 0x08, CHR 0x0C, CHR 0x0B]"
  show ?thesis
  proof (cases "needs_quote c \<and> c \<notin> set ?letters")
    case True
    then have "quote_byte c = [CHR 0x5C, octal_digit (of_char c div 64), octal_digit (of_char c div 8 mod 8), octal_digit (of_char c mod 8)]"
      by (simp add: quote_byte_def)
    then show ?thesis using unquote_octal [of c t] by simp
  next
    case False
    have "unquote_bytes (quote_byte c @ t) = c # unquote_bytes t" if "c \<in> set ?letters"
    proof -
      have "case quote_byte c of [b, x] \<Rightarrow> b = CHR 0x5C \<and> \<not> is_octal x \<and> escape_byte x = c | _ \<Rightarrow> False"
        using that quote_letter unfolding list_all_iff by blast
      then obtain x where "quote_byte c = [CHR 0x5C, x]" "\<not> is_octal x" "escape_byte x = c"
        by (auto split: list.splits)
      then show ?thesis by (simp add: unquote_escape)
    qed
    moreover have "unquote_bytes (quote_byte c @ t) = c # unquote_bytes t" if "\<not> needs_quote c"
      using that by (auto simp: quote_byte_def needs_quote_def unquote_bytes.simps(2))
    ultimately show ?thesis using False by blast
  qed
qed

lemma unquote_quoted: "unquote_bytes (concat (map quote_byte p) @ CHR 0x22 # rest) = p"
  by (induction p) (simp_all add: unquote_quote_byte unquote_bytes.simps)

section \<open>How git prints a diff\<close>

record diff_hunk =
  hk_old :: "nat \<times> nat"
  hk_start :: nat
  hk_count :: nat
  hk_context :: string
  hk_removed :: "string list"
  hk_added :: "string list"

record diff_section =
  dx_names :: string
  dx_extra :: "string list"
  dx_path :: "string option"
  dx_hunks :: "diff_hunk list"

definition print_path :: "string option \<Rightarrow> string" where
  "print_path p = (case p of
     None \<Rightarrow> ''/dev/null''
   | Some q \<Rightarrow> if list_ex needs_quote q then CHR 0x22 # concat (map quote_byte (''b/'' @ q)) @ [CHR 0x22]
       else ''b/'' @ q @ (if CHR '' '' \<in> set q then [tab] else []))"

definition print_range :: "nat \<Rightarrow> nat \<Rightarrow> string" where
  "print_range start n = nat_text start @ '','' @ nat_text n"

definition print_hunk :: "diff_hunk \<Rightarrow> string list" where
  "print_hunk h =
     (''@@ -'' @ print_range (fst (hk_old h)) (snd (hk_old h)) @ '' +'' @ print_range (hk_start h) (hk_count h) @ '' @@'' @ hk_context h)
       # map (\<lambda>l. ''-'' @ l) (hk_removed h) @ map (\<lambda>l. ''+'' @ l) (hk_added h)"

definition print_section :: "diff_section \<Rightarrow> string list" where
  "print_section d = (''diff --git '' @ dx_names d) # dx_extra d @ (''+++ '' @ print_path (dx_path d)) # concat (map print_hunk (dx_hunks d))"

definition print_diff :: "diff_section list \<Rightarrow> string" where
  "print_diff ds = unlines (concat (map print_section ds))"

text \<open>What is printable: lines without newline, header lines that are no file header, paths in UTF-8 that do not
  end in a space, ranges of a \<open>usize\<close>.\<close>

definition hunk_ok :: "diff_hunk \<Rightarrow> bool" where
  "hunk_ok h \<longleftrightarrow> hk_start h + hk_count h \<le> usize_max \<and> list_all plain_line (hk_context h # hk_removed h @ hk_added h)"

definition path_ok :: "(string \<Rightarrow> string) \<Rightarrow> string \<Rightarrow> bool" where
  "path_ok lossy p \<longleftrightarrow> p \<noteq> [] \<and> last p \<noteq> CHR '' '' \<and> lossy (''b/'' @ p) = ''b/'' @ p"

definition section_ok :: "(string \<Rightarrow> string) \<Rightarrow> diff_section \<Rightarrow> bool" where
  "section_ok lossy d \<longleftrightarrow> list_all plain_line (dx_names d # dx_extra d)
     \<and> list_all (\<lambda>l. \<not> str_starts_with l ''diff --git '' \<and> \<not> str_starts_with l ''+++ '') (dx_extra d)
     \<and> (case dx_path d of None \<Rightarrow> True | Some p \<Rightarrow> path_ok lossy p) \<and> list_all hunk_ok (dx_hunks d)"

definition hunk_range :: "diff_hunk \<Rightarrow> (usize \<times> usize) list" where
  "hunk_range h = (if hk_count h = 0 then [] else [(hk_start h, hk_start h + hk_count h - 1)])"

definition section_diff :: "diff_section \<Rightarrow> file_diff" where
  "section_diff d = \<lparr>fd_path = dx_path d, fd_ranges = concat (map hunk_range (dx_hunks d)),
     fd_removed = concat (map hk_removed (dx_hunks d))\<rparr>"

subsection \<open>Hunk headers\<close>

lemma nat_text_free: "\<not> is_digit x \<Longrightarrow> x \<notin> set (nat_text n)"
  using nat_text_digits [of n] by (auto simp: list_all_iff)

lemma nat_text_avoids:
  "CHR ''+'' \<notin> set (nat_text n)" "CHR '','' \<notin> set (nat_text n)" "CHR '' '' \<notin> set (nat_text n)" "CHR ''@'' \<notin> set (nat_text n)"
  by (simp_all add: nat_text_free is_digit_def)

lemma all_not_iff: "list_all (\<lambda>c. c \<noteq> x) s \<longleftrightarrow> x \<notin> set s"
  by (auto simp: list_all_iff)

lemma new_hunk_range_print:
  assumes "start + n \<le> usize_max"
  shows "new_hunk_range ('' -'' @ print_range a b @ '' +'' @ print_range start n @ '' @@'' @ ctx)
    = (if n = 0 then None else Some (start, start + n - 1))"
proof -
  have head: "list_all (\<lambda>c. c \<noteq> CHR ''+'') ('' -'' @ print_range a b @ '' '')"
    by (simp add: print_range_def all_not_iff nat_text_avoids)
  obtain after rest where plus: "split_on (\<lambda>c. c = CHR ''+'') (print_range start n @ '' @@'' @ ctx) = after # rest"
    by (meson list.exhaust split_on_nonempty)
  have cut: "\<exists>t. after = print_range start n @ '' '' @ t"
  proof -
    have "split_on (\<lambda>c. c = CHR ''+'') (s @ t) = (case split_on (\<lambda>c. c = CHR ''+'') t of w # ws \<Rightarrow> (s @ w) # ws | [] \<Rightarrow> [s])"
      if "CHR ''+'' \<notin> set s" for s t
      using that by (induction s) (auto split: list.splits)
    from this [of "print_range start n @ '' ''" "''@@'' @ ctx"] plus show ?thesis
      by (auto simp: print_range_def nat_text_avoids split: list.splits)
  qed
  then obtain t where t: "after = print_range start n @ CHR '' '' # t" by auto
  have "split_on (\<lambda>c. c = CHR ''+'') ('' -'' @ print_range a b @ '' +'' @ print_range start n @ '' @@'' @ ctx)
      = ('' -'' @ print_range a b @ '' '') # after # rest"
    using split_on_cut [OF head, of "CHR ''+''" "print_range start n @ '' @@'' @ ctx"] plus by simp
  moreover have "split_on (\<lambda>c. c = CHR '' '' \<or> c = CHR ''@'') after = print_range start n # split_on (\<lambda>c. c = CHR '' '' \<or> c = CHR ''@'') t"
    unfolding t by (rule split_on_cut) (auto simp: print_range_def list_all_iff nat_text_avoids)
  moreover have "split_on (\<lambda>c. c = CHR '','') (print_range start n) = [nat_text start, nat_text n]"
  proof -
    have "split_on (\<lambda>c. c = CHR '','') (nat_text start @ CHR '','' # nat_text n) = nat_text start # split_on (\<lambda>c. c = CHR '','') (nat_text n)"
      by (rule split_on_cut) (simp_all add: all_not_iff nat_text_avoids)
    also have "split_on (\<lambda>c. c = CHR '','') (nat_text n) = [nat_text n]"
      by (rule split_on_none) (simp add: all_not_iff nat_text_avoids)
    finally show ?thesis by (simp add: print_range_def)
  qed
  ultimately show ?thesis
    using assms by (simp add: new_hunk_range_def nat_text_trim parse_nat_text)
qed

subsection \<open>Sections\<close>

lemma parse_lines_hunk:
  assumes "hunk_ok h"
  shows "fold parse_line (print_hunk h) fl = fl\<lparr>fd_ranges := fd_ranges fl @ hunk_range h, fd_removed := fd_removed fl @ hk_removed h\<rparr>"
proof -
  have removed: "fold parse_line (map ((#) (CHR ''-'')) ls) fl = fl\<lparr>fd_removed := fd_removed fl @ ls\<rparr>" for ls fl
    by (induction ls arbitrary: fl) (simp_all add: parse_line_def str_strip_prefix_def str_starts_with_def)
  have added: "fold parse_line (map ((#) (CHR ''+'')) ls) fl = fl" for ls fl
    by (induction ls arbitrary: fl) (simp_all add: parse_line_def str_strip_prefix_def str_starts_with_def)
  have "str_strip_prefix (''@@'' @ rest) ''@@'' = Some rest" for rest by (simp add: str_strip_prefix_def str_starts_with_def)
  moreover have "hk_start h + hk_count h \<le> usize_max" using assms by (simp add: hunk_ok_def)
  ultimately have "parse_line (''@@ -'' @ print_range (fst (hk_old h)) (snd (hk_old h)) @ '' +'' @ print_range (hk_start h) (hk_count h) @ '' @@'' @ hk_context h) fl
      = fl\<lparr>fd_ranges := fd_ranges fl @ hunk_range h\<rparr>"
    using new_hunk_range_print [of "hk_start h" "hk_count h" "fst (hk_old h)" "snd (hk_old h)" "hk_context h"]
    by (simp add: parse_line_def hunk_range_def str_strip_prefix_def str_starts_with_def)
  then show ?thesis by (simp add: print_hunk_def removed added)
qed

lemma parse_lines_hunks:
  "list_all hunk_ok hs \<Longrightarrow> fold parse_line (concat (map print_hunk hs)) fl
     = fl\<lparr>fd_ranges := fd_ranges fl @ concat (map hunk_range hs), fd_removed := fd_removed fl @ concat (map hk_removed hs)\<rparr>"
  by (induction hs arbitrary: fl) (simp_all add: parse_lines_hunk)

lemma new_file_path_print:
  assumes "case q of None \<Rightarrow> True | Some r \<Rightarrow> path_ok lossy r"
  shows "new_file_path lossy (trim_start (print_path q)) = q"
proof (cases q)
  case None
  have "split_on (\<lambda>c. c = tab) ''/dev/null'' = [''/dev/null'']" by code_simp
  moreover have "str_trim ''/dev/null'' = ''/dev/null''" "trim_start ''/dev/null'' = ''/dev/null''" by code_simp+
  ultimately show ?thesis
    using None by (simp add: print_path_def new_file_path_def str_strip_prefix_def str_starts_with_def)
next
  case (Some r)
  then have r: "r \<noteq> []" "last r \<noteq> CHR '' ''" "lossy (''b/'' @ r) = ''b/'' @ r" using assms by (simp_all add: path_ok_def)
  have strip: "str_strip_prefix (''b/'' @ r) ''b/'' = Some r" by (simp add: str_strip_prefix_Some)
  show ?thesis
  proof (cases "list_ex needs_quote r")
    case True
    have "unquote lossy (concat (map quote_byte (''b/'' @ r)) @ [CHR 0x22]) = ''b/'' @ r"
      using unquote_quoted [of "''b/'' @ r" "[]"] r(3) by (simp add: unquote_def)
    then show ?thesis
      using Some True strip
      by (simp add: print_path_def new_file_path_def trim_start_def is_space_def str_strip_prefix_def str_starts_with_def)
  next
    case False
    then have ascii: "c \<in> set r \<Longrightarrow> 32 \<le> (of_char c :: nat)" for c by (auto simp: list_ex_iff needs_quote_def not_less)
    then have last: "\<not> is_space (last r)" using r(2) ascii [OF last_in_set [OF r(1)]] by (auto simp: is_space_def)
    have notab: "tab \<notin> set (''b/'' @ r)" using ascii [of tab] by (auto simp: tab_def)
    have field: "print_path q = ''b/'' @ r @ (if CHR '' '' \<in> set r then [tab] else [])" using Some False by (simp add: print_path_def)
    have "hd (split_on (\<lambda>c. c = tab) (print_path q)) = ''b/'' @ r"
    proof (cases "CHR '' '' \<in> set r")
      case True
      have "split_on (\<lambda>c. c = tab) ((''b/'' @ r) @ tab # []) = (''b/'' @ r) # split_on (\<lambda>c. c = tab) []"
        by (rule split_on_cut) (use notab in \<open>auto simp: list_all_iff\<close>)
      then show ?thesis using True by (simp add: field)
    next
      case False
      have "split_on (\<lambda>c. c = tab) (''b/'' @ r) = [''b/'' @ r]"
        by (rule split_on_none) (use notab in \<open>auto simp: list_all_iff\<close>)
      then show ?thesis using False by (simp add: field)
    qed
    moreover have "str_trim (''b/'' @ r) = ''b/'' @ r" by (rule str_trim_id) (use last r(1) in \<open>auto simp: is_space_def\<close>)
    moreover have "trim_start (print_path q) = print_path q" by (rule trim_start_id) (simp add: field is_space_def)
    moreover have "str_strip_prefix (print_path q) [CHR 0x22] = None" by (simp add: field str_strip_prefix_def str_starts_with_def)
    ultimately show ?thesis using Some strip by (simp add: new_file_path_def Let_def)
  qed
qed

lemma parse_section_print:
  assumes "section_ok lossy d"
  shows "parse_section lossy (tl (print_section d)) = Some (section_diff d)"
proof -
  let ?header = "''+++ '' @ print_path (dx_path d)"
  have extra: "\<not> str_starts_with l ''+++ ''" if "l \<in> set (dx_extra d)" for l
    using assms that by (auto simp: section_ok_def list_all_iff)
  have strip: "str_strip_prefix ?header ''+++ '' = Some (print_path (dx_path d))" by (simp add: str_strip_prefix_Some)
  then have "str_starts_with ?header ''+++ ''" by (auto simp: str_strip_prefix_def split: if_splits)
  then have drop: "dropWhile (\<lambda>l. \<not> str_starts_with l ''+++ '') (tl (print_section d)) = ?header # concat (map print_hunk (dx_hunks d))"
    using extra by (simp add: print_section_def dropWhile_append)
  have "new_file_path lossy (trim_start (print_path (dx_path d))) = dx_path d"
    using assms by (intro new_file_path_print) (simp add: section_ok_def)
  moreover have "list_all hunk_ok (dx_hunks d)" using assms by (simp add: section_ok_def)
  ultimately show ?thesis
    using strip unfolding parse_section_def drop by (simp add: parse_lines_hunks section_diff_def)
qed

subsection \<open>The whole diff\<close>

lemma plain_line_append: "plain_line t \<Longrightarrow> newline \<notin> set s \<Longrightarrow> t \<noteq> [] \<or> s = [] \<or> last s \<noteq> CHR 0x0D \<Longrightarrow> plain_line (s @ t)"
  by (cases "t = []") (auto simp: plain_line_def last_append)

lemma newline_octal: "\<not> is_octal newline"
  by (simp add: is_octal_def)

lemma quote_byte_plain: "newline \<notin> set (quote_byte c)"
proof (cases "needs_quote c")
  case True
  have "newline \<noteq> octal_digit (d :: nat)" if "d < 8" for d
    using octal_digit_props [OF that] newline_octal by metis
  moreover have "(of_char c :: nat) div 64 < 8" using less_trans [OF of_char_less [of c], of 512] by (simp add: div_less_iff_less_mult)
  ultimately show ?thesis using True by (auto simp: quote_byte_def)
next
  case False
  then show ?thesis by (auto simp: quote_byte_def needs_quote_def)
qed

lemma print_path_plain: "plain_line (''+++ '' @ print_path q)"
proof (cases q)
  case (Some r)
  show ?thesis
  proof (cases "list_ex needs_quote r")
    case True
    then show ?thesis using Some quote_byte_plain by (auto simp: print_path_def plain_line_def)
  next
    case False
    then have "c \<in> set r \<Longrightarrow> 32 \<le> (of_char c :: nat)" for c by (auto simp: list_ex_iff needs_quote_def not_less)
    from this [of newline] this [of "CHR 0x0D"] have "newline \<notin> set r" "CHR 0x0D \<notin> set r" by auto
    then show ?thesis using Some False by (auto simp: print_path_def plain_line_def tab_def last_append split: if_splits dest: last_in_set)
  qed
qed (simp add: print_path_def plain_line_def)

lemma nat_text_plain: "newline \<notin> set (nat_text n)"
  by (simp add: nat_text_free is_digit_def)

lemma print_hunk_plain: "hunk_ok h \<Longrightarrow> list_all plain_line (print_hunk h)"
  by (auto simp: hunk_ok_def print_hunk_def print_range_def list_all_iff plain_line_def nat_text_plain last_append split: if_splits)

lemma print_section_plain: "section_ok lossy d \<Longrightarrow> list_all plain_line (print_section d)"
  using print_hunk_plain print_path_plain [of "dx_path d"]
  by (auto simp: section_ok_def print_section_def list_all_iff plain_line_def last_append split: if_splits)

lemma body_not_header:
  assumes "section_ok lossy d" and "l \<in> set (tl (print_section d))"
  shows "\<not> str_starts_with l ''diff --git ''"
  using assms by (auto simp: section_ok_def print_section_def print_hunk_def list_all_iff str_starts_with_def)

lemma add_body:
  assumes "\<forall>l \<in> set ls. \<not> str_starts_with l ''diff --git ''"
  shows "fold add_line ls (acc @ [body]) = acc @ [body @ ls]"
  using assms by (induction ls arbitrary: body) (simp_all add: add_line_def)

lemma add_sections:
  assumes "list_all (section_ok lossy) ds"
  shows "fold add_line (concat (map print_section ds)) acc = acc @ map (\<lambda>d. tl (print_section d)) ds"
  using assms
proof (induction ds arbitrary: acc)
  case (Cons d ds)
  have split: "print_section d = (''diff --git '' @ dx_names d) # tl (print_section d)" by (simp add: print_section_def)
  have first: "add_line (''diff --git '' @ dx_names d) acc = acc @ [[]]" by (simp add: add_line_def str_starts_with_def)
  have "fold add_line (print_section d) acc = acc @ [tl (print_section d)]"
    using add_body [of "tl (print_section d)" acc "[]"] body_not_header [of lossy d] Cons.prems first
    by (subst split) simp
  then show ?case using Cons by simp
qed simp


definition sample_diff :: "diff_section list" where
  "sample_diff = [\<lparr>dx_names = ''x y'', dx_extra = [''--- a/m n.py''], dx_path = Some ''m n.py'',
     dx_hunks = [\<lparr>hk_old = (3, 1), hk_start = 4, hk_count = 2, hk_context = '' def f():'', hk_removed = [''-- a'', ''@@ b''],
       hk_added = [''++ c'', ''d'']\<rparr>]\<rparr>,
    \<lparr>dx_names = ''z'', dx_extra = [], dx_path = None, dx_hunks = []\<rparr>]"


end
