(* ===== verification/Spec2Isabelle.thy ===== *)
theory Spec2Isabelle
  imports Limits Impact Schedule Analysis DiffParse
begin

text \<open>A verification development for the static analyzer \<open>sensez\<close>.\<close>

end
